(* ===== verification/Prelude.thy ===== *)
theory Prelude imports Main "HOL-Library.Word" "HOL-Library.Sublist" begin

text \<open>
  What every component shares: Go's \<open>int64\<close> as a 64-bit word read as two's
  complement, Go's map lookup with its zero value, and the lemmas on lists and on
  machine arithmetic the component proofs rest on.
\<close>

section \<open>Go's signed 64-bit integers\<close>

text \<open>
  Amounts, quantities, versions and global sequence numbers are \<open>int64\<close> (and Go's \<open>int\<close>
  has 64 bits on the platforms the service runs on).  \<open>+\<close> and \<open>-\<close> wrap around; the
  comparisons of the source are the signed ones, \<open><s\<close> and \<open>\<le>s\<close>, which the simplifier reads
  through \<open>sint\<close>.
\<close>

type_synonym int64 = "64 word"

lemma int64_less [simp]: "(a :: int64) <s b \<longleftrightarrow> sint a < sint b"
  by (simp add: word_sless_alt)

lemma int64_less_eq [simp]: "(a :: int64) \<le>s b \<longleftrightarrow> sint a \<le> sint b"
  by (simp add: word_sle_eq)

lemma sint64_ge: "- (2 ^ 63) \<le> sint (a :: int64)"
  using sint_ge [of a] by simp

lemma sint64_lt: "sint (a :: int64) < 2 ^ 63"
  using sint_lt [of a] by simp

lemma sint64_range: "- 9223372036854775808 \<le> sint (a :: int64)" "sint (a :: int64) \<le> 9223372036854775807"
  using sint64_ge [of a] sint64_lt [of a] by simp_all

text \<open>\<open>in64 i\<close>: the mathematical integer \<open>i\<close> is representable as an \<open>int64\<close>.\<close>

definition in64 :: "int \<Rightarrow> bool" where
  "in64 i \<longleftrightarrow> - (2 ^ 63) \<le> i \<and> i < 2 ^ 63"

lemma in64_sint [simp]: "in64 (sint (a :: int64))"
  using sint64_ge [of a] sint64_lt [of a] by (simp add: in64_def)

lemma sint_of_in64: "in64 i \<Longrightarrow> sint (word_of_int i :: int64) = i"
  by (simp add: in64_def sint_sbintrunc' signed_take_bit_int_eq_self)

lemma sint_add: "in64 (sint a + sint b) \<Longrightarrow> sint (a + b :: int64) = sint a + sint b"
  by (simp add: in64_def sint_word_ariths signed_take_bit_int_eq_self)

lemma sint_sub: "in64 (sint a - sint b) \<Longrightarrow> sint (a - b :: int64) = sint a - sint b"
  by (simp add: in64_def sint_word_ariths signed_take_bit_int_eq_self)

lemma sint_word_of_nat: "n < 2 ^ 63 \<Longrightarrow> sint (word_of_nat n :: int64) = int n"
  using sint_of_in64 [of "int n"] by (simp add: in64_def)

lemma word_of_nat_inject:
  "m < 2 ^ 63 \<Longrightarrow> n < 2 ^ 63 \<Longrightarrow> (word_of_nat m :: int64) = word_of_nat n \<longleftrightarrow> m = n"
  using sint_word_of_nat by (metis of_nat_eq_iff)

lemma sint_suc_no_overflow: "sint (a :: int64) < sint (b :: int64) \<Longrightarrow> sint (a + 1) = sint a + 1"
  using sint64_lt [of b] sint64_ge [of a] by (simp add: sint_add in64_def)

section \<open>Go maps\<close>

text \<open>
  \<open>m[k]\<close> on a Go map yields the zero value of the element type when \<open>k\<close> is absent.
\<close>

definition go_get :: "('k \<rightharpoonup> 'v::zero) \<Rightarrow> 'k \<Rightarrow> 'v" where
  "go_get m k = (case m k of None \<Rightarrow> 0 | Some v \<Rightarrow> v)"

lemma go_get_upd [simp]: "go_get (m(k \<mapsto> v)) = (go_get m)(k := v)"
  by (auto simp: go_get_def fun_eq_iff)

lemma go_get_empty [simp]: "go_get Map.empty = (\<lambda>_. 0)"
  by (simp add: go_get_def fun_eq_iff)

end
