(* ===== verification/Errors.thy ===== *)
theory Errors imports Prelude begin

text \<open>
  The error values of the program: the sentinels of \<open>internal/ledger/errors.go\<close> and
  \<open>internal/eventstore/eventstore.go\<close>, and the errors the code builds around others.  A Go
  result \<open>(T, error)\<close> is \<open>error + T\<close>, with \<open>Inl\<close> for a non-nil error.
\<close>

text \<open>What \<open>encoding/json\<close> reports: a text that is no JSON, or a value of the wrong kind.\<close>

datatype json_error = SyntaxError | UnmarshalTypeError

text \<open>
  \<open>Errorf c e\<close> is \<open>fmt.Errorf("c: %w", e)\<close>, which wraps \<open>e\<close>; \<open>UnknownEventType c t\<close> is
  \<open>fmt.Errorf("c %q", t)\<close>, which wraps nothing; \<open>JsonError\<close> is an error of \<open>json.Unmarshal\<close>;
  \<open>OtherError\<close> is any error of a collaborator (a database driver, a broker).
\<close>

datatype error =
    ErrVersionConflict
  | ErrStreamNotFound
  | ErrInvalidAmount
  | ErrInvalidQuantity
  | ErrAccountAlreadyOpened
  | ErrAccountNotOpen
  | ErrInsufficientFunds
  | ErrInsufficientStock
  | ErrSameAccountTransfer
  | Errorf string error
  | UnknownEventType string string
  | JsonError json_error
  | OtherError string

text \<open>\<open>errors.Is(err, target)\<close>: \<open>err\<close> or an error it wraps is \<open>target\<close>.\<close>

fun errors_is :: "error \<Rightarrow> error \<Rightarrow> bool" where
  "errors_is (Errorf c e) t \<longleftrightarrow> Errorf c e = t \<or> errors_is e t"
| "errors_is e t \<longleftrightarrow> e = t"

lemma errors_is_refl [simp]: "errors_is e e"
  by (cases e) simp_all

end
