(* ===== verification/Json.thy ===== *)
theory Json imports Errors begin

text \<open>
  What the program uses of \<open>encoding/json\<close>: \<open>Marshal\<close> of structs of strings and int64
  fields, with \<open>omitempty\<close>, and \<open>Unmarshal\<close> into such structs.  A payload (\<open>[]byte\<close>) is
  modelled at the level of JSON values: \<open>JsonText v\<close> is a byte string whose JSON value is
  \<open>v\<close>, \<open>NotJson b\<close> one that is no JSON text.  Strings are valid UTF-8, which protobuf
  guarantees for every string the service receives.
\<close>

datatype json =
    JNull
  | JBool bool
  | JInt int             \<comment> \<open>a number literal without fraction or exponent\<close>
  | JFloat string        \<comment> \<open>any other number literal\<close>
  | JStr string
  | JArr "json list"
  | JObj "(string \<times> json) list"

datatype payload = JsonText json | NotJson string

section \<open>Unmarshal into a struct\<close>

text \<open>
  A struct is described by its fields: the JSON key of the field's tag and how a value is
  stored into the field.  \<open>null\<close> leaves a field as it is; a value of the wrong kind, or a
  number that does not fit, is an \<open>UnmarshalTypeError\<close> and leaves the field as it is.
\<close>

type_synonym 'a struct_fields = "(string \<times> (json \<Rightarrow> 'a \<Rightarrow> json_error + 'a)) list"

definition int64_field :: "(int64 \<Rightarrow> 'a \<Rightarrow> 'a) \<Rightarrow> json \<Rightarrow> 'a \<Rightarrow> json_error + 'a" where
  "int64_field set_field v x =
     (case v of
        JNull \<Rightarrow> Inr x
      | JInt i \<Rightarrow> if - (2 ^ 63) \<le> i \<and> i < 2 ^ 63 then Inr (set_field (word_of_int i) x)
                  else Inl UnmarshalTypeError
      | _ \<Rightarrow> Inl UnmarshalTypeError)"

definition string_field :: "(string \<Rightarrow> 'a \<Rightarrow> 'a) \<Rightarrow> json \<Rightarrow> 'a \<Rightarrow> json_error + 'a" where
  "string_field set_field v x =
     (case v of JNull \<Rightarrow> Inr x | JStr s \<Rightarrow> Inr (set_field s x) | _ \<Rightarrow> Inl UnmarshalTypeError)"

text \<open>
  A key of the object selects the field whose tag equals it up to ASCII case; other keys are
  skipped.  Every tag of the program is in lower case.
\<close>

definition ascii_lower :: "char \<Rightarrow> char" where
  "ascii_lower c =
     (if 65 \<le> (of_char c :: nat) \<and> (of_char c :: nat) \<le> 90 then char_of ((of_char c :: nat) + 32) else c)"

definition find_field :: "'a struct_fields \<Rightarrow> string \<Rightarrow> (json \<Rightarrow> 'a \<Rightarrow> json_error + 'a) option" where
  "find_field fs key = map_of fs (map ascii_lower key)"

text \<open>
  Members are decoded in order, a later one overwriting an earlier one with the same key.
  After a type error decoding goes on; the first such error is returned at the end.
\<close>

fun decode_members ::
  "'a struct_fields \<Rightarrow> (string \<times> json) list \<Rightarrow> json_error option \<Rightarrow> 'a \<Rightarrow> json_error + 'a" where
  "decode_members fs [] err x = (case err of None \<Rightarrow> Inr x | Some e \<Rightarrow> Inl e)"
| "decode_members fs ((k, v) # ms) err x =
     (case find_field fs k of
        None \<Rightarrow> decode_members fs ms err x
      | Some st \<Rightarrow>
          (case st v x of
             Inr y \<Rightarrow> decode_members fs ms err y
           | Inl e \<Rightarrow> decode_members fs ms (if err = None then Some e else err) x))"

definition Unmarshal :: "'a struct_fields \<Rightarrow> payload \<Rightarrow> 'a \<Rightarrow> error + 'a" where
  "Unmarshal fs data x =
     (case data of
        NotJson _ \<Rightarrow> Inl (JsonError SyntaxError)
      | JsonText JNull \<Rightarrow> Inr x
      | JsonText (JObj ms) \<Rightarrow>
          (case decode_members fs ms None x of Inl e \<Rightarrow> Inl (JsonError e) | Inr y \<Rightarrow> Inr y)
      | JsonText _ \<Rightarrow> Inl (JsonError UnmarshalTypeError))"

section \<open>Marshal of a struct\<close>

definition int64_member :: "string \<Rightarrow> int64 \<Rightarrow> (string \<times> json) list" where
  "int64_member key v = [(key, JInt (sint v))]"

definition string_member :: "string \<Rightarrow> string \<Rightarrow> (string \<times> json) list" where
  "string_member key v = [(key, JStr v)]"

definition string_member_omitempty :: "string \<Rightarrow> string \<Rightarrow> (string \<times> json) list" where
  "string_member_omitempty key v = (if v = [] then [] else [(key, JStr v)])"

text \<open>Decoding what was encoded: one lemma per kind of member.\<close>

lemma decode_int64_member:
  "find_field fs key = Some (int64_field set_field) \<Longrightarrow>
   decode_members fs (int64_member key v @ ms) err x = decode_members fs ms err (set_field v x)"
  using sint64_ge [of v] sint64_lt [of v] by (simp add: int64_member_def int64_field_def)

lemma decode_string_member:
  "find_field fs key = Some (string_field set_field) \<Longrightarrow>
   decode_members fs (string_member key v @ ms) err x = decode_members fs ms err (set_field v x)"
  by (simp add: string_member_def string_field_def)

lemma decode_string_member_omitempty:
  "find_field fs key = Some (string_field set_field) \<Longrightarrow> set_field [] x = x \<Longrightarrow>
   decode_members fs (string_member_omitempty key v) err x = decode_members fs [] err (set_field v x)"
  by (auto simp: string_member_omitempty_def string_field_def split: option.splits)

lemma decode_int64_member_last:
  "find_field fs key = Some (int64_field set_field) \<Longrightarrow>
   decode_members fs (int64_member key v) err x = decode_members fs [] err (set_field v x)"
  using decode_int64_member [of fs key set_field v "[]"] by simp

lemmas decode_member = decode_int64_member decode_int64_member_last decode_string_member
  decode_string_member_omitempty

end
