(* ===== verification/Events.thy ===== *)
theory Events imports Json begin

text \<open>
  \<open>internal/ledger/events.go\<close>: the two aggregate types, the six event types and the structs
  of their JSON payloads, with \<open>mustMarshal\<close> of \<open>internal/ledger/service.go\<close> and the
  \<open>json.Unmarshal\<close> calls on each struct.
\<close>

definition AggregateTypeAccount :: string where
  "AggregateTypeAccount = ''account''"

definition AggregateTypeInventoryItem :: string where
  "AggregateTypeInventoryItem = ''inventory_item''"

definition EventAccountOpened :: string where "EventAccountOpened = ''AccountOpened''"
definition EventFundsDeposited :: string where "EventFundsDeposited = ''FundsDeposited''"
definition EventFundsWithdrawn :: string where "EventFundsWithdrawn = ''FundsWithdrawn''"
definition EventInventoryAdjusted :: string where "EventInventoryAdjusted = ''InventoryAdjusted''"
definition EventStockReserved :: string where "EventStockReserved = ''StockReserved''"
definition EventStockReleased :: string where "EventStockReleased = ''StockReleased''"

lemmas event_type_defs =
  EventAccountOpened_def EventFundsDeposited_def EventFundsWithdrawn_def
  EventInventoryAdjusted_def EventStockReserved_def EventStockReleased_def

lemma event_types_distinct [simp]:
  "EventAccountOpened \<noteq> EventFundsDeposited" "EventAccountOpened \<noteq> EventFundsWithdrawn"
  "EventFundsDeposited \<noteq> EventFundsWithdrawn" "EventFundsDeposited \<noteq> EventAccountOpened"
  "EventFundsWithdrawn \<noteq> EventAccountOpened" "EventFundsWithdrawn \<noteq> EventFundsDeposited"
  "EventInventoryAdjusted \<noteq> EventStockReserved" "EventInventoryAdjusted \<noteq> EventStockReleased"
  "EventStockReserved \<noteq> EventStockReleased" "EventStockReserved \<noteq> EventInventoryAdjusted"
  "EventStockReleased \<noteq> EventInventoryAdjusted" "EventStockReleased \<noteq> EventStockReserved"
  by (simp_all add: event_type_defs)

lemma aggregate_types_distinct [simp]:
  "AggregateTypeAccount \<noteq> AggregateTypeInventoryItem"
  "AggregateTypeInventoryItem \<noteq> AggregateTypeAccount"
  by (simp_all add: AggregateTypeAccount_def AggregateTypeInventoryItem_def)

section \<open>The payload structs\<close>

record AccountOpened =
  AccountID :: string
  InitialBalanceCents :: int64

record FundsDeposited =
  AccountID :: string
  AmountCents :: int64
  Reason :: string

record FundsWithdrawn =
  AccountID :: string
  AmountCents :: int64
  Reason :: string

record InventoryAdjusted =
  ItemID :: string
  DeltaQuantity :: int64
  Reason :: string

record StockReserved =
  ItemID :: string
  Quantity :: int64
  OrderID :: string

record StockReleased =
  ItemID :: string
  Quantity :: int64
  OrderID :: string

section \<open>mustMarshal\<close>

text \<open>
  Every payload is a struct of strings and int64 fields, for which \<open>json.Marshal\<close> never
  fails: \<open>mustMarshal\<close> never panics.
\<close>

definition marshal_AccountOpened :: "AccountOpened \<Rightarrow> payload" where
  "marshal_AccountOpened v = JsonText (JObj
     (string_member ''account_id'' (AccountOpened.AccountID v) @
      int64_member ''initial_balance_cents'' (InitialBalanceCents v)))"

definition marshal_FundsDeposited :: "FundsDeposited \<Rightarrow> payload" where
  "marshal_FundsDeposited v = JsonText (JObj
     (string_member ''account_id'' (FundsDeposited.AccountID v) @
      int64_member ''amount_cents'' (FundsDeposited.AmountCents v) @
      string_member_omitempty ''reason'' (FundsDeposited.Reason v)))"

definition marshal_FundsWithdrawn :: "FundsWithdrawn \<Rightarrow> payload" where
  "marshal_FundsWithdrawn v = JsonText (JObj
     (string_member ''account_id'' (FundsWithdrawn.AccountID v) @
      int64_member ''amount_cents'' (FundsWithdrawn.AmountCents v) @
      string_member_omitempty ''reason'' (FundsWithdrawn.Reason v)))"

definition marshal_InventoryAdjusted :: "InventoryAdjusted \<Rightarrow> payload" where
  "marshal_InventoryAdjusted v = JsonText (JObj
     (string_member ''item_id'' (InventoryAdjusted.ItemID v) @
      int64_member ''delta_quantity'' (DeltaQuantity v) @
      string_member_omitempty ''reason'' (InventoryAdjusted.Reason v)))"

definition marshal_StockReserved :: "StockReserved \<Rightarrow> payload" where
  "marshal_StockReserved v = JsonText (JObj
     (string_member ''item_id'' (StockReserved.ItemID v) @
      int64_member ''quantity'' (StockReserved.Quantity v) @
      string_member_omitempty ''order_id'' (StockReserved.OrderID v)))"

definition marshal_StockReleased :: "StockReleased \<Rightarrow> payload" where
  "marshal_StockReleased v = JsonText (JObj
     (string_member ''item_id'' (StockReleased.ItemID v) @
      int64_member ''quantity'' (StockReleased.Quantity v) @
      string_member_omitempty ''order_id'' (StockReleased.OrderID v)))"

section \<open>json.Unmarshal into each struct\<close>

text \<open>\<open>var payload T; json.Unmarshal(data, &payload)\<close> starts from the zero value of \<open>T\<close>.\<close>

definition unmarshal_AccountOpened :: "payload \<Rightarrow> error + AccountOpened" where
  "unmarshal_AccountOpened data = Unmarshal
     [(''account_id'', string_field (\<lambda>s v. v\<lparr>AccountOpened.AccountID := s\<rparr>)),
      (''initial_balance_cents'', int64_field (\<lambda>i v. v\<lparr>InitialBalanceCents := i\<rparr>))]
     data \<lparr>AccountOpened.AccountID = [], InitialBalanceCents = 0\<rparr>"

definition unmarshal_FundsDeposited :: "payload \<Rightarrow> error + FundsDeposited" where
  "unmarshal_FundsDeposited data = Unmarshal
     [(''account_id'', string_field (\<lambda>s v. v\<lparr>FundsDeposited.AccountID := s\<rparr>)),
      (''amount_cents'', int64_field (\<lambda>i v. v\<lparr>FundsDeposited.AmountCents := i\<rparr>)),
      (''reason'', string_field (\<lambda>s v. v\<lparr>FundsDeposited.Reason := s\<rparr>))]
     data \<lparr>FundsDeposited.AccountID = [], AmountCents = 0, Reason = []\<rparr>"

definition unmarshal_FundsWithdrawn :: "payload \<Rightarrow> error + FundsWithdrawn" where
  "unmarshal_FundsWithdrawn data = Unmarshal
     [(''account_id'', string_field (\<lambda>s v. v\<lparr>FundsWithdrawn.AccountID := s\<rparr>)),
      (''amount_cents'', int64_field (\<lambda>i v. v\<lparr>FundsWithdrawn.AmountCents := i\<rparr>)),
      (''reason'', string_field (\<lambda>s v. v\<lparr>FundsWithdrawn.Reason := s\<rparr>))]
     data \<lparr>FundsWithdrawn.AccountID = [], AmountCents = 0, Reason = []\<rparr>"

definition unmarshal_InventoryAdjusted :: "payload \<Rightarrow> error + InventoryAdjusted" where
  "unmarshal_InventoryAdjusted data = Unmarshal
     [(''item_id'', string_field (\<lambda>s v. v\<lparr>InventoryAdjusted.ItemID := s\<rparr>)),
      (''delta_quantity'', int64_field (\<lambda>i v. v\<lparr>DeltaQuantity := i\<rparr>)),
      (''reason'', string_field (\<lambda>s v. v\<lparr>InventoryAdjusted.Reason := s\<rparr>))]
     data \<lparr>InventoryAdjusted.ItemID = [], DeltaQuantity = 0, Reason = []\<rparr>"

definition unmarshal_StockReserved :: "payload \<Rightarrow> error + StockReserved" where
  "unmarshal_StockReserved data = Unmarshal
     [(''item_id'', string_field (\<lambda>s v. v\<lparr>StockReserved.ItemID := s\<rparr>)),
      (''quantity'', int64_field (\<lambda>i v. v\<lparr>StockReserved.Quantity := i\<rparr>)),
      (''order_id'', string_field (\<lambda>s v. v\<lparr>StockReserved.OrderID := s\<rparr>))]
     data \<lparr>StockReserved.ItemID = [], Quantity = 0, OrderID = []\<rparr>"

definition unmarshal_StockReleased :: "payload \<Rightarrow> error + StockReleased" where
  "unmarshal_StockReleased data = Unmarshal
     [(''item_id'', string_field (\<lambda>s v. v\<lparr>StockReleased.ItemID := s\<rparr>)),
      (''quantity'', int64_field (\<lambda>i v. v\<lparr>StockReleased.Quantity := i\<rparr>)),
      (''order_id'', string_field (\<lambda>s v. v\<lparr>StockReleased.OrderID := s\<rparr>))]
     data \<lparr>StockReleased.ItemID = [], Quantity = 0, OrderID = []\<rparr>"

lemmas marshal_defs =
  marshal_AccountOpened_def marshal_FundsDeposited_def marshal_FundsWithdrawn_def
  marshal_InventoryAdjusted_def marshal_StockReserved_def marshal_StockReleased_def

lemmas unmarshal_defs =
  unmarshal_AccountOpened_def unmarshal_FundsDeposited_def unmarshal_FundsWithdrawn_def
  unmarshal_InventoryAdjusted_def unmarshal_StockReserved_def unmarshal_StockReleased_def

text \<open>Decoding a marshalled payload gives the struct back.\<close>

lemma find_field_key [simp]:
  "find_field ((k, st) # fs) key = (if map ascii_lower key = k then Some st else find_field fs key)"
  by (simp add: find_field_def)

lemma unmarshal_marshal [simp]:
  "unmarshal_AccountOpened (marshal_AccountOpened a) = Inr a"
  "unmarshal_FundsDeposited (marshal_FundsDeposited d) = Inr d"
  "unmarshal_FundsWithdrawn (marshal_FundsWithdrawn w) = Inr w"
  "unmarshal_InventoryAdjusted (marshal_InventoryAdjusted i) = Inr i"
  "unmarshal_StockReserved (marshal_StockReserved r) = Inr r"
  "unmarshal_StockReleased (marshal_StockReleased l) = Inr l"
  by (simp_all add: marshal_defs unmarshal_defs Unmarshal_def decode_member ascii_lower_def)

end
