(* ===== verification/EventStore.thy ===== *)
theory EventStore imports Events begin

text \<open>
  \<open>internal/eventstore/eventstore.go\<close>: the event log's data and the \<open>Store\<close> interface.
  The interface is a record of functions over the implementation's state; what its comments
  promise is the locale \<open>event_store\<close>, over the abstract content of a store: the log of its
  events in global order, and the batch recorded for each dedupe key.
\<close>

section \<open>Data\<close>

text \<open>A \<open>time.Time\<close> is the number of nanoseconds since the Unix epoch.\<close>

type_synonym time = int

definition NoVersionCheck :: int64 where "NoVersionCheck = -1"
definition StreamDoesNotExist :: int64 where "StreamDoesNotExist = 0"

record Metadata =
  DedupeKey :: string
  CorrelationID :: string

record AppendEvent =
  AggregateType :: string
  AggregateID :: string
  EventType :: string
  Payload :: payload
  ExpectedVersion :: int64

record Event =
  GlobalSeq :: int64
  AggregateType :: string
  AggregateID :: string
  Version :: int64
  EventType :: string
  Payload :: payload
  Metadata :: Metadata
  CreatedAt :: time

text \<open>
  The methods of \<open>Store\<close>.  Those that only read leave the implementation's state alone.
\<close>

record 's Store =
  Append :: "string \<Rightarrow> AppendEvent list \<Rightarrow> 's \<Rightarrow> (error + Event list \<times> bool) \<times> 's"
  LoadStream :: "string \<Rightarrow> string \<Rightarrow> 's \<Rightarrow> error + Event list"
  LoadSince :: "int64 \<Rightarrow> int64 \<Rightarrow> 's \<Rightarrow> error + Event list"
  LatestGlobalSeq :: "'s \<Rightarrow> error + int64"
  LookupDedupe :: "string \<Rightarrow> 's \<Rightarrow> error + Event list \<times> bool"

section \<open>Streams of a log\<close>

type_synonym stream_key = "string \<times> string"

definition event_key :: "Event \<Rightarrow> stream_key" where
  "event_key e = (Event.AggregateType e, Event.AggregateID e)"

definition append_key :: "AppendEvent \<Rightarrow> stream_key" where
  "append_key a = (AppendEvent.AggregateType a, AppendEvent.AggregateID a)"

definition stream_events :: "Event list \<Rightarrow> stream_key \<Rightarrow> Event list" where
  "stream_events L k = filter (\<lambda>e. event_key e = k) L"

definition stream_version :: "Event list \<Rightarrow> stream_key \<Rightarrow> int64" where
  "stream_version L k = word_of_nat (length (stream_events L k))"

lemma stream_events_Nil [simp]: "stream_events [] k = []"
  by (simp add: stream_events_def)

lemma stream_events_append [simp]:
  "stream_events (L @ M) k = stream_events L k @ stream_events M k"
  by (simp add: stream_events_def)

lemma stream_events_Cons [simp]:
  "stream_events (e # L) k = (if event_key e = k then e # stream_events L k else stream_events L k)"
  by (simp add: stream_events_def)

lemma length_stream_events: "length (stream_events L k) \<le> length L"
  by (simp add: stream_events_def)

lemma stream_version_Nil [simp]: "stream_version [] k = 0"
  by (simp add: stream_version_def)

lemma stream_version_snoc:
  "stream_version (L @ [e]) = (stream_version L)(event_key e := stream_version L (event_key e) + 1)"
  by (auto simp: stream_version_def fun_eq_iff)

lemma stream_events_prefix: "prefix L M \<Longrightarrow> prefix (stream_events L k) (stream_events M k)"
  by (auto simp: prefix_def)

lemma set_stream_events: "e \<in> set (stream_events L k) \<longleftrightarrow> e \<in> set L \<and> event_key e = k"
  by (auto simp: stream_events_def)

section \<open>What Append promises\<close>

text \<open>
  The expected versions of a batch are checked against the versions the batch itself
  produces: a second event of the same stream expects the version after the first.
\<close>

fun versions_match :: "(stream_key \<Rightarrow> int64) \<Rightarrow> AppendEvent list \<Rightarrow> bool" where
  "versions_match cur [] \<longleftrightarrow> True"
| "versions_match cur (a # as) \<longleftrightarrow>
     (ExpectedVersion a = NoVersionCheck \<or> ExpectedVersion a = cur (append_key a)) \<and>
     versions_match (cur(append_key a := cur (append_key a) + 1)) as"

text \<open>
  \<open>recorded_as key L as es\<close>: the events \<open>es\<close> record the batch \<open>as\<close> of a command with dedupe
  key \<open>key\<close> on top of the log \<open>L\<close>: same streams, types and payloads, the next version of
  each stream, and global sequence numbers above every earlier one.
\<close>

definition records :: "string \<Rightarrow> Event list \<Rightarrow> AppendEvent \<Rightarrow> Event \<Rightarrow> bool" where
  "records key L a e \<longleftrightarrow>
     event_key e = append_key a \<and> Event.EventType e = AppendEvent.EventType a \<and>
     Event.Payload e = AppendEvent.Payload a \<and> DedupeKey (Metadata e) = key \<and>
     Version e = stream_version L (append_key a) + 1 \<and>
     0 < sint (GlobalSeq e) \<and> (\<forall>x\<in>set L. sint (GlobalSeq x) < sint (GlobalSeq e))"

fun recorded_as :: "string \<Rightarrow> Event list \<Rightarrow> AppendEvent list \<Rightarrow> Event list \<Rightarrow> bool" where
  "recorded_as key L [] es \<longleftrightarrow> es = []"
| "recorded_as key L (a # as) [] \<longleftrightarrow> False"
| "recorded_as key L (a # as) (e # es) \<longleftrightarrow> records key L a e \<and> recorded_as key (L @ [e]) as es"

lemma recorded_as_length: "recorded_as key L as es \<Longrightarrow> length es = length as"
  by (induction key L as es rule: recorded_as.induct) auto

lemma recorded_as_key: "recorded_as key L as es \<Longrightarrow> e \<in> set es \<Longrightarrow> DedupeKey (Metadata e) = key"
  by (induction key L as es rule: recorded_as.induct) (auto simp: records_def)

text \<open>
  A well-formed log: global sequence numbers are positive and strictly increasing, and the
  versions of every stream are 1, 2, 3, \<open>\<dots>\<close>.  \<open>log_capacity\<close> is the number of events an
  \<open>int64\<close> can number.
\<close>

definition log_capacity :: nat where
  "log_capacity = 2 ^ 63 - 1"

definition log_wf :: "Event list \<Rightarrow> bool" where
  "log_wf L \<longleftrightarrow>
     length L \<le> log_capacity \<and>
     sorted_wrt (<) (map (\<lambda>e. sint (GlobalSeq e)) L) \<and>
     (\<forall>e\<in>set L. 0 < sint (GlobalSeq e)) \<and>
     (\<forall>k. map Version (stream_events L k)
          = map word_of_nat [1..<Suc (length (stream_events L k))])"

lemma log_wf_Nil [simp]: "log_wf []"
  by (simp add: log_wf_def log_capacity_def)

lemma log_wf_capacity: "log_wf L \<Longrightarrow> length L < 2 ^ 63"
  by (simp add: log_wf_def log_capacity_def)

lemma log_wf_snoc:
  assumes "log_wf L" and "records key L a e" and "length L < log_capacity"
  shows "log_wf (L @ [e])"
  using assms unfolding log_wf_def records_def
  by (auto simp: sorted_wrt_append stream_version_def)

lemma log_wf_append:
  "log_wf L \<Longrightarrow> recorded_as key L as es \<Longrightarrow> length L + length as \<le> log_capacity \<Longrightarrow> log_wf (L @ es)"
proof (induction key L as es rule: recorded_as.induct)
  case (3 key L a as e es)
  from "3.prems" have "log_wf (L @ [e])"
    by (intro log_wf_snoc [of L key a e]) auto
  with "3.prems" "3.IH" show ?case by auto
qed auto

lemma log_wf_prefix: "log_wf (L @ M) \<Longrightarrow> log_wf L"
proof -
  assume wf: "log_wf (L @ M)"
  have "map Version (stream_events L k) = map word_of_nat [1..<Suc (length (stream_events L k))]" for k
  proof -
    have "map Version (stream_events (L @ M) k)
        = map word_of_nat [1..<Suc (length (stream_events (L @ M) k))]"
      using wf unfolding log_wf_def by blast
    then have "take (length (stream_events L k)) (map Version (stream_events (L @ M) k))
        = take (length (stream_events L k)) (map word_of_nat [1..<Suc (length (stream_events (L @ M) k))])"
      by (simp only:)
    then show ?thesis by (simp add: take_map take_upt del: upt_Suc)
  qed
  with wf show ?thesis by (auto simp: log_wf_def sorted_wrt_append)
qed

lemma stream_version_sint:
  "log_wf L \<Longrightarrow> sint (stream_version L k) = int (length (stream_events L k))"
  using length_stream_events [of L k] log_wf_capacity [of L]
  by (simp add: stream_version_def sint_word_of_nat)

lemma last_version:
  assumes "log_wf L"
  shows "(if stream_events L k = [] then 0 else Version (last (stream_events L k))) = stream_version L k"
proof (cases "stream_events L k" rule: rev_cases)
  case (snoc es e)
  from assms have "map Version (stream_events L k) = map word_of_nat [1..<Suc (length (stream_events L k))]"
    unfolding log_wf_def by blast
  with snoc show ?thesis by (simp add: stream_version_def)
qed (simp add: stream_version_def)

text \<open>A version pins a stream's content: streams only grow.\<close>

lemma same_version_same_stream:
  assumes "prefix L M" and "log_wf L" and "log_wf M" and "stream_version L k = stream_version M k"
  shows "stream_events L k = stream_events M k"
proof -
  from assms(2-4) have "length (stream_events L k) = length (stream_events M k)"
    using stream_version_sint by (metis of_nat_eq_iff)
  with stream_events_prefix [OF assms(1)] show ?thesis
    by (metis append_eq_conv_conj prefix_def take_all order_refl)
qed

section \<open>The contract of Store\<close>

text \<open>
  What \<open>LoadSince\<close> returns: the events after a global sequence number, at most \<open>limit\<close> of
  them when \<open>limit\<close> is positive.
\<close>

definition events_since :: "int64 \<Rightarrow> int64 \<Rightarrow> Event list \<Rightarrow> Event list" where
  "events_since after limit L =
     (let es = filter (\<lambda>e. after <s GlobalSeq e) L
      in if 0 <s limit then take (nat (sint limit)) es else es)"

text \<open>
  The reading side alone.  A store need not take every string as a key (\<open>text_ok\<close>).
\<close>

locale event_log =
  fixes S :: "'s Store"
    and log :: "'s \<Rightarrow> Event list"
    and inv :: "'s \<Rightarrow> bool"
    and text_ok :: "string \<Rightarrow> bool"
  assumes inv_log: "inv s \<Longrightarrow> log_wf (log s)"
    and load_stream: "inv s \<Longrightarrow> text_ok ty \<Longrightarrow> text_ok aid \<Longrightarrow>
      LoadStream S ty aid s = Inr (stream_events (log s) (ty, aid))"
    and load_since: "inv s \<Longrightarrow> LoadSince S after limit s = Inr (events_since after limit (log s))"
    and latest: "inv s \<Longrightarrow>
      LatestGlobalSeq S s = Inr (if log s = [] then 0 else GlobalSeq (last (log s)))"

text \<open>
  A store that keeps the events in a form of its own (\<open>stored\<close>: the payload as the database
  gives it back) and takes a batch only when it has room for it and can represent it
  (\<open>accepts\<close>).
\<close>

locale durable_store = event_log S log inv text_ok
  for S :: "'s Store" and log and inv and text_ok +
  fixes seen :: "'s \<Rightarrow> string \<rightharpoonup> Event list"
    and stored :: "Event \<Rightarrow> Event"
    and accepts :: "string \<Rightarrow> AppendEvent list \<Rightarrow> 's \<Rightarrow> bool"
  assumes stored_payload: "\<exists>p. stored e = e\<lparr>Event.Payload := p\<rparr>"
    and seen_log: "inv s \<Longrightarrow> key \<noteq> [] \<Longrightarrow>
      filter (\<lambda>e. DedupeKey (Metadata e) = key) (log s) = (case seen s key of None \<Rightarrow> [] | Some es \<Rightarrow> es)"
    and lookup: "inv s \<Longrightarrow> text_ok key \<Longrightarrow> LookupDedupe S key s
      = Inr (case (if key = [] then None else seen s key) of None \<Rightarrow> ([], False) | Some es \<Rightarrow> (es, True))"
    and append_duplicate: "inv s \<Longrightarrow> text_ok key \<Longrightarrow> key \<noteq> [] \<Longrightarrow> seen s key = Some es \<Longrightarrow>
      Append S key as s = (r, s') \<Longrightarrow>
      r = Inr (es, True) \<and> log s' = log s \<and> seen s' = seen s \<and> inv s'"
    and append_conflict: "inv s \<Longrightarrow> key = [] \<or> seen s key = None \<Longrightarrow> accepts key as s \<Longrightarrow>
      \<not> versions_match (stream_version (log s)) as \<Longrightarrow> Append S key as s = (r, s') \<Longrightarrow>
      r = Inl ErrVersionConflict \<and> log s' = log s \<and> seen s' = seen s \<and> inv s'"
    and append_fresh: "inv s \<Longrightarrow> key = [] \<or> seen s key = None \<Longrightarrow> accepts key as s \<Longrightarrow>
      versions_match (stream_version (log s)) as \<Longrightarrow> Append S key as s = (r, s') \<Longrightarrow>
      \<exists>es. r = Inr (es, False) \<and> recorded_as key (log s) as es \<and> log s' = log s @ map stored es \<and>
           seen s' = (if key = [] then seen s else (seen s)(key \<mapsto> map stored es)) \<and> inv s'"

text \<open>The contract in full, which a store in memory keeps: every string, and events as they are.\<close>

locale event_store =
  fixes S :: "'s Store"
    and log :: "'s \<Rightarrow> Event list"
    and seen :: "'s \<Rightarrow> string \<rightharpoonup> Event list"
    and inv :: "'s \<Rightarrow> bool"
  assumes inv_log: "inv s \<Longrightarrow> log_wf (log s)"
    and seen_log: "inv s \<Longrightarrow> key \<noteq> [] \<Longrightarrow>
      filter (\<lambda>e. DedupeKey (Metadata e) = key) (log s) = (case seen s key of None \<Rightarrow> [] | Some es \<Rightarrow> es)"
    and load_stream: "inv s \<Longrightarrow> LoadStream S ty aid s = Inr (stream_events (log s) (ty, aid))"
    and load_since: "inv s \<Longrightarrow> LoadSince S after limit s = Inr (events_since after limit (log s))"
    and latest: "inv s \<Longrightarrow>
      LatestGlobalSeq S s = Inr (if log s = [] then 0 else GlobalSeq (last (log s)))"
    and lookup: "inv s \<Longrightarrow> LookupDedupe S key s
      = Inr (case (if key = [] then None else seen s key) of None \<Rightarrow> ([], False) | Some es \<Rightarrow> (es, True))"
    and append_duplicate: "inv s \<Longrightarrow> key \<noteq> [] \<Longrightarrow> seen s key = Some es \<Longrightarrow>
      Append S key as s = (r, s') \<Longrightarrow>
      r = Inr (es, True) \<and> log s' = log s \<and> seen s' = seen s \<and> inv s'"
    and append_conflict: "inv s \<Longrightarrow> key = [] \<or> seen s key = None \<Longrightarrow>
      \<not> versions_match (stream_version (log s)) as \<Longrightarrow> Append S key as s = (r, s') \<Longrightarrow>
      r = Inl ErrVersionConflict \<and> log s' = log s \<and> seen s' = seen s \<and> inv s'"
    and append_fresh: "inv s \<Longrightarrow> key = [] \<or> seen s key = None \<Longrightarrow>
      versions_match (stream_version (log s)) as \<Longrightarrow>
      length (log s) + length as \<le> log_capacity \<Longrightarrow> Append S key as s = (r, s') \<Longrightarrow>
      \<exists>es. r = Inr (es, False) \<and> recorded_as key (log s) as es \<and> log s' = log s @ es \<and>
           seen s' = (if key = [] then seen s else (seen s)(key \<mapsto> es)) \<and> inv s'"
begin

text \<open>The three outcomes of \<open>Append\<close>, as one case rule.\<close>

lemma append_cases:
  assumes "inv s" and "length (log s) + length as \<le> log_capacity" and "Append S key as s = (r, s')"
  obtains
    (duplicate) es where "key \<noteq> []" "seen s key = Some es" "r = Inr (es, True)"
      "log s' = log s" "seen s' = seen s" "inv s'"
  | (conflict) "key = [] \<or> seen s key = None" "\<not> versions_match (stream_version (log s)) as"
      "r = Inl ErrVersionConflict" "log s' = log s" "seen s' = seen s" "inv s'"
  | (fresh) es where "key = [] \<or> seen s key = None" "versions_match (stream_version (log s)) as"
      "r = Inr (es, False)" "recorded_as key (log s) as es" "log s' = log s @ es"
      "seen s' = (if key = [] then seen s else (seen s)(key \<mapsto> es))" "inv s'"
proof (cases "key \<noteq> [] \<and> seen s key \<noteq> None")
  case True
  then obtain es where "key \<noteq> []" "seen s key = Some es" by auto
  with append_duplicate [OF assms(1) this assms(3)] show thesis by (intro duplicate) auto
next
  case False
  then have fresh_key: "key = [] \<or> seen s key = None" by auto
  show thesis
  proof (cases "versions_match (stream_version (log s)) as")
    case True
    with append_fresh [OF assms(1) fresh_key True assms(2,3)] fresh_key show thesis
      by (auto intro: fresh)
  next
    case False
    with append_conflict [OF assms(1) fresh_key False assms(3)] fresh_key show thesis
      by (intro conflict) auto
  qed
qed

end

sublocale event_store \<subseteq> durable: durable_store S log inv "\<lambda>_. True" seen "\<lambda>e. e"
  "\<lambda>key as s. length (log s) + length as \<le> log_capacity"
proof (unfold_locales, goal_cases)
  case (5 e)
  show ?case by (intro exI [of _ "Event.Payload e"]) simp
next
  case (8 s key es as r s')
  then show ?case using append_duplicate by blast
next
  case (9 s key as r s')
  then show ?case using append_conflict by blast
next
  case (10 s key as r s')
  then show ?case using append_fresh [OF 10(1,2,4,3,5)] by (simp only: list.map_ident)
qed (simp_all add: inv_log load_stream load_since latest seen_log lookup)

end
