(* ===== verification/ReadModel.thy ===== *)
theory ReadModel imports EventStore begin

text \<open>
  \<open>internal/projections/projections.go\<close> and \<open>internal/projections/memory/store.go\<close>: the
  materialised views, the \<open>ReadModelStore\<close> interface and its in-memory implementation, whose
  one mutex is part of the state: an operation that would wait for a mutex that its own
  goroutine holds never returns.
\<close>

section \<open>Actions\<close>

text \<open>What a projector reports through its \<open>Metrics\<close> hook.\<close>

datatype metric =
    EventApplied string string
  | DuplicateSkipped string
  | LagReported string int64

text \<open>
  An action of the read side on the store's state: \<open>None\<close> when it never returns, otherwise its
  result, the metrics it reported, and the new state.
\<close>

type_synonym ('s, 'a) act = "'s \<Rightarrow> ((error + 'a) \<times> metric list \<times> 's) option"

definition ret :: "'a \<Rightarrow> ('s, 'a) act" where
  "ret x s = Some (Inr x, [], s)"

definition fail :: "error \<Rightarrow> ('s, 'a) act" where
  "fail err s = Some (Inl err, [], s)"

definition report :: "metric \<Rightarrow> ('s, unit) act" where
  "report m s = Some (Inr (), [m], s)"

text \<open>\<open>x, err := m; if err != nil { return err }; f(x)\<close>.\<close>

definition and_then :: "('s, 'a) act \<Rightarrow> ('a \<Rightarrow> ('s, 'b) act) \<Rightarrow> ('s, 'b) act" where
  "and_then m f s =
     (case m s of
        None \<Rightarrow> None
      | Some (Inl err, ms, s') \<Rightarrow> Some (Inl err, ms, s')
      | Some (Inr x, ms, s') \<Rightarrow>
          (case f x s' of None \<Rightarrow> None | Some (r, ms', s'') \<Rightarrow> Some (r, ms @ ms', s'')))"

lemma and_then_simps [simp]:
  "and_then (ret x) f = f x" "and_then (fail err) f = fail err"
  by (auto simp: and_then_def ret_def fail_def fun_eq_iff split: option.splits)

lemma and_then_Some:
  "m s = Some (Inr x, ms, s') \<Longrightarrow> f x s' = Some (r, ms', s'') \<Longrightarrow> and_then m f s = Some (r, ms @ ms', s'')"
  by (simp add: and_then_def)

lemma and_then_fail: "m s = Some (Inl err, ms, s') \<Longrightarrow> and_then m f s = Some (Inl err, ms, s')"
  by (simp add: and_then_def)

section \<open>Views\<close>

record AccountView =
  AccountID :: string
  BalanceCents :: int64
  Version :: int64
  UpdatedAt :: time

record InventoryView =
  ItemID :: string
  AvailableQuantity :: int64
  ReservedQuantity :: int64
  Version :: int64
  UpdatedAt :: time

text \<open>
  Go's zero \<open>time.Time\<close> is January 1 of the year 1, 62135596800 seconds before the Unix epoch.
\<close>

definition zero_time :: time where
  "zero_time = - 62135596800 * 10 ^ 9"

definition zero_AccountView :: AccountView where
  "zero_AccountView = \<lparr>AccountView.AccountID = [], BalanceCents = 0, Version = 0, UpdatedAt = zero_time\<rparr>"

definition zero_InventoryView :: InventoryView where
  "zero_InventoryView =
     \<lparr>InventoryView.ItemID = [], AvailableQuantity = 0, ReservedQuantity = 0, Version = 0, UpdatedAt = zero_time\<rparr>"

text \<open>The \<open>ReadModelStore\<close> interface, with the context a value of type \<open>'c\<close>.\<close>

record ('c, 's) ReadModelStore =
  GetAccount :: "'c \<Rightarrow> string \<Rightarrow> ('s, AccountView \<times> bool) act"
  UpsertAccount :: "'c \<Rightarrow> AccountView \<Rightarrow> ('s, unit) act"
  GetInventory :: "'c \<Rightarrow> string \<Rightarrow> ('s, InventoryView \<times> bool) act"
  UpsertInventory :: "'c \<Rightarrow> InventoryView \<Rightarrow> ('s, unit) act"
  GetCheckpoint :: "'c \<Rightarrow> string \<Rightarrow> ('s, int64) act"
  SetCheckpoint :: "'c \<Rightarrow> string \<Rightarrow> int64 \<Rightarrow> ('s, unit) act"
  WithTx :: "'c \<Rightarrow> ('c \<Rightarrow> ('s, bool) act) \<Rightarrow> ('s, bool) act"

section \<open>The contract of ReadModelStore\<close>

record views =
  accounts :: "string \<rightharpoonup> AccountView"
  inventory :: "string \<rightharpoonup> InventoryView"
  checkpoints :: "string \<rightharpoonup> int64"

text \<open>
  \<open>usable c s\<close>: operations with context \<open>c\<close> go through; \<open>outside c s\<close>: moreover no transaction
  is open.  What an error
  inside a transaction leaves of what was done before it is up to the store: the in-memory one
  keeps it, a database undoes it.  A store
  may round the time stamps it keeps (\<open>stamp\<close>) and need not take every key and every time
  (\<open>ok_id\<close>, \<open>ok_time\<close>).
\<close>

definition stamp_account :: "(time \<Rightarrow> time) \<Rightarrow> AccountView \<Rightarrow> AccountView" where
  "stamp_account stamp v = v\<lparr>AccountView.UpdatedAt := stamp (AccountView.UpdatedAt v)\<rparr>"

definition stamp_inventory :: "(time \<Rightarrow> time) \<Rightarrow> InventoryView \<Rightarrow> InventoryView" where
  "stamp_inventory stamp v = v\<lparr>InventoryView.UpdatedAt := stamp (InventoryView.UpdatedAt v)\<rparr>"

lemma stamp_id [simp]: "stamp_account (\<lambda>t. t) = (\<lambda>v. v)" "stamp_inventory (\<lambda>t. t) = (\<lambda>w. w)"
  by (simp_all add: fun_eq_iff stamp_account_def stamp_inventory_def)

lemma stamp_simps [simp]:
  "AccountView.AccountID (stamp_account f v) = AccountView.AccountID v"
  "AccountView.BalanceCents (stamp_account f v) = AccountView.BalanceCents v"
  "AccountView.Version (stamp_account f v) = AccountView.Version v"
  "InventoryView.ItemID (stamp_inventory f w) = InventoryView.ItemID w"
  "InventoryView.AvailableQuantity (stamp_inventory f w) = InventoryView.AvailableQuantity w"
  "InventoryView.ReservedQuantity (stamp_inventory f w) = InventoryView.ReservedQuantity w"
  "InventoryView.Version (stamp_inventory f w) = InventoryView.Version w"
  by (simp_all add: stamp_account_def stamp_inventory_def)

locale read_model =
  fixes R :: "('c, 's) ReadModelStore"
    and views :: "'s \<Rightarrow> views"
    and usable :: "'c \<Rightarrow> 's \<Rightarrow> bool"
    and outside :: "'c \<Rightarrow> 's \<Rightarrow> bool"
    and stamp :: "time \<Rightarrow> time"
    and ok_id :: "string \<Rightarrow> bool"
    and ok_time :: "time \<Rightarrow> bool"
  assumes outside_usable: "outside c s \<Longrightarrow> usable c s"
    and get_account: "usable c s \<Longrightarrow> ok_id i \<Longrightarrow>
      GetAccount R c i s = Some (Inr (case accounts (views s) i of
        None \<Rightarrow> (zero_AccountView, False) | Some v \<Rightarrow> (v, True)), [], s)"
    and upsert_account: "usable c s \<Longrightarrow> ok_id (AccountView.AccountID av) \<Longrightarrow> ok_time (AccountView.UpdatedAt av) \<Longrightarrow>
      \<exists>s'. UpsertAccount R c av s = Some (Inr (), [], s') \<and> usable c s' \<and>
      views s' = (views s)\<lparr>accounts := (accounts (views s))(AccountView.AccountID av \<mapsto> stamp_account stamp av)\<rparr>"
    and get_inventory: "usable c s \<Longrightarrow> ok_id i \<Longrightarrow>
      GetInventory R c i s = Some (Inr (case inventory (views s) i of
        None \<Rightarrow> (zero_InventoryView, False) | Some v \<Rightarrow> (v, True)), [], s)"
    and upsert_inventory: "usable c s \<Longrightarrow> ok_id (InventoryView.ItemID iv) \<Longrightarrow> ok_time (InventoryView.UpdatedAt iv) \<Longrightarrow>
      \<exists>s'. UpsertInventory R c iv s = Some (Inr (), [], s') \<and> usable c s' \<and>
      views s' = (views s)\<lparr>inventory := (inventory (views s))(InventoryView.ItemID iv \<mapsto> stamp_inventory stamp iv)\<rparr>"
    and get_checkpoint: "usable c s \<Longrightarrow> ok_id n \<Longrightarrow>
      GetCheckpoint R c n s = Some (Inr (go_get (checkpoints (views s)) n), [], s)"
    and set_checkpoint: "usable c s \<Longrightarrow> ok_id n \<Longrightarrow> go_get (checkpoints (views s)) n <s g \<Longrightarrow>
      \<exists>s'. SetCheckpoint R c n g s = Some (Inr (), [], s') \<and> usable c s' \<and>
      views s' = (views s)\<lparr>checkpoints := (checkpoints (views s))(n \<mapsto> g)\<rparr>"
    and set_checkpoint_back: "usable c s \<Longrightarrow> ok_id n \<Longrightarrow> 0 \<le>s g \<Longrightarrow>
      \<not> go_get (checkpoints (views s)) n <s g \<Longrightarrow>
      \<exists>s'. SetCheckpoint R c n g s = Some (Inr (), [], s') \<and> usable c s' \<and>
      go_get (checkpoints (views s')) = go_get (checkpoints (views s)) \<and>
      accounts (views s') = accounts (views s) \<and> inventory (views s') = inventory (views s)"
    and with_tx: "outside c s \<Longrightarrow> \<exists>c' s1. usable c' s1 \<and> views s1 = views s \<and>
      (\<forall>r ms s2. fn c' s1 = Some (r, ms, s2) \<longrightarrow> usable c' s2 \<longrightarrow>
         (\<exists>s'. WithTx R c fn s = Some (r, ms, s') \<and> outside c s' \<and>
            (\<forall>x. r = Inr x \<longrightarrow> views s' = views s2)))"

section \<open>The in-memory store\<close>

text \<open>The context carries only whether the store's mutex is already held.\<close>

type_synonym ctx = bool

definition background :: ctx where "background = False"

definition withTxLocked :: "ctx \<Rightarrow> ctx" where "withTxLocked ctx = True"

definition txLocked :: "ctx \<Rightarrow> bool" where "txLocked ctx = ctx"

record rm_store = views +
  mu :: bool

definition rm_New :: rm_store where
  "rm_New = \<lparr>accounts = Map.empty, inventory = Map.empty, checkpoints = Map.empty, mu = False\<rparr>"

text \<open>
  \<open>lock\<close> and the \<open>unlock\<close> it returns.  Nobody else runs between the two: \<open>mu\<close> is found held
  only by the goroutine itself, which then waits for ever.
\<close>

definition lock :: "ctx \<Rightarrow> rm_store \<Rightarrow> rm_store option" where
  "lock ctx s = (if txLocked ctx then Some s else if mu s then None else Some (s\<lparr>mu := True\<rparr>))"

definition unlock :: "ctx \<Rightarrow> rm_store \<Rightarrow> rm_store" where
  "unlock ctx s = (if txLocked ctx then s else s\<lparr>mu := False\<rparr>)"

definition rm_GetAccount :: "ctx \<Rightarrow> string \<Rightarrow> (rm_store, AccountView \<times> bool) act" where
  "rm_GetAccount ctx accountID s =
     (case lock ctx s of None \<Rightarrow> None | Some s1 \<Rightarrow>
        Some (Inr (case accounts s1 accountID of None \<Rightarrow> (zero_AccountView, False) | Some v \<Rightarrow> (v, True)),
          [], unlock ctx s1))"

definition rm_UpsertAccount :: "ctx \<Rightarrow> AccountView \<Rightarrow> (rm_store, unit) act" where
  "rm_UpsertAccount ctx view s =
     (case lock ctx s of None \<Rightarrow> None | Some s1 \<Rightarrow>
        Some (Inr (), [], unlock ctx (s1\<lparr>accounts := (accounts s1)(AccountView.AccountID view \<mapsto> view)\<rparr>)))"

definition rm_GetInventory :: "ctx \<Rightarrow> string \<Rightarrow> (rm_store, InventoryView \<times> bool) act" where
  "rm_GetInventory ctx itemID s =
     (case lock ctx s of None \<Rightarrow> None | Some s1 \<Rightarrow>
        Some (Inr (case inventory s1 itemID of None \<Rightarrow> (zero_InventoryView, False) | Some v \<Rightarrow> (v, True)),
          [], unlock ctx s1))"

definition rm_UpsertInventory :: "ctx \<Rightarrow> InventoryView \<Rightarrow> (rm_store, unit) act" where
  "rm_UpsertInventory ctx view s =
     (case lock ctx s of None \<Rightarrow> None | Some s1 \<Rightarrow>
        Some (Inr (), [], unlock ctx (s1\<lparr>inventory := (inventory s1)(InventoryView.ItemID view \<mapsto> view)\<rparr>)))"

definition rm_GetCheckpoint :: "ctx \<Rightarrow> string \<Rightarrow> (rm_store, int64) act" where
  "rm_GetCheckpoint ctx projectionName s =
     (case lock ctx s of None \<Rightarrow> None | Some s1 \<Rightarrow>
        Some (Inr (go_get (checkpoints s1) projectionName), [], unlock ctx s1))"

definition rm_SetCheckpoint :: "ctx \<Rightarrow> string \<Rightarrow> int64 \<Rightarrow> (rm_store, unit) act" where
  "rm_SetCheckpoint ctx projectionName seq s =
     (case lock ctx s of None \<Rightarrow> None | Some s1 \<Rightarrow>
        Some (Inr (), [], unlock ctx
          (if go_get (checkpoints s1) projectionName <s seq
           then s1\<lparr>checkpoints := (checkpoints s1)(projectionName \<mapsto> seq)\<rparr> else s1)))"

definition rm_WithTx :: "ctx \<Rightarrow> (ctx \<Rightarrow> (rm_store, bool) act) \<Rightarrow> (rm_store, bool) act" where
  "rm_WithTx ctx fn s =
     (if mu s then None
      else case fn (withTxLocked ctx) (s\<lparr>mu := True\<rparr>) of
        None \<Rightarrow> None
      | Some (r, ms, s') \<Rightarrow> Some (r, ms, s'\<lparr>mu := False\<rparr>))"

definition memory_ReadModels :: "(ctx, rm_store) ReadModelStore" where
  "memory_ReadModels =
     \<lparr>GetAccount = rm_GetAccount, UpsertAccount = rm_UpsertAccount, GetInventory = rm_GetInventory,
      UpsertInventory = rm_UpsertInventory, GetCheckpoint = rm_GetCheckpoint,
      SetCheckpoint = rm_SetCheckpoint, WithTx = rm_WithTx\<rparr>"

lemmas rm_ops = rm_GetAccount_def rm_UpsertAccount_def rm_GetInventory_def rm_UpsertInventory_def
  rm_GetCheckpoint_def rm_SetCheckpoint_def lock_def unlock_def txLocked_def withTxLocked_def

text \<open>Inside a transaction the context is locked; outside, nobody holds the mutex.\<close>

definition rm_usable :: "ctx \<Rightarrow> rm_store \<Rightarrow> bool" where
  "rm_usable ctx s \<longleftrightarrow> ctx \<or> \<not> mu s"

definition rm_outside :: "ctx \<Rightarrow> rm_store \<Rightarrow> bool" where
  "rm_outside ctx s \<longleftrightarrow> \<not> mu s"

lemma mu_False: "\<not> mu s \<Longrightarrow> s\<lparr>mu := False\<rparr> = s"
  by (cases s) simp

lemma truncate_update [simp]:
  "views.truncate (s\<lparr>mu := b\<rparr>) = views.truncate s"
  "accounts (views.truncate s) = accounts s" "inventory (views.truncate s) = inventory s"
  "checkpoints (views.truncate s) = checkpoints s"
  "views.truncate (s\<lparr>accounts := a\<rparr>) = (views.truncate s)\<lparr>accounts := a\<rparr>"
  "views.truncate (s\<lparr>inventory := i\<rparr>) = (views.truncate s)\<lparr>inventory := i\<rparr>"
  "views.truncate (s\<lparr>checkpoints := c\<rparr>) = (views.truncate s)\<lparr>checkpoints := c\<rparr>"
  by (simp_all add: views.truncate_def)

interpretation rm: read_model memory_ReadModels views.truncate rm_usable rm_outside
  "\<lambda>t. t" "\<lambda>_. True" "\<lambda>_. True"
proof (unfold_locales, goal_cases)
  case (9 c s fn)
  then show ?case
    by (intro exI [of _ True] exI [of _ "s\<lparr>mu := True\<rparr>"])
       (auto simp: memory_ReadModels_def rm_WithTx_def rm_usable_def rm_outside_def withTxLocked_def)
qed (auto simp: memory_ReadModels_def rm_usable_def rm_outside_def rm_ops mu_False split: option.splits)

end
