(* ===== verification/Account.thy ===== *)
theory Account imports EventStore begin

text \<open>
  The account aggregate: \<open>AccountState\<close> and \<open>FoldAccount\<close> of \<open>internal/ledger/state.go\<close>, and
  the account part of \<open>internal/ledger/decide.go\<close>.  Then the histories the decisions allow,
  and what every such history guarantees of the folded balance.
\<close>

section \<open>State and decisions\<close>

record AccountState =
  AccountID :: string
  Version :: int64
  Opened :: bool
  BalanceCents :: int64

text \<open>The body of the loop of \<open>FoldAccount\<close> on one event.\<close>

definition account_step :: "AccountState \<Rightarrow> Event \<Rightarrow> error + AccountState" where
  "account_step st e =
     (let st1 = st\<lparr>AccountState.Version := Event.Version e\<rparr> in
      if Event.EventType e = EventAccountOpened then
        (case unmarshal_AccountOpened (Event.Payload e) of
           Inl err \<Rightarrow> Inl (Errorf (''decode '' @ Event.EventType e) err)
         | Inr payload \<Rightarrow> Inr (st1\<lparr>Opened := True, BalanceCents := InitialBalanceCents payload\<rparr>))
      else if Event.EventType e = EventFundsDeposited then
        (case unmarshal_FundsDeposited (Event.Payload e) of
           Inl err \<Rightarrow> Inl (Errorf (''decode '' @ Event.EventType e) err)
         | Inr payload \<Rightarrow>
             Inr (st1\<lparr>BalanceCents := BalanceCents st1 + FundsDeposited.AmountCents payload\<rparr>))
      else if Event.EventType e = EventFundsWithdrawn then
        (case unmarshal_FundsWithdrawn (Event.Payload e) of
           Inl err \<Rightarrow> Inl (Errorf (''decode '' @ Event.EventType e) err)
         | Inr payload \<Rightarrow>
             Inr (st1\<lparr>BalanceCents := BalanceCents st1 - FundsWithdrawn.AmountCents payload\<rparr>))
      else Inl (UnknownEventType ''unknown account event type'' (Event.EventType e)))"

fun account_loop :: "AccountState \<Rightarrow> Event list \<Rightarrow> error + AccountState" where
  "account_loop st [] = Inr st"
| "account_loop st (e # events) =
     (case account_step st e of Inl err \<Rightarrow> Inl err | Inr st' \<Rightarrow> account_loop st' events)"

definition FoldAccount :: "string \<Rightarrow> Event list \<Rightarrow> error + AccountState" where
  "FoldAccount accountID events =
     account_loop \<lparr>AccountState.AccountID = accountID, Version = 0, Opened = False, BalanceCents = 0\<rparr>
       events"

definition DecideOpenAccount :: "AccountState \<Rightarrow> string \<Rightarrow> int64 \<Rightarrow> error + AccountOpened" where
  "DecideOpenAccount current accountID initialBalanceCents =
     (if Opened current then Inl ErrAccountAlreadyOpened
      else if initialBalanceCents <s 0 then Inl ErrInvalidAmount
      else Inr \<lparr>AccountOpened.AccountID = accountID, InitialBalanceCents = initialBalanceCents\<rparr>)"

definition DecideDeposit :: "AccountState \<Rightarrow> int64 \<Rightarrow> string \<Rightarrow> error + FundsDeposited" where
  "DecideDeposit current amountCents reason =
     (if \<not> Opened current then Inl ErrAccountNotOpen
      else if amountCents \<le>s 0 then Inl ErrInvalidAmount
      else Inr \<lparr>FundsDeposited.AccountID = AccountState.AccountID current,
                AmountCents = amountCents, Reason = reason\<rparr>)"

definition DecideWithdraw :: "AccountState \<Rightarrow> int64 \<Rightarrow> string \<Rightarrow> error + FundsWithdrawn" where
  "DecideWithdraw current amountCents reason =
     (if \<not> Opened current then Inl ErrAccountNotOpen
      else if amountCents \<le>s 0 then Inl ErrInvalidAmount
      else if BalanceCents current <s amountCents then Inl ErrInsufficientFunds
      else Inr \<lparr>FundsWithdrawn.AccountID = AccountState.AccountID current,
                AmountCents = amountCents, Reason = reason\<rparr>)"

section \<open>Folding\<close>

lemma account_loop_append:
  "account_loop st (xs @ ys)
   = (case account_loop st xs of Inl err \<Rightarrow> Inl err | Inr st' \<Rightarrow> account_loop st' ys)"
  by (induction xs arbitrary: st) (auto split: sum.splits)

lemma FoldAccount_Nil [simp]:
  "FoldAccount i [] = Inr \<lparr>AccountState.AccountID = i, Version = 0, Opened = False, BalanceCents = 0\<rparr>"
  by (simp add: FoldAccount_def)

lemma FoldAccount_snoc:
  "FoldAccount i (h @ [e])
   = (case FoldAccount i h of Inl err \<Rightarrow> Inl err | Inr st \<Rightarrow> account_step st e)"
  by (auto simp: FoldAccount_def account_loop_append split: sum.splits)

text \<open>The effect of an event whose payload was marshalled from the struct of its type.\<close>

lemma account_step_marshal:
  "Event.EventType e = EventAccountOpened \<Longrightarrow> Event.Payload e = marshal_AccountOpened a \<Longrightarrow>
   account_step st e
   = Inr (st\<lparr>AccountState.Version := Event.Version e, Opened := True,
             BalanceCents := InitialBalanceCents a\<rparr>)"
  "Event.EventType e = EventFundsDeposited \<Longrightarrow> Event.Payload e = marshal_FundsDeposited d \<Longrightarrow>
   account_step st e
   = Inr (st\<lparr>AccountState.Version := Event.Version e,
             BalanceCents := BalanceCents st + FundsDeposited.AmountCents d\<rparr>)"
  "Event.EventType e = EventFundsWithdrawn \<Longrightarrow> Event.Payload e = marshal_FundsWithdrawn w \<Longrightarrow>
   account_step st e
   = Inr (st\<lparr>AccountState.Version := Event.Version e,
             BalanceCents := BalanceCents st - FundsWithdrawn.AmountCents w\<rparr>)"
  by (simp_all add: account_step_def Let_def)

lemma account_step_frame:
  "account_step st e = Inr st' \<Longrightarrow>
   AccountState.AccountID st' = AccountState.AccountID st \<and>
   AccountState.Version st' = Event.Version e"
  by (auto simp: account_step_def Let_def split: if_splits sum.splits)

lemma FoldAccount_id: "FoldAccount i h = Inr st \<Longrightarrow> AccountState.AccountID st = i"
  by (induction h arbitrary: st rule: rev_induct)
     (auto simp: FoldAccount_snoc split: sum.splits dest: account_step_frame)

lemma FoldAccount_version:
  "FoldAccount i h = Inr st \<Longrightarrow>
   AccountState.Version st = (if h = [] then 0 else Event.Version (last h))"
  by (cases h rule: rev_cases)
     (auto simp: FoldAccount_snoc split: sum.splits dest: account_step_frame)

section \<open>The histories the decisions allow\<close>

text \<open>
  \<open>account_decides i h et p\<close>: on an account whose stream is \<open>h\<close> one of the three decisions
  accepts a command and produces an event of type \<open>et\<close> with payload \<open>p\<close>.
\<close>

inductive account_decides :: "string \<Rightarrow> Event list \<Rightarrow> string \<Rightarrow> payload \<Rightarrow> bool" where
  open_account: "FoldAccount i h = Inr st \<Longrightarrow> DecideOpenAccount st i n = Inr ev \<Longrightarrow>
    account_decides i h EventAccountOpened (marshal_AccountOpened ev)"
| deposit: "FoldAccount i h = Inr st \<Longrightarrow> DecideDeposit st n reason = Inr ev \<Longrightarrow>
    account_decides i h EventFundsDeposited (marshal_FundsDeposited ev)"
| withdraw: "FoldAccount i h = Inr st \<Longrightarrow> DecideWithdraw st n reason = Inr ev \<Longrightarrow>
    account_decides i h EventFundsWithdrawn (marshal_FundsWithdrawn ev)"

inductive account_history :: "string \<Rightarrow> Event list \<Rightarrow> bool" where
  fresh_account: "account_history i []"
| account_event: "account_history i h \<Longrightarrow>
    account_decides i h (Event.EventType e) (Event.Payload e) \<Longrightarrow> account_history i (h @ [e])"

inductive_cases account_decidesE: "account_decides i h et p"

text \<open>
  The amount an event moves into the account, and out of it, as mathematical integers.  Both
  are 0 for an event that is not an account's.
\<close>

definition money_in :: "Event \<Rightarrow> int" where
  "money_in e =
     (if Event.EventType e = EventAccountOpened then
        (case unmarshal_AccountOpened (Event.Payload e) of
           Inl _ \<Rightarrow> 0 | Inr p \<Rightarrow> sint (InitialBalanceCents p))
      else if Event.EventType e = EventFundsDeposited then
        (case unmarshal_FundsDeposited (Event.Payload e) of
           Inl _ \<Rightarrow> 0 | Inr p \<Rightarrow> sint (FundsDeposited.AmountCents p))
      else 0)"

definition money_out :: "Event \<Rightarrow> int" where
  "money_out e =
     (if Event.EventType e = EventFundsWithdrawn then
        (case unmarshal_FundsWithdrawn (Event.Payload e) of
           Inl _ \<Rightarrow> 0 | Inr p \<Rightarrow> sint (FundsWithdrawn.AmountCents p))
      else 0)"

definition total_in :: "Event list \<Rightarrow> int" where "total_in h = sum_list (map money_in h)"
definition total_out :: "Event list \<Rightarrow> int" where "total_out h = sum_list (map money_out h)"

lemma totals_snoc [simp]:
  "total_in (h @ [e]) = total_in h + money_in e" "total_out (h @ [e]) = total_out h + money_out e"
  "total_in [] = 0" "total_out [] = 0"
  by (simp_all add: total_in_def total_out_def)

text \<open>An allowed history always folds: no decoding error and no unknown event type.\<close>

lemma account_history_folds: "account_history i h \<Longrightarrow> \<exists>st. FoldAccount i h = Inr st"
proof (induction rule: account_history.induct)
  case (account_event i h e)
  then show ?case
    by (auto elim!: account_decidesE simp: FoldAccount_snoc account_step_marshal)
qed simp

lemma money_moved_nonneg:
  "account_decides i h (Event.EventType e) (Event.Payload e) \<Longrightarrow> 0 \<le> money_in e \<and> 0 \<le> money_out e"
  by (auto elim!: account_decidesE simp: money_in_def money_out_def DecideOpenAccount_def
      DecideDeposit_def DecideWithdraw_def split: if_splits)

lemma account_history_totals_nonneg: "account_history i h \<Longrightarrow> 0 \<le> total_in h \<and> 0 \<le> total_out h"
  by (induction rule: account_history.induct) (auto dest!: money_moved_nonneg)

text \<open>An account is open from its first event on.\<close>

lemma account_history_opened:
  "account_history i h \<Longrightarrow> FoldAccount i h = Inr st \<Longrightarrow> Opened st \<longleftrightarrow> h \<noteq> []"
proof (induction arbitrary: st rule: account_history.induct)
  case (account_event i h e)
  then show ?case
    by (auto elim!: account_decidesE simp: FoldAccount_snoc account_step_marshal
        DecideDeposit_def DecideWithdraw_def split: if_splits)
qed auto

text \<open>
  As long as the money ever moved into an account fits an \<open>int64\<close>, the wrapping arithmetic
  of the fold is exact and the balance is never negative.
\<close>

lemma account_history_balance:
  "account_history i h \<Longrightarrow> total_in h < 2 ^ 63 \<Longrightarrow> FoldAccount i h = Inr st \<Longrightarrow>
   sint (BalanceCents st) = total_in h - total_out h \<and> 0 \<le> sint (BalanceCents st)"
proof (induction arbitrary: st rule: account_history.induct)
  case (fresh_account i)
  then show ?case by auto
next
  case (account_event i h e)
  from account_event.hyps have moved: "0 \<le> money_in e" "0 \<le> total_out h"
    using money_moved_nonneg account_history_totals_nonneg by auto
  obtain st0 where st0: "FoldAccount i h = Inr st0"
    using account_history_folds [OF account_event.hyps(1)] by auto
  with account_event moved have IH: "sint (BalanceCents st0) = total_in h - total_out h"
    "0 \<le> sint (BalanceCents st0)" by auto
  have opened: "Opened st0 \<longleftrightarrow> h \<noteq> []"
    by (rule account_history_opened [OF account_event.hyps(1) st0])
  from account_event.hyps(2) show ?case
  proof cases
    case (open_account st' n ev)
    then have "h = []" using opened st0 by (auto simp: DecideOpenAccount_def split: if_splits)
    with open_account st0 account_event.prems show ?thesis
      using FoldAccount_snoc [of i "[]" e] totals_snoc(1,2) [of "[]"]
      by (auto simp: account_step_marshal money_in_def money_out_def
          DecideOpenAccount_def split: if_splits)
  next
    case (deposit st' n reason ev)
    then have n: "0 < sint (FundsDeposited.AmountCents ev)" "money_in e = sint (FundsDeposited.AmountCents ev)"
      by (auto simp: money_in_def DecideDeposit_def split: if_splits)
    then have "sint (BalanceCents st0 + FundsDeposited.AmountCents ev)
        = sint (BalanceCents st0) + sint (FundsDeposited.AmountCents ev)"
      using IH account_event.prems(1) moved by (intro sint_add) (auto simp: in64_def)
    with deposit st0 n IH account_event.prems show ?thesis
      by (auto simp: FoldAccount_snoc account_step_marshal money_out_def)
  next
    case (withdraw st' n reason ev)
    then have n: "0 < sint (FundsWithdrawn.AmountCents ev)"
      "sint (FundsWithdrawn.AmountCents ev) \<le> sint (BalanceCents st0)"
      "money_out e = sint (FundsWithdrawn.AmountCents ev)"
      using st0 by (auto simp: money_out_def DecideWithdraw_def split: if_splits)
    then have "sint (BalanceCents st0 - FundsWithdrawn.AmountCents ev)
        = sint (BalanceCents st0) - sint (FundsWithdrawn.AmountCents ev)"
      using IH sint64_lt [of "BalanceCents st0"] by (intro sint_sub) (auto simp: in64_def)
    with withdraw st0 n IH account_event.prems show ?thesis
      by (auto simp: FoldAccount_snoc account_step_marshal money_in_def)
  qed
qed

end
