(* ===== verification/Inventory.thy ===== *)
theory Inventory imports EventStore begin

text \<open>
  The inventory aggregate: \<open>InventoryState\<close> and \<open>FoldInventory\<close> of
  \<open>internal/ledger/state.go\<close>, and the inventory part of \<open>internal/ledger/decide.go\<close>.  Then
  the histories the decisions allow, and what they guarantee of the stock.
\<close>

section \<open>State and decisions\<close>

record InventoryState =
  ItemID :: string
  Version :: int64
  AvailableQuantity :: int64
  ReservedQuantity :: int64

text \<open>The body of the loop of \<open>FoldInventory\<close> on one event.\<close>

definition inventory_step :: "InventoryState \<Rightarrow> Event \<Rightarrow> error + InventoryState" where
  "inventory_step st e =
     (let st1 = st\<lparr>InventoryState.Version := Event.Version e\<rparr> in
      if Event.EventType e = EventInventoryAdjusted then
        (case unmarshal_InventoryAdjusted (Event.Payload e) of
           Inl err \<Rightarrow> Inl (Errorf (''decode '' @ Event.EventType e) err)
         | Inr payload \<Rightarrow>
             Inr (st1\<lparr>AvailableQuantity := AvailableQuantity st1 + DeltaQuantity payload\<rparr>))
      else if Event.EventType e = EventStockReserved then
        (case unmarshal_StockReserved (Event.Payload e) of
           Inl err \<Rightarrow> Inl (Errorf (''decode '' @ Event.EventType e) err)
         | Inr payload \<Rightarrow>
             Inr (st1\<lparr>AvailableQuantity := AvailableQuantity st1 - StockReserved.Quantity payload,
                      ReservedQuantity := ReservedQuantity st1 + StockReserved.Quantity payload\<rparr>))
      else if Event.EventType e = EventStockReleased then
        (case unmarshal_StockReleased (Event.Payload e) of
           Inl err \<Rightarrow> Inl (Errorf (''decode '' @ Event.EventType e) err)
         | Inr payload \<Rightarrow>
             Inr (st1\<lparr>ReservedQuantity := ReservedQuantity st1 - StockReleased.Quantity payload,
                      AvailableQuantity := AvailableQuantity st1 + StockReleased.Quantity payload\<rparr>))
      else Inl (UnknownEventType ''unknown inventory event type'' (Event.EventType e)))"

fun inventory_loop :: "InventoryState \<Rightarrow> Event list \<Rightarrow> error + InventoryState" where
  "inventory_loop st [] = Inr st"
| "inventory_loop st (e # events) =
     (case inventory_step st e of Inl err \<Rightarrow> Inl err | Inr st' \<Rightarrow> inventory_loop st' events)"

definition FoldInventory :: "string \<Rightarrow> Event list \<Rightarrow> error + InventoryState" where
  "FoldInventory itemID events =
     inventory_loop
       \<lparr>InventoryState.ItemID = itemID, Version = 0, AvailableQuantity = 0, ReservedQuantity = 0\<rparr>
       events"

definition DecideAdjustInventory ::
  "InventoryState \<Rightarrow> string \<Rightarrow> int64 \<Rightarrow> string \<Rightarrow> error + InventoryAdjusted" where
  "DecideAdjustInventory current itemID delta reason =
     (if delta = 0 then Inl ErrInvalidQuantity
      else if delta <s 0 \<and> AvailableQuantity current + delta <s 0 then Inl ErrInsufficientStock
      else Inr \<lparr>InventoryAdjusted.ItemID = itemID, DeltaQuantity = delta, Reason = reason\<rparr>)"

definition DecideReserveStock ::
  "InventoryState \<Rightarrow> string \<Rightarrow> int64 \<Rightarrow> string \<Rightarrow> error + StockReserved" where
  "DecideReserveStock current itemID quantity orderID =
     (if quantity \<le>s 0 then Inl ErrInvalidQuantity
      else if AvailableQuantity current <s quantity then Inl ErrInsufficientStock
      else Inr \<lparr>StockReserved.ItemID = itemID, Quantity = quantity, OrderID = orderID\<rparr>)"

definition DecideReleaseStock ::
  "InventoryState \<Rightarrow> string \<Rightarrow> int64 \<Rightarrow> string \<Rightarrow> error + StockReleased" where
  "DecideReleaseStock current itemID quantity orderID =
     (if quantity \<le>s 0 then Inl ErrInvalidQuantity
      else if ReservedQuantity current <s quantity then Inl ErrInsufficientStock
      else Inr \<lparr>StockReleased.ItemID = itemID, Quantity = quantity, OrderID = orderID\<rparr>)"

section \<open>Folding\<close>

lemma inventory_loop_append:
  "inventory_loop st (xs @ ys)
   = (case inventory_loop st xs of Inl err \<Rightarrow> Inl err | Inr st' \<Rightarrow> inventory_loop st' ys)"
  by (induction xs arbitrary: st) (auto split: sum.splits)

lemma FoldInventory_Nil [simp]:
  "FoldInventory i []
   = Inr \<lparr>InventoryState.ItemID = i, Version = 0, AvailableQuantity = 0, ReservedQuantity = 0\<rparr>"
  by (simp add: FoldInventory_def)

lemma FoldInventory_snoc:
  "FoldInventory i (h @ [e])
   = (case FoldInventory i h of Inl err \<Rightarrow> Inl err | Inr st \<Rightarrow> inventory_step st e)"
  by (auto simp: FoldInventory_def inventory_loop_append split: sum.splits)

lemma inventory_step_marshal:
  "Event.EventType e = EventInventoryAdjusted \<Longrightarrow> Event.Payload e = marshal_InventoryAdjusted a \<Longrightarrow>
   inventory_step st e
   = Inr (st\<lparr>InventoryState.Version := Event.Version e,
             AvailableQuantity := AvailableQuantity st + DeltaQuantity a\<rparr>)"
  "Event.EventType e = EventStockReserved \<Longrightarrow> Event.Payload e = marshal_StockReserved r \<Longrightarrow>
   inventory_step st e
   = Inr (st\<lparr>InventoryState.Version := Event.Version e,
             AvailableQuantity := AvailableQuantity st - StockReserved.Quantity r,
             ReservedQuantity := ReservedQuantity st + StockReserved.Quantity r\<rparr>)"
  "Event.EventType e = EventStockReleased \<Longrightarrow> Event.Payload e = marshal_StockReleased l \<Longrightarrow>
   inventory_step st e
   = Inr (st\<lparr>InventoryState.Version := Event.Version e,
             ReservedQuantity := ReservedQuantity st - StockReleased.Quantity l,
             AvailableQuantity := AvailableQuantity st + StockReleased.Quantity l\<rparr>)"
  by (simp_all add: inventory_step_def Let_def)

lemma inventory_step_frame:
  "inventory_step st e = Inr st' \<Longrightarrow>
   InventoryState.ItemID st' = InventoryState.ItemID st \<and>
   InventoryState.Version st' = Event.Version e"
  by (auto simp: inventory_step_def Let_def split: if_splits sum.splits)

lemma FoldInventory_version:
  "FoldInventory i h = Inr st \<Longrightarrow>
   InventoryState.Version st = (if h = [] then 0 else Event.Version (last h))"
  by (cases h rule: rev_cases)
     (auto simp: FoldInventory_snoc split: sum.splits dest: inventory_step_frame)

section \<open>The histories the decisions allow\<close>

inductive inventory_decides :: "string \<Rightarrow> Event list \<Rightarrow> string \<Rightarrow> payload \<Rightarrow> bool" where
  adjust: "FoldInventory i h = Inr st \<Longrightarrow> DecideAdjustInventory st i d reason = Inr ev \<Longrightarrow>
    inventory_decides i h EventInventoryAdjusted (marshal_InventoryAdjusted ev)"
| reserve: "FoldInventory i h = Inr st \<Longrightarrow> DecideReserveStock st i q ord = Inr ev \<Longrightarrow>
    inventory_decides i h EventStockReserved (marshal_StockReserved ev)"
| release: "FoldInventory i h = Inr st \<Longrightarrow> DecideReleaseStock st i q ord = Inr ev \<Longrightarrow>
    inventory_decides i h EventStockReleased (marshal_StockReleased ev)"

inductive inventory_history :: "string \<Rightarrow> Event list \<Rightarrow> bool" where
  fresh_item: "inventory_history i []"
| inventory_event: "inventory_history i h \<Longrightarrow>
    inventory_decides i h (Event.EventType e) (Event.Payload e) \<Longrightarrow> inventory_history i (h @ [e])"

inductive_cases inventory_decidesE: "inventory_decides i h et p"

text \<open>
  The signed stock change of an adjustment, and the stock an event brings in (its positive
  adjustment); reservations move stock between the two counters and change neither total.
\<close>

definition stock_delta :: "Event \<Rightarrow> int" where
  "stock_delta e =
     (if Event.EventType e = EventInventoryAdjusted then
        (case unmarshal_InventoryAdjusted (Event.Payload e) of
           Inl _ \<Rightarrow> 0 | Inr p \<Rightarrow> sint (DeltaQuantity p))
      else 0)"

definition total_stock :: "Event list \<Rightarrow> int" where
  "total_stock h = sum_list (map stock_delta h)"

definition total_stocked :: "Event list \<Rightarrow> int" where
  "total_stocked h = sum_list (map (\<lambda>e. max 0 (stock_delta e)) h)"

lemma stock_totals_snoc [simp]:
  "total_stock (h @ [e]) = total_stock h + stock_delta e"
  "total_stocked (h @ [e]) = total_stocked h + max 0 (stock_delta e)"
  "total_stock [] = 0" "total_stocked [] = 0"
  by (simp_all add: total_stock_def total_stocked_def)

lemma total_stock_le: "total_stock h \<le> total_stocked h"
  by (induction h rule: rev_induct) auto

lemma inventory_history_folds: "inventory_history i h \<Longrightarrow> \<exists>st. FoldInventory i h = Inr st"
proof (induction rule: inventory_history.induct)
  case (inventory_event i h e)
  then show ?case
    by (auto elim!: inventory_decidesE simp: FoldInventory_snoc inventory_step_marshal)
qed simp

text \<open>
  As long as the stock ever brought in fits an \<open>int64\<close>, neither counter is ever negative and
  together they are the sum of all adjustments.
\<close>

lemma inventory_history_stock:
  "inventory_history i h \<Longrightarrow> total_stocked h < 2 ^ 63 \<Longrightarrow> FoldInventory i h = Inr st \<Longrightarrow>
   0 \<le> sint (AvailableQuantity st) \<and> 0 \<le> sint (ReservedQuantity st) \<and>
   sint (AvailableQuantity st) + sint (ReservedQuantity st) = total_stock h"
proof (induction arbitrary: st rule: inventory_history.induct)
  case (fresh_item i)
  then show ?case by auto
next
  case (inventory_event i h e)
  obtain st0 where st0: "FoldInventory i h = Inr st0"
    using inventory_history_folds [OF inventory_event.hyps(1)] by auto
  let ?a = "sint (AvailableQuantity st0)" and ?r = "sint (ReservedQuantity st0)"
  have IH: "0 \<le> ?a" "0 \<le> ?r" "?a + ?r = total_stock h"
    using inventory_event.IH [OF _ st0] inventory_event.prems(1) by auto
  have le: "total_stock h \<le> total_stocked h" by (rule total_stock_le)
  from inventory_event.hyps(2) show ?case
  proof cases
    case (adjust st' d reason ev)
    then have d: "stock_delta e = sint (DeltaQuantity ev)" by (simp add: stock_delta_def)
    have "in64 (?a + sint (DeltaQuantity ev))"
      using IH le inventory_event.prems(1) d sint64_ge [of "DeltaQuantity ev"] by (auto simp: in64_def)
    then have "sint (AvailableQuantity st0 + DeltaQuantity ev) = ?a + sint (DeltaQuantity ev)"
      by (rule sint_add)
    with adjust st0 d IH inventory_event.prems show ?thesis
      by (auto simp: FoldInventory_snoc inventory_step_marshal DecideAdjustInventory_def split: if_splits)
  next
    case (reserve st' q ord ev)
    then have q: "stock_delta e = 0" "0 < sint (StockReserved.Quantity ev)"
      "sint (StockReserved.Quantity ev) \<le> ?a"
      using st0 by (auto simp: stock_delta_def DecideReserveStock_def split: if_splits)
    then have "in64 (?a - sint (StockReserved.Quantity ev))" "in64 (?r + sint (StockReserved.Quantity ev))"
      using IH le inventory_event.prems(1) by (auto simp: in64_def)
    then have "sint (AvailableQuantity st0 - StockReserved.Quantity ev) = ?a - sint (StockReserved.Quantity ev)"
      "sint (ReservedQuantity st0 + StockReserved.Quantity ev) = ?r + sint (StockReserved.Quantity ev)"
      by (simp_all add: sint_add sint_sub)
    with reserve st0 q IH inventory_event.prems show ?thesis
      by (auto simp: FoldInventory_snoc inventory_step_marshal)
  next
    case (release st' q ord ev)
    then have q: "stock_delta e = 0" "0 < sint (StockReleased.Quantity ev)"
      "sint (StockReleased.Quantity ev) \<le> ?r"
      using st0 by (auto simp: stock_delta_def DecideReleaseStock_def split: if_splits)
    then have "in64 (?r - sint (StockReleased.Quantity ev))" "in64 (?a + sint (StockReleased.Quantity ev))"
      using IH le inventory_event.prems(1) by (auto simp: in64_def)
    then have "sint (ReservedQuantity st0 - StockReleased.Quantity ev) = ?r - sint (StockReleased.Quantity ev)"
      "sint (AvailableQuantity st0 + StockReleased.Quantity ev) = ?a + sint (StockReleased.Quantity ev)"
      by (simp_all add: sint_add sint_sub)
    with release st0 q IH inventory_event.prems show ?thesis
      by (auto simp: FoldInventory_snoc inventory_step_marshal)
  qed
qed

end
