(* ===== verification/Projector.thy ===== *)
theory Projector imports ReadModel Account Inventory begin

text \<open>
  \<open>internal/projections\<close>: the two appliers, \<open>ApplyEvent\<close> with its checkpoint, \<open>CatchUp\<close>,
  \<open>Lag\<close> and \<open>Checkpoint\<close>, over any \<open>ReadModelStore\<close> and any event store.
\<close>

section \<open>Appliers\<close>

record ('c, 's) EventApplier =
  Relevant :: "Event \<Rightarrow> bool"
  Apply :: "'c \<Rightarrow> Event \<Rightarrow> ('s, unit) act"

text \<open>The body of \<open>AccountApplier.Apply\<close> between reading the view and writing it.\<close>

definition account_view_step :: "Event \<Rightarrow> AccountView \<Rightarrow> error + AccountView" where
  "account_view_step event view0 =
     (let view = view0\<lparr>AccountView.AccountID := Event.AggregateID event\<rparr>;
          finish = (\<lambda>v. Inr (v\<lparr>AccountView.Version := Event.Version event, AccountView.UpdatedAt := CreatedAt event\<rparr>))
      in
      if Event.EventType event = EventAccountOpened then
        (case unmarshal_AccountOpened (Event.Payload event) of
           Inl err \<Rightarrow> Inl (Errorf (''account projection: decode '' @ Event.EventType event) err)
         | Inr payload \<Rightarrow> finish (view\<lparr>AccountView.BalanceCents := InitialBalanceCents payload\<rparr>))
      else if Event.EventType event = EventFundsDeposited then
        (case unmarshal_FundsDeposited (Event.Payload event) of
           Inl err \<Rightarrow> Inl (Errorf (''account projection: decode '' @ Event.EventType event) err)
         | Inr payload \<Rightarrow> finish (view\<lparr>AccountView.BalanceCents :=
             AccountView.BalanceCents view + FundsDeposited.AmountCents payload\<rparr>))
      else if Event.EventType event = EventFundsWithdrawn then
        (case unmarshal_FundsWithdrawn (Event.Payload event) of
           Inl err \<Rightarrow> Inl (Errorf (''account projection: decode '' @ Event.EventType event) err)
         | Inr payload \<Rightarrow> finish (view\<lparr>AccountView.BalanceCents :=
             AccountView.BalanceCents view - FundsWithdrawn.AmountCents payload\<rparr>))
      else Inl (UnknownEventType ''account projection: unexpected event type'' (Event.EventType event)))"

definition AccountApplier_Apply :: "('c, 's) ReadModelStore \<Rightarrow> 'c \<Rightarrow> Event \<Rightarrow> ('s, unit) act" where
  "AccountApplier_Apply R ctx event =
     and_then (GetAccount R ctx (Event.AggregateID event)) (\<lambda>(view, _).
       case account_view_step event view of
         Inl err \<Rightarrow> fail err
       | Inr view' \<Rightarrow> UpsertAccount R ctx view')"

definition AccountApplier :: "('c, 's) ReadModelStore \<Rightarrow> ('c, 's) EventApplier" where
  "AccountApplier R =
     \<lparr>Relevant = (\<lambda>event. Event.AggregateType event = AggregateTypeAccount),
      Apply = AccountApplier_Apply R\<rparr>"

text \<open>The body of \<open>InventoryApplier.Apply\<close> between reading the view and writing it.\<close>

definition inventory_view_step :: "Event \<Rightarrow> InventoryView \<Rightarrow> error + InventoryView" where
  "inventory_view_step event view0 =
     (let view = view0\<lparr>InventoryView.ItemID := Event.AggregateID event\<rparr>;
          finish = (\<lambda>v. Inr (v\<lparr>InventoryView.Version := Event.Version event, UpdatedAt := CreatedAt event\<rparr>))
      in
      if Event.EventType event = EventInventoryAdjusted then
        (case unmarshal_InventoryAdjusted (Event.Payload event) of
           Inl err \<Rightarrow> Inl (Errorf (''inventory projection: decode '' @ Event.EventType event) err)
         | Inr payload \<Rightarrow> finish (view\<lparr>InventoryView.AvailableQuantity :=
             InventoryView.AvailableQuantity view + DeltaQuantity payload\<rparr>))
      else if Event.EventType event = EventStockReserved then
        (case unmarshal_StockReserved (Event.Payload event) of
           Inl err \<Rightarrow> Inl (Errorf (''inventory projection: decode '' @ Event.EventType event) err)
         | Inr payload \<Rightarrow> finish (view\<lparr>
             InventoryView.AvailableQuantity := InventoryView.AvailableQuantity view - StockReserved.Quantity payload,
             InventoryView.ReservedQuantity := InventoryView.ReservedQuantity view + StockReserved.Quantity payload\<rparr>))
      else if Event.EventType event = EventStockReleased then
        (case unmarshal_StockReleased (Event.Payload event) of
           Inl err \<Rightarrow> Inl (Errorf (''inventory projection: decode '' @ Event.EventType event) err)
         | Inr payload \<Rightarrow> finish (view\<lparr>
             InventoryView.ReservedQuantity := InventoryView.ReservedQuantity view - StockReleased.Quantity payload,
             InventoryView.AvailableQuantity := InventoryView.AvailableQuantity view + StockReleased.Quantity payload\<rparr>))
      else Inl (UnknownEventType ''inventory projection: unexpected event type'' (Event.EventType event)))"

definition InventoryApplier_Apply :: "('c, 's) ReadModelStore \<Rightarrow> 'c \<Rightarrow> Event \<Rightarrow> ('s, unit) act" where
  "InventoryApplier_Apply R ctx event =
     and_then (GetInventory R ctx (Event.AggregateID event)) (\<lambda>(view, _).
       case inventory_view_step event view of
         Inl err \<Rightarrow> fail err
       | Inr view' \<Rightarrow> UpsertInventory R ctx view')"

definition InventoryApplier :: "('c, 's) ReadModelStore \<Rightarrow> ('c, 's) EventApplier" where
  "InventoryApplier R =
     \<lparr>Relevant = (\<lambda>event. Event.AggregateType event = AggregateTypeInventoryItem),
      Apply = InventoryApplier_Apply R\<rparr>"

section \<open>The projector\<close>

record ('c, 's) Projector =
  Name :: string
  ReadModels :: "('c, 's) ReadModelStore"
  Applier :: "('c, 's) EventApplier"

definition NewProjector ::
  "string \<Rightarrow> ('c, 's) ReadModelStore \<Rightarrow> ('c, 's) EventApplier \<Rightarrow> ('c, 's) Projector" where
  "NewProjector name store applier = \<lparr>Name = name, ReadModels = store, Applier = applier\<rparr>"

text \<open>The closure that \<open>ApplyEvent\<close> runs inside one transaction.\<close>

definition apply_tx :: "('c, 's) Projector \<Rightarrow> Event \<Rightarrow> 'c \<Rightarrow> ('s, bool) act" where
  "apply_tx p event ctx =
     and_then (GetCheckpoint (ReadModels p) ctx (Name p)) (\<lambda>checkpoint.
       if GlobalSeq event \<le>s checkpoint then
         and_then (report (DuplicateSkipped (Name p))) (\<lambda>_. ret False)
       else
         and_then
           (if Relevant (Applier p) event then
              and_then (Apply (Applier p) ctx event) (\<lambda>_.
              and_then (report (EventApplied (Name p) (Event.EventType event))) (\<lambda>_. ret True))
            else ret False)
           (\<lambda>applied.
              and_then (SetCheckpoint (ReadModels p) ctx (Name p) (GlobalSeq event)) (\<lambda>_. ret applied)))"

definition ApplyEvent :: "('c, 's) Projector \<Rightarrow> 'c \<Rightarrow> Event \<Rightarrow> ('s, bool) act" where
  "ApplyEvent p ctx event = WithTx (ReadModels p) ctx (apply_tx p event)"

text \<open>
  The loop over one batch of \<open>CatchUp\<close>: the error that stopped it, if any, and the count so far.
\<close>

fun apply_batch ::
  "('c, 's) Projector \<Rightarrow> 'c \<Rightarrow> Event list \<Rightarrow> int64 \<Rightarrow> 's \<Rightarrow> ((error option \<times> int64) \<times> metric list \<times> 's) option" where
  "apply_batch p ctx [] applied s = Some ((None, applied), [], s)"
| "apply_batch p ctx (e # events) applied s =
     (case ApplyEvent p ctx e s of
        None \<Rightarrow> None
      | Some (Inl err, ms, s') \<Rightarrow> Some ((Some err, applied), ms, s')
      | Some (Inr ok, ms, s') \<Rightarrow>
          (case apply_batch p ctx events (if ok then applied + 1 else applied) s' of
             None \<Rightarrow> None
           | Some (r, ms', s'') \<Rightarrow> Some (r, ms @ ms', s'')))"

text \<open>
  \<open>CatchUp\<close> on an event store in state \<open>log\<close>: the loop has no bound, so not returning is the
  value \<open>None\<close>.
\<close>

partial_function (option) catch_up_loop ::
  "('c, 's) Projector \<Rightarrow> 'c \<Rightarrow> 'e Store \<Rightarrow> 'e \<Rightarrow> int64 \<Rightarrow> int64 \<Rightarrow> 's \<Rightarrow>
   ((error option \<times> int64) \<times> metric list \<times> 's) option" where
  "catch_up_loop p ctx store log batchSize applied s =
     (case GetCheckpoint (ReadModels p) ctx (Name p) s of
        None \<Rightarrow> None
      | Some (r, ms, s1) \<Rightarrow>
     (case r of
        Inl err \<Rightarrow> Some ((Some err, applied), ms, s1)
      | Inr checkpoint \<Rightarrow>
     (case LoadSince store checkpoint batchSize log of
        Inl err \<Rightarrow> Some ((Some err, applied), ms, s1)
      | Inr events \<Rightarrow>
          if length events = 0 then Some ((None, applied), ms, s1)
          else
     (case apply_batch p ctx events applied s1 of
        None \<Rightarrow> None
      | Some (r2, ms2, s2) \<Rightarrow>
     (case r2 of (err, applied2) \<Rightarrow>
          if err \<noteq> None then Some ((err, applied2), ms @ ms2, s2)
          else if word_of_nat (length events) <s batchSize then Some ((None, applied2), ms @ ms2, s2)
          else
            Option.bind (catch_up_loop p ctx store log batchSize applied2 s2)
              (\<lambda>(r3, ms3, s3). Some (r3, ms @ ms2 @ ms3, s3)))))))"

declare catch_up_loop.simps [code]

definition CatchUp ::
  "('c, 's) Projector \<Rightarrow> 'c \<Rightarrow> 'e Store \<Rightarrow> 'e \<Rightarrow> int64 \<Rightarrow> 's \<Rightarrow>
   ((error option \<times> int64) \<times> metric list \<times> 's) option" where
  "CatchUp p ctx store log batchSize s = catch_up_loop p ctx store log batchSize 0 s"

definition Lag :: "('c, 's) Projector \<Rightarrow> 'c \<Rightarrow> int64 \<Rightarrow> ('s, int64) act" where
  "Lag p ctx latestGlobalSeq =
     and_then (GetCheckpoint (ReadModels p) ctx (Name p)) (\<lambda>checkpoint.
       let lag0 = latestGlobalSeq - checkpoint;
           lag = (if lag0 <s 0 then 0 else lag0)
       in and_then (report (LagReported (Name p) lag)) (\<lambda>_. ret lag))"

definition Checkpoint :: "('c, 's) Projector \<Rightarrow> 'c \<Rightarrow> ('s, int64) act" where
  "Checkpoint p ctx = GetCheckpoint (ReadModels p) ctx (Name p)"

end
