(* ===== verification/Bus.thy ===== *)
theory Bus imports Projector begin

text \<open>
  \<open>internal/bus\<close>: handlers, the synchronous in-memory bus, and the publisher that delivers
  everything several times; with \<open>publisherAdapter\<close> and \<open>subscribeAndCatchUp\<close> of
  \<open>cmd/streamledger/main.go\<close>.  A handler acts on the read side's state.
\<close>

section \<open>Handlers and publishers\<close>

type_synonym 'r handler_fn = "Event \<Rightarrow> ('r, unit) act"

type_synonym 'r publisher = "Event list \<Rightarrow> ('r, unit) act"

fun for_each :: "('x \<Rightarrow> ('r, unit) act) \<Rightarrow> 'x list \<Rightarrow> ('r, unit) act" where
  "for_each f [] = ret ()"
| "for_each f (x # xs) = and_then (f x) (\<lambda>_. for_each f xs)"

section \<open>The in-memory bus\<close>

record 'r Bus =
  handlers :: "int64 \<rightharpoonup> 'r handler_fn"
  nextID :: int64
  closed :: bool

definition bus_New :: "'r Bus" where
  "bus_New = \<lparr>handlers = Map.empty, nextID = 0, closed = False\<rparr>"

text \<open>
  \<open>range\<close> over a Go map visits its keys in an order that is not specified: \<open>order\<close> is the one
  it takes, which \<open>map_order\<close> says is an enumeration of the keys.
\<close>

definition map_order :: "('k \<rightharpoonup> 'v) \<Rightarrow> 'k list \<Rightarrow> bool" where
  "map_order m order \<longleftrightarrow> distinct order \<and> set order = dom m"

definition bus_Publish :: "int64 list \<Rightarrow> 'r Bus \<Rightarrow> 'r publisher" where
  "bus_Publish order b events =
     (if closed b then ret ()
      else let hs = map (\<lambda>k. the (handlers b k)) order
           in for_each (\<lambda>e. for_each (\<lambda>h. h e) hs) events)"

definition bus_Subscribe :: "'r handler_fn \<Rightarrow> 'r Bus \<Rightarrow> ('r Bus \<Rightarrow> 'r Bus) \<times> 'r Bus" where
  "bus_Subscribe h b =
     (let i = nextID b;
          b' = b\<lparr>nextID := nextID b + 1, handlers := (handlers b)(i \<mapsto> h)\<rparr>
      in (\<lambda>b. b\<lparr>handlers := (handlers b)(i := None)\<rparr>, b'))"

definition bus_Close :: "'r Bus \<Rightarrow> 'r Bus" where
  "bus_Close b = b\<lparr>closed := True, handlers := Map.empty\<rparr>"

section \<open>Duplicated deliveries\<close>

function dup_loop :: "'r publisher \<Rightarrow> int64 \<Rightarrow> Event list \<Rightarrow> int64 \<Rightarrow> ('r, unit) act" where
  "dup_loop inner extra events i =
     (if i <s extra then and_then (inner events) (\<lambda>_. dup_loop inner extra events (i + 1)) else ret ())"
  by pat_completeness auto
termination
  by (relation "measure (\<lambda>(inner, extra, events, i). nat (sint extra - sint i))")
     (simp_all add: sint_suc_no_overflow)

declare dup_loop.simps [simp del]

definition DuplicatingPublisher :: "'r publisher \<Rightarrow> int64 \<Rightarrow> 'r publisher" where
  "DuplicatingPublisher inner extraDeliveries events =
     and_then (inner events) (\<lambda>_. dup_loop inner extraDeliveries events 0)"

section \<open>Wiring\<close>

text \<open>\<open>publisherAdapter\<close> logs an error and goes on.\<close>

definition publisherAdapter :: "'r publisher \<Rightarrow> 'r publisher" where
  "publisherAdapter pub events s =
     (case pub events s of None \<Rightarrow> None | Some (_, ms, s') \<Rightarrow> Some (Inr (), ms, s'))"

text \<open>The subscription of \<open>subscribeAndCatchUp\<close> and its first catch-up; the poll repeats it.\<close>

definition projector_handler :: "('c, 'r) Projector \<Rightarrow> 'c \<Rightarrow> 'r handler_fn" where
  "projector_handler p ctx e = and_then (ApplyEvent p ctx e) (\<lambda>_. ret ())"

definition subscribeAndCatchUp ::
  "'c \<Rightarrow> 'e Store \<Rightarrow> 'e \<Rightarrow> int64 \<Rightarrow> ('c, 'r) Projector \<Rightarrow> 'r Bus \<Rightarrow> 'r \<Rightarrow>
   ((error option \<times> 'r Bus) \<times> metric list \<times> 'r) option" where
  "subscribeAndCatchUp ctx store log batchSize p b s =
     (case bus_Subscribe (projector_handler p ctx) b of (_, b') \<Rightarrow>
      case CatchUp p ctx store log batchSize s of
        None \<Rightarrow> None
      | Some ((None, _), ms, s') \<Rightarrow> Some ((None, b'), ms, s')
      | Some ((Some err, _), ms, s') \<Rightarrow>
          Some ((Some (Errorf (''initial catch-up for '' @ Name p) err), b'), ms, s'))"

section \<open>Running the handlers\<close>

lemma for_each_Some:
  assumes "\<And>x s. x \<in> set xs \<Longrightarrow> P s \<Longrightarrow> \<exists>ms s'. f x s = Some (Inr (), ms, s') \<and> P s'" and "P s"
  shows "\<exists>ms s'. for_each f xs s = Some (Inr (), ms, s') \<and> P s'"
  using assms
proof (induction xs arbitrary: s)
  case Nil
  then show ?case by (auto simp: ret_def)
next
  case (Cons x xs)
  from Cons.prems(1) [of x s] Cons.prems(2) obtain ms s1 where
    s1: "f x s = Some (Inr (), ms, s1)" "P s1" by auto
  from Cons.IH [of s1] Cons.prems(1) s1(2) obtain ms' s2 where
    "for_each f xs s1 = Some (Inr (), ms', s2)" "P s2" by auto
  with s1 and_then_Some [of "f x" s "()" ms s1 "\<lambda>_. for_each f xs"] show ?case by auto
qed

lemma dup_loop_Some:
  assumes "\<And>s. P s \<Longrightarrow> \<exists>ms s'. inner events s = Some (Inr (), ms, s') \<and> P s'" and "P s"
  shows "\<exists>ms s'. dup_loop inner extra events i s = Some (Inr (), ms, s') \<and> P s'"
  using assms(2)
proof (induction "nat (sint extra - sint i)" arbitrary: i s rule: less_induct)
  case less
  show ?case
  proof (cases "i <s extra")
    case True
    then have "nat (sint extra - sint (i + 1)) < nat (sint extra - sint i)"
      by (simp add: sint_suc_no_overflow)
    note IH = less.hyps [OF this]
    from assms(1) [OF less.prems] obtain ms s1 where s1: "inner events s = Some (Inr (), ms, s1)" "P s1" by blast
    from IH [OF s1(2)] obtain ms' s2 where
      "dup_loop inner extra events (i + 1) s1 = Some (Inr (), ms', s2)" "P s2" by blast
    with True s1(1) show ?thesis
      by (subst dup_loop.simps) (auto simp: and_then_def)
  next
    case False
    with less.prems show ?thesis by (subst dup_loop.simps) (simp add: ret_def)
  qed
qed

end
