(* ===== verification/MemoryStore.thy ===== *)
theory MemoryStore imports EventStore begin

text \<open>
  \<open>internal/eventstore/memory/store.go\<close>: the in-process event log.  Every method holds the
  store's mutex from its first to its last line, so each is one atomic function of the state.
  The clock \<open>now\<close> is read once per successful \<open>Append\<close>: it is the sequence of its readings
  and the number of those already made.
\<close>

section \<open>State\<close>

record mem_store =
  globalSeq :: int64
  events :: "Event list"
  versions :: "stream_key \<rightharpoonup> int64"
  dedupe :: "string \<rightharpoonup> Event list"
  now :: "nat \<Rightarrow> time"
  clock_reads :: nat

definition mem_New :: "(nat \<Rightarrow> time) \<Rightarrow> mem_store" where
  "mem_New time_Now =
     \<lparr>globalSeq = 0, events = [], versions = Map.empty, dedupe = Map.empty,
      now = time_Now, clock_reads = 0\<rparr>"

definition WithClock :: "(nat \<Rightarrow> time) \<Rightarrow> mem_store \<Rightarrow> mem_store" where
  "WithClock clock s = s\<lparr>now := clock, clock_reads := 0\<rparr>"

section \<open>Operations\<close>

text \<open>The loop that validates every expected version before anything is written.\<close>

fun check_expected ::
  "(stream_key \<rightharpoonup> int64) \<Rightarrow> (stream_key \<rightharpoonup> int64) \<Rightarrow> AppendEvent list \<Rightarrow> bool" where
  "check_expected vs pending [] = True"
| "check_expected vs pending (e # toAppend) =
     (let key = append_key e;
          cur = (case pending key of Some v \<Rightarrow> v | None \<Rightarrow> go_get vs key)
      in if ExpectedVersion e \<noteq> NoVersionCheck \<and> ExpectedVersion e \<noteq> cur then False
         else check_expected vs (pending(key \<mapsto> cur + 1)) toAppend)"

text \<open>The loop that appends, with \<open>produced\<close> as its accumulator.\<close>

fun append_loop ::
  "string \<Rightarrow> time \<Rightarrow> AppendEvent list \<Rightarrow> Event list \<Rightarrow> mem_store \<Rightarrow> Event list \<times> mem_store" where
  "append_loop dedupeKey t [] produced s = (produced, s)"
| "append_loop dedupeKey t (e # toAppend) produced s =
     (let key = append_key e;
          s1 = s\<lparr>versions := (versions s)(key \<mapsto> go_get (versions s) key + 1)\<rparr>;
          s2 = s1\<lparr>globalSeq := globalSeq s1 + 1\<rparr>;
          ev = \<lparr>GlobalSeq = globalSeq s2,
                AggregateType = AppendEvent.AggregateType e,
                AggregateID = AppendEvent.AggregateID e,
                Version = go_get (versions s2) key,
                EventType = AppendEvent.EventType e,
                Payload = AppendEvent.Payload e,
                Metadata = \<lparr>DedupeKey = dedupeKey, CorrelationID = []\<rparr>,
                CreatedAt = t\<rparr>
      in append_loop dedupeKey t toAppend (produced @ [ev]) (s2\<lparr>events := events s2 @ [ev]\<rparr>))"

definition mem_Append ::
  "string \<Rightarrow> AppendEvent list \<Rightarrow> mem_store \<Rightarrow> (error + Event list \<times> bool) \<times> mem_store" where
  "mem_Append dedupeKey toAppend s =
     (case (if dedupeKey \<noteq> [] then dedupe s dedupeKey else None) of
        Some prior \<Rightarrow> (Inr (prior, True), s)
      | None \<Rightarrow>
          if \<not> check_expected (versions s) Map.empty toAppend
          then (Inl ErrVersionConflict, s)
          else
            let t = now s (clock_reads s);
                (produced, s1) = append_loop dedupeKey t toAppend [] (s\<lparr>clock_reads := clock_reads s + 1\<rparr>);
                s2 = (if dedupeKey \<noteq> []
                      then s1\<lparr>dedupe := (dedupe s1)(dedupeKey \<mapsto> produced)\<rparr> else s1)
            in (Inr (produced, False), s2))"

definition mem_LookupDedupe :: "string \<Rightarrow> mem_store \<Rightarrow> error + Event list \<times> bool" where
  "mem_LookupDedupe dedupeKey s =
     (if dedupeKey = [] then Inr ([], False)
      else case dedupe s dedupeKey of
             None \<Rightarrow> Inr ([], False)
           | Some prior \<Rightarrow> Inr (prior, True))"

definition mem_LoadStream :: "string \<Rightarrow> string \<Rightarrow> mem_store \<Rightarrow> error + Event list" where
  "mem_LoadStream aggregateType aggregateID s =
     Inr (filter (\<lambda>e. Event.AggregateType e = aggregateType \<and> Event.AggregateID e = aggregateID)
            (events s))"

fun load_since_loop :: "int64 \<Rightarrow> int64 \<Rightarrow> Event list \<Rightarrow> Event list \<Rightarrow> Event list" where
  "load_since_loop after limit [] out = out"
| "load_since_loop after limit (e # es) out =
     (if after <s GlobalSeq e then
        let out' = out @ [e] in
        if 0 <s limit \<and> limit \<le>s word_of_nat (length out') then out'
        else load_since_loop after limit es out'
      else load_since_loop after limit es out)"

definition mem_LoadSince :: "int64 \<Rightarrow> int64 \<Rightarrow> mem_store \<Rightarrow> error + Event list" where
  "mem_LoadSince afterGlobalSeq limit s = Inr (load_since_loop afterGlobalSeq limit (events s) [])"

definition mem_LatestGlobalSeq :: "mem_store \<Rightarrow> error + int64" where
  "mem_LatestGlobalSeq s = Inr (globalSeq s)"

definition memory_Store :: "mem_store Store" where
  "memory_Store =
     \<lparr>Append = mem_Append, LoadStream = mem_LoadStream, LoadSince = mem_LoadSince,
      LatestGlobalSeq = mem_LatestGlobalSeq, LookupDedupe = mem_LookupDedupe\<rparr>"

lemma memory_Store_simps [simp]:
  "Append memory_Store = mem_Append" "LoadStream memory_Store = mem_LoadStream"
  "LoadSince memory_Store = mem_LoadSince" "LatestGlobalSeq memory_Store = mem_LatestGlobalSeq"
  "LookupDedupe memory_Store = mem_LookupDedupe"
  by (simp_all add: memory_Store_def)

section \<open>The invariant of the state\<close>

text \<open>
  The caches agree with the log: \<open>versions\<close> with the length of every stream, \<open>globalSeq\<close> with
  the length of the log, \<open>dedupe\<close> with the events that carry each key.
\<close>

definition dedupe_agrees :: "(string \<rightharpoonup> Event list) \<Rightarrow> Event list \<Rightarrow> bool" where
  "dedupe_agrees d L \<longleftrightarrow> (\<forall>key. key \<noteq> [] \<longrightarrow>
     filter (\<lambda>e. DedupeKey (Metadata e) = key) L = (case d key of None \<Rightarrow> [] | Some es \<Rightarrow> es))"

definition mem_inv :: "mem_store \<Rightarrow> bool" where
  "mem_inv s \<longleftrightarrow>
     log_wf (events s) \<and>
     go_get (versions s) = stream_version (events s) \<and>
     globalSeq s = word_of_nat (length (events s)) \<and>
     map GlobalSeq (events s) = map word_of_nat [1..<Suc (length (events s))] \<and>
     dedupe_agrees (dedupe s) (events s)"

lemma mem_inv_New: "mem_inv (mem_New clock)"
  by (simp add: mem_inv_def mem_New_def dedupe_agrees_def fun_eq_iff)

lemma check_expected_eq:
  "check_expected vs pending as
   \<longleftrightarrow> versions_match (\<lambda>k. case pending k of Some v \<Rightarrow> v | None \<Rightarrow> go_get vs k) as"
proof (induction vs pending as rule: check_expected.induct)
  case (2 vs pending e toAppend)
  let ?cur = "\<lambda>k. case pending k of Some v \<Rightarrow> v | None \<Rightarrow> go_get vs k"
  have upd: "(\<lambda>k. case (pending(append_key e \<mapsto> c)) k of Some v \<Rightarrow> v | None \<Rightarrow> go_get vs k)
      = ?cur(append_key e := c)" for c
    by (simp add: fun_eq_iff)
  show ?case
  proof (cases "ExpectedVersion e \<noteq> NoVersionCheck \<and> ExpectedVersion e \<noteq> ?cur (append_key e)")
    case True
    then show ?thesis by (auto simp: Let_def)
  next
    case False
    with "2.IH" [OF refl refl False] show ?thesis
      by (auto simp: Let_def upd simp del: fun_upd_apply)
  qed
qed simp

lemma check_expected_start:
  "check_expected vs Map.empty as \<longleftrightarrow> versions_match (go_get vs) as"
  by (simp add: check_expected_eq)

text \<open>One turn of the appending loop keeps everything but \<open>dedupe\<close> in step with the log.\<close>

definition mem_core :: "mem_store \<Rightarrow> bool" where
  "mem_core s \<longleftrightarrow>
     log_wf (events s) \<and>
     go_get (versions s) = stream_version (events s) \<and>
     globalSeq s = word_of_nat (length (events s)) \<and>
     map GlobalSeq (events s) = map word_of_nat [1..<Suc (length (events s))]"

lemma mem_inv_core: "mem_inv s \<longleftrightarrow> mem_core s \<and> dedupe_agrees (dedupe s) (events s)"
  by (auto simp: mem_inv_def mem_core_def)

lemma GlobalSeq_bound:
  assumes "map GlobalSeq L = map word_of_nat [1..<Suc (length L)]" and "length L < log_capacity"
    and "x \<in> set L"
  shows "sint (GlobalSeq x) < sint (word_of_nat (Suc (length L)) :: int64)"
proof -
  from assms(3) obtain i where i: "i < length L" "x = L ! i" by (auto simp: in_set_conv_nth)
  have "map GlobalSeq L ! i = map word_of_nat [1..<Suc (length L)] ! i"
    by (simp only: assms(1))
  with i have "GlobalSeq x = word_of_nat (Suc i)"
    by (simp del: upt_Suc of_nat_Suc)
  moreover from i assms(2) have "Suc i < 2 ^ 63" "Suc (length L) < 2 ^ 63"
    by (simp_all add: log_capacity_def)
  ultimately show ?thesis
    using i(1) by (simp only: sint_word_of_nat)
qed

lemma append_loop_spec:
  assumes "mem_core s" and "length (events s) + length as \<le> log_capacity"
    and "append_loop key t as produced s = (out, s')"
  shows "\<exists>es. out = produced @ es \<and> recorded_as key (events s) as es \<and>
           events s' = events s @ es \<and> mem_core s' \<and> dedupe s' = dedupe s"
  using assms
proof (induction key t as produced s rule: append_loop.induct)
  case (1 key t produced s)
  then show ?case by auto
next
  case (2 key t a as produced s)
  define ev where "ev = \<lparr>GlobalSeq = globalSeq s + 1, AggregateType = AppendEvent.AggregateType a,
     AggregateID = AppendEvent.AggregateID a, Version = go_get (versions s) (append_key a) + 1,
     EventType = AppendEvent.EventType a, Payload = AppendEvent.Payload a,
     Metadata = \<lparr>DedupeKey = key, CorrelationID = []\<rparr>, CreatedAt = t\<rparr>"
  define s1 where "s1 = s\<lparr>versions := (versions s)(append_key a \<mapsto> go_get (versions s) (append_key a) + 1),
     globalSeq := globalSeq s + 1, events := events s @ [ev]\<rparr>"
  have core: "log_wf (events s)" "go_get (versions s) = stream_version (events s)"
    "globalSeq s = word_of_nat (length (events s))"
    "map GlobalSeq (events s) = map word_of_nat [1..<Suc (length (events s))]"
    using "2.prems"(1) by (simp_all add: mem_core_def)
  have room: "length (events s) < log_capacity" using "2.prems"(2) by simp
  have seq: "globalSeq s + 1 = word_of_nat (Suc (length (events s)))" by (simp add: core(3))
  have rec: "records key (events s) a ev"
    using GlobalSeq_bound [OF core(4) room] room
    by (auto simp: records_def ev_def event_key_def append_key_def core(2) seq sint_word_of_nat
        log_capacity_def simp del: of_nat_Suc)
  have core1: "mem_core s1"
    using log_wf_snoc [OF core(1) rec room] rec core
    by (simp add: mem_core_def s1_def stream_version_snoc records_def)
       (simp add: ev_def seq core(3))
  have "append_loop key t as (produced @ [ev]) s1 = (out, s')"
    using "2.prems"(3) by (simp add: Let_def ev_def s1_def)
  moreover have "length (events s1) + length as \<le> log_capacity"
    using "2.prems"(2) by (simp add: s1_def)
  ultimately have "\<exists>es. out = (produced @ [ev]) @ es \<and> recorded_as key (events s1) as es \<and>
      events s' = events s1 @ es \<and> mem_core s' \<and> dedupe s' = dedupe s1"
    using core1 "2.IH" [OF refl refl refl, of ev] by (simp add: ev_def s1_def Let_def)
  then obtain es where "out = (produced @ [ev]) @ es" "recorded_as key (events s1) as es"
      "events s' = events s1 @ es" "mem_core s'" "dedupe s' = dedupe s1"
    by blast
  with rec show ?case by (intro exI [of _ "ev # es"]) (simp add: s1_def)
qed

lemma load_since_loop_acc:
  "\<not> 0 <s limit \<Longrightarrow> load_since_loop after limit es out = out @ filter (\<lambda>e. after <s GlobalSeq e) es"
  by (induction es arbitrary: out) auto

lemma load_since_loop_take:
  "0 < sint limit \<Longrightarrow> length out < nat (sint limit) \<Longrightarrow> length out + length es < 2 ^ 63 \<Longrightarrow>
   load_since_loop after limit es out
   = out @ take (nat (sint limit) - length out) (filter (\<lambda>e. after <s GlobalSeq e) es)"
proof (induction es arbitrary: out)
  case (Cons e es)
  have len: "sint (word_of_nat (Suc (length out)) :: int64) = int (Suc (length out))"
    using Cons.prems by (intro sint_word_of_nat) simp
  show ?case
  proof (cases "after <s GlobalSeq e \<and> \<not> Suc (length out) < nat (sint limit)")
    case True
    with Cons.prems have "nat (sint limit) - length out = 1" "sint limit \<le> int (Suc (length out))"
      by arith+
    with True Cons.prems len show ?thesis by (simp add: Let_def del: of_nat_Suc)
  next
    case False
    with Cons.prems len Cons.IH [of out] Cons.IH [of "out @ [e]"] show ?thesis
      by (auto simp: Let_def take_Cons' simp del: of_nat_Suc)
  qed
qed simp

lemma mem_LoadSince_spec:
  "log_wf (events s) \<Longrightarrow> mem_LoadSince after limit s = Inr (events_since after limit (events s))"
  using load_since_loop_take [of limit "[]" "events s" after] log_wf_capacity [of "events s"]
  by (auto simp: mem_LoadSince_def events_since_def load_since_loop_acc Let_def)

section \<open>The store keeps the contract\<close>

lemma dedupe_agrees_append:
  assumes "dedupe_agrees d L" and "key = [] \<or> d key = None" and "\<forall>e\<in>set es. DedupeKey (Metadata e) = key"
  shows "dedupe_agrees (if key = [] then d else d(key \<mapsto> es)) (L @ es)"
proof -
  have "filter (\<lambda>e. DedupeKey (Metadata e) = k) es = (if k = key then es else [])" for k
    using assms(3) by (auto simp: filter_empty_conv filter_id_conv)
  with assms(1,2) show ?thesis by (auto simp: dedupe_agrees_def)
qed

lemma mem_append_fresh:
  assumes "mem_inv s" and "key = [] \<or> dedupe s key = None"
    and "versions_match (stream_version (events s)) as"
    and "length (events s) + length as \<le> log_capacity" and "mem_Append key as s = (r, s')"
  shows "\<exists>es. r = Inr (es, False) \<and> recorded_as key (events s) as es \<and> events s' = events s @ es \<and>
    dedupe s' = (if key = [] then dedupe s else (dedupe s)(key \<mapsto> es)) \<and> mem_inv s'"
proof -
  let ?s0 = "s\<lparr>clock_reads := clock_reads s + 1\<rparr>"
  obtain produced s1 where loop: "append_loop key (now s (clock_reads s)) as [] ?s0 = (produced, s1)"
    by fastforce
  have "mem_core ?s0" using assms(1) by (simp add: mem_inv_core mem_core_def)
  then obtain es where es: "produced = es" "recorded_as key (events s) as es"
      "events s1 = events s @ es" "mem_core s1" "dedupe s1 = dedupe s"
    using append_loop_spec [OF _ _ loop] assms(4) by auto
  have "check_expected (versions s) Map.empty as"
    using assms(1,3) by (simp add: check_expected_start mem_inv_def)
  moreover have "(if key \<noteq> [] then dedupe s key else None) = None" using assms(2) by auto
  ultimately have r: "r = Inr (es, False)"
    "s' = (if key \<noteq> [] then s1\<lparr>dedupe := (dedupe s1)(key \<mapsto> es)\<rparr> else s1)"
    using assms(5) loop es(1) by (simp_all add: mem_Append_def Let_def split: prod.splits)
  have "dedupe_agrees (if key = [] then dedupe s else (dedupe s)(key \<mapsto> es)) (events s @ es)"
    using assms(1,2) es(2) by (intro dedupe_agrees_append) (auto simp: mem_inv_def recorded_as_key)
  with es r show ?thesis by (auto simp: mem_inv_core mem_core_def)
qed

lemma mem_append_conflict:
  assumes "mem_inv s" and "key = [] \<or> dedupe s key = None"
    and "\<not> versions_match (stream_version (events s)) as" and "mem_Append key as s = (r, s')"
  shows "r = Inl ErrVersionConflict \<and> s' = s"
proof -
  have "\<not> check_expected (versions s) Map.empty as"
    using assms(1,3) by (simp add: check_expected_start mem_inv_def)
  moreover have "(if key \<noteq> [] then dedupe s key else None) = None" using assms(2) by auto
  ultimately show ?thesis using assms(4) by (simp add: mem_Append_def)
qed

lemma mem_latest:
  assumes "mem_inv s"
  shows "globalSeq s = (if events s = [] then 0 else GlobalSeq (last (events s)))"
proof (cases "events s" rule: rev_cases)
  case Nil
  with assms show ?thesis by (simp add: mem_inv_def)
next
  case (snoc L e)
  with assms show ?thesis by (simp add: mem_inv_def)
qed

interpretation mem: event_store memory_Store events dedupe mem_inv
proof (unfold_locales, goal_cases)
  case (1 s)
  then show ?case by (simp add: mem_inv_def)
next
  case (2 s key)
  then show ?case by (simp add: mem_inv_def dedupe_agrees_def)
next
  case (3 s ty aid)
  then show ?case by (simp add: mem_LoadStream_def stream_events_def event_key_def)
next
  case (4 s after limit)
  then show ?case by (simp add: mem_LoadSince_spec mem_inv_def)
next
  case (5 s)
  then show ?case by (simp add: mem_LatestGlobalSeq_def mem_latest)
next
  case (6 s key)
  then show ?case by (auto simp: mem_LookupDedupe_def split: option.splits)
next
  case (7 s key es as r s')
  then show ?case by (auto simp: mem_Append_def)
next
  case (8 s key as r s')
  then show ?case using mem_append_conflict [of s key as r s'] by simp
next
  case (9 s key as r s')
  then show ?case using mem_append_fresh [of s key as r s'] by simp
qed

end
