(* ===== verification/Service.thy ===== *)
theory Service imports Account Inventory begin

text \<open>
  \<open>internal/ledger/service.go\<close>: the command handlers.  A handler is a goroutine that calls the
  event store and the publisher several times, other goroutines acting in between, so it is
  modelled as the tree of its calls (\<open>proc\<close>): each call with what the handler does on every
  answer, down to the value it returns.  \<open>Service_Run\<close> runs one handler alone, \<open>Concurrency\<close>
  interleaves any number of them.
\<close>

section \<open>Calls and results\<close>

record Result =
  Applied :: bool
  Duplicate :: bool
  NewVersion :: int64

text \<open>
  \<open>Panic\<close> is a run-time panic: the handlers index \<open>appended[0]\<close> without a check.
\<close>

datatype proc =
    Return "error + Result"
  | Panic
  | DoLookupDedupe string "error + Event list \<times> bool \<Rightarrow> proc"
  | DoLoadStream string string "error + Event list \<Rightarrow> proc"
  | DoAppend string "AppendEvent list" "error + Event list \<times> bool \<Rightarrow> proc"
  | DoPublish "Event list" proc

text \<open>
  The service: whether it has a publisher and its retry budget.  Its store is the one the
  calls go to.
\<close>

record Service =
  HasPublisher :: bool
  MaxRetries :: int64

definition defaultMaxRetries :: int64 where "defaultMaxRetries = 8"

definition NewService :: "bool \<Rightarrow> Service" where
  "NewService publisher = \<lparr>HasPublisher = publisher, MaxRetries = defaultMaxRetries\<rparr>"

definition maxRetries :: "Service \<Rightarrow> int64" where
  "maxRetries s = (if MaxRetries s \<le>s 0 then defaultMaxRetries else MaxRetries s)"

definition publish :: "Service \<Rightarrow> Event list \<Rightarrow> proc \<Rightarrow> proc" where
  "publish s events k = (if HasPublisher s \<and> 0 < length events then DoPublish events k else k)"

definition loadAccount :: "string \<Rightarrow> (error + AccountState \<Rightarrow> proc) \<Rightarrow> proc" where
  "loadAccount accountID k =
     DoLoadStream AggregateTypeAccount accountID
       (\<lambda>r. case r of Inl err \<Rightarrow> k (Inl err) | Inr events \<Rightarrow> k (FoldAccount accountID events))"

definition loadInventory :: "string \<Rightarrow> (error + InventoryState \<Rightarrow> proc) \<Rightarrow> proc" where
  "loadInventory itemID k =
     DoLoadStream AggregateTypeInventoryItem itemID
       (\<lambda>r. case r of Inl err \<Rightarrow> k (Inl err) | Inr events \<Rightarrow> k (FoldInventory itemID events))"

fun duplicate_loop :: "Event list \<Rightarrow> string \<Rightarrow> string \<Rightarrow> Result \<Rightarrow> Result" where
  "duplicate_loop [] aggregateType aggregateID res = res"
| "duplicate_loop (e # events) aggregateType aggregateID res =
     duplicate_loop events aggregateType aggregateID
       (if Event.AggregateType e = aggregateType \<and> Event.AggregateID e = aggregateID
        then res\<lparr>NewVersion := Event.Version e\<rparr> else res)"

definition duplicateResult :: "Event list \<Rightarrow> string \<Rightarrow> string \<Rightarrow> Result" where
  "duplicateResult events aggregateType aggregateID =
     duplicate_loop events aggregateType aggregateID
       \<lparr>Applied = False, Duplicate = True, NewVersion = 0\<rparr>"

text \<open>\<open>Result{Applied: true, NewVersion: appended[0].Version}\<close>, after publishing.\<close>

definition appliedResult :: "Service \<Rightarrow> Event list \<Rightarrow> proc" where
  "appliedResult s appended = publish s appended
     (case appended of
        [] \<Rightarrow> Panic
      | e # _ \<Rightarrow> Return (Inr \<lparr>Applied = True, Duplicate = False, NewVersion = Event.Version e\<rparr>))"

section \<open>Version plans\<close>

record versionPlan =
  pinned :: bool
  pinnedValue :: int64
  maxAttempts :: int64

definition planVersion :: "Service \<Rightarrow> int64 \<Rightarrow> versionPlan" where
  "planVersion s expectedVersion =
     (if expectedVersion = NoVersionCheck
      then \<lparr>pinned = False, pinnedValue = 0, maxAttempts = maxRetries s + 1\<rparr>
      else \<lparr>pinned = True, pinnedValue = expectedVersion, maxAttempts = 1\<rparr>)"

definition expectedVersionFor :: "versionPlan \<Rightarrow> int64 \<Rightarrow> int64" where
  "expectedVersionFor p current = (if pinned p then pinnedValue p else current)"

section \<open>Account commands\<close>

definition OpenAccount :: "Service \<Rightarrow> string \<Rightarrow> int64 \<Rightarrow> string \<Rightarrow> proc" where
  "OpenAccount s accountID initialBalanceCents dedupeKey =
     (let go =
        loadAccount accountID (\<lambda>r. case r of
          Inl err \<Rightarrow> Return (Inl err)
        | Inr current \<Rightarrow>
            (case DecideOpenAccount current accountID initialBalanceCents of
               Inl err \<Rightarrow> Return (Inl err)
             | Inr event \<Rightarrow>
                 DoAppend dedupeKey
                   [\<lparr>AppendEvent.AggregateType = AggregateTypeAccount, AggregateID = accountID,
                     EventType = EventAccountOpened, Payload = marshal_AccountOpened event,
                     ExpectedVersion = StreamDoesNotExist\<rparr>]
                   (\<lambda>r. case r of
                      Inl err \<Rightarrow> Return (Inl err)
                    | Inr (appended, dup) \<Rightarrow>
                        if dup then Return (Inr (duplicateResult appended AggregateTypeAccount accountID))
                        else appliedResult s appended)))
      in if dedupeKey \<noteq> [] then
           DoLookupDedupe dedupeKey (\<lambda>r. case r of
             Inl err \<Rightarrow> Return (Inl err)
           | Inr (events, found) \<Rightarrow>
               if found then Return (Inr (duplicateResult events AggregateTypeAccount accountID)) else go)
         else go)"

function Deposit_loop ::
  "Service \<Rightarrow> string \<Rightarrow> int64 \<Rightarrow> string \<Rightarrow> string \<Rightarrow> versionPlan \<Rightarrow> int64 \<Rightarrow> proc" where
  "Deposit_loop s accountID amountCents reason dedupeKey plan attempt =
     (if attempt <s maxAttempts plan then
        loadAccount accountID (\<lambda>r. case r of
          Inl err \<Rightarrow> Return (Inl err)
        | Inr current \<Rightarrow>
            (case DecideDeposit current amountCents reason of
               Inl err \<Rightarrow> Return (Inl err)
             | Inr event \<Rightarrow>
                 DoAppend dedupeKey
                   [\<lparr>AppendEvent.AggregateType = AggregateTypeAccount, AggregateID = accountID,
                     EventType = EventFundsDeposited, Payload = marshal_FundsDeposited event,
                     ExpectedVersion = expectedVersionFor plan (AccountState.Version current)\<rparr>]
                   (\<lambda>r. case r of
                      Inl err \<Rightarrow>
                        if errors_is err ErrVersionConflict then
                          if attempt <s maxAttempts plan - 1
                          then Deposit_loop s accountID amountCents reason dedupeKey plan (attempt + 1)
                          else Return (Inl err)
                        else Return (Inl err)
                    | Inr (appended, dup) \<Rightarrow>
                        if dup then Return (Inr (duplicateResult appended AggregateTypeAccount accountID))
                        else appliedResult s appended)))
      else Return (Inl ErrVersionConflict))"
  by pat_completeness auto
termination
  by (relation "measure (\<lambda>(s, accountID, n, reason, key, plan, attempt).
        nat (sint (maxAttempts plan) - sint attempt))") (simp_all add: sint_suc_no_overflow)

definition Deposit ::
  "Service \<Rightarrow> string \<Rightarrow> int64 \<Rightarrow> string \<Rightarrow> string \<Rightarrow> int64 \<Rightarrow> proc" where
  "Deposit s accountID amountCents reason dedupeKey expectedVersion =
     (let go = Deposit_loop s accountID amountCents reason dedupeKey (planVersion s expectedVersion) 0
      in if dedupeKey \<noteq> [] then
           DoLookupDedupe dedupeKey (\<lambda>r. case r of
             Inl err \<Rightarrow> Return (Inl err)
           | Inr (events, found) \<Rightarrow>
               if found then Return (Inr (duplicateResult events AggregateTypeAccount accountID)) else go)
         else go)"

function Withdraw_loop ::
  "Service \<Rightarrow> string \<Rightarrow> int64 \<Rightarrow> string \<Rightarrow> string \<Rightarrow> versionPlan \<Rightarrow> int64 \<Rightarrow> proc" where
  "Withdraw_loop s accountID amountCents reason dedupeKey plan attempt =
     (if attempt <s maxAttempts plan then
        loadAccount accountID (\<lambda>r. case r of
          Inl err \<Rightarrow> Return (Inl err)
        | Inr current \<Rightarrow>
            (case DecideWithdraw current amountCents reason of
               Inl err \<Rightarrow> Return (Inl err)
             | Inr event \<Rightarrow>
                 DoAppend dedupeKey
                   [\<lparr>AppendEvent.AggregateType = AggregateTypeAccount, AggregateID = accountID,
                     EventType = EventFundsWithdrawn, Payload = marshal_FundsWithdrawn event,
                     ExpectedVersion = expectedVersionFor plan (AccountState.Version current)\<rparr>]
                   (\<lambda>r. case r of
                      Inl err \<Rightarrow>
                        if errors_is err ErrVersionConflict then
                          if attempt <s maxAttempts plan - 1
                          then Withdraw_loop s accountID amountCents reason dedupeKey plan (attempt + 1)
                          else Return (Inl err)
                        else Return (Inl err)
                    | Inr (appended, dup) \<Rightarrow>
                        if dup then Return (Inr (duplicateResult appended AggregateTypeAccount accountID))
                        else appliedResult s appended)))
      else Return (Inl ErrVersionConflict))"
  by pat_completeness auto
termination
  by (relation "measure (\<lambda>(s, accountID, n, reason, key, plan, attempt).
        nat (sint (maxAttempts plan) - sint attempt))") (simp_all add: sint_suc_no_overflow)

definition Withdraw ::
  "Service \<Rightarrow> string \<Rightarrow> int64 \<Rightarrow> string \<Rightarrow> string \<Rightarrow> int64 \<Rightarrow> proc" where
  "Withdraw s accountID amountCents reason dedupeKey expectedVersion =
     (let go = Withdraw_loop s accountID amountCents reason dedupeKey (planVersion s expectedVersion) 0
      in if dedupeKey \<noteq> [] then
           DoLookupDedupe dedupeKey (\<lambda>r. case r of
             Inl err \<Rightarrow> Return (Inl err)
           | Inr (events, found) \<Rightarrow>
               if found then Return (Inr (duplicateResult events AggregateTypeAccount accountID)) else go)
         else go)"

text \<open>
  The loop of \<open>Transfer\<close> has no bound in its header; the conflict branch stops it.
\<close>

function Transfer_loop ::
  "Service \<Rightarrow> string \<Rightarrow> string \<Rightarrow> int64 \<Rightarrow> string \<Rightarrow> string \<Rightarrow> int64 \<Rightarrow> proc" where
  "Transfer_loop s fromAccountID toAccountID amountCents dedupeKey reason attempt =
     loadAccount fromAccountID (\<lambda>r. case r of
       Inl err \<Rightarrow> Return (Inl err)
     | Inr from_acc \<Rightarrow>
         loadAccount toAccountID (\<lambda>r. case r of
           Inl err \<Rightarrow> Return (Inl err)
         | Inr to_acc \<Rightarrow>
             (case DecideWithdraw from_acc amountCents reason of
                Inl err \<Rightarrow> Return (Inl err)
              | Inr withdrawEvent \<Rightarrow>
                  (case DecideDeposit to_acc amountCents reason of
                     Inl err \<Rightarrow> Return (Inl err)
                   | Inr depositEvent \<Rightarrow>
                       DoAppend dedupeKey
                         [\<lparr>AppendEvent.AggregateType = AggregateTypeAccount,
                           AggregateID = fromAccountID, EventType = EventFundsWithdrawn,
                           Payload = marshal_FundsWithdrawn withdrawEvent,
                           ExpectedVersion = AccountState.Version from_acc\<rparr>,
                          \<lparr>AppendEvent.AggregateType = AggregateTypeAccount,
                           AggregateID = toAccountID, EventType = EventFundsDeposited,
                           Payload = marshal_FundsDeposited depositEvent,
                           ExpectedVersion = AccountState.Version to_acc\<rparr>]
                         (\<lambda>r. case r of
                            Inl err \<Rightarrow>
                              if errors_is err ErrVersionConflict then
                                if attempt <s maxRetries s
                                then Transfer_loop s fromAccountID toAccountID amountCents dedupeKey
                                       reason (attempt + 1)
                                else Return (Inl err)
                              else Return (Inl err)
                          | Inr (appended, dup) \<Rightarrow>
                              if dup
                              then Return (Inr (duplicateResult appended AggregateTypeAccount fromAccountID))
                              else appliedResult s appended)))))"
  by pat_completeness auto
termination
  by (relation "measure (\<lambda>(s, a, b, n, key, reason, attempt).
        nat (sint (maxRetries s) - sint attempt))") (simp_all add: sint_suc_no_overflow)

definition Transfer :: "Service \<Rightarrow> string \<Rightarrow> string \<Rightarrow> int64 \<Rightarrow> string \<Rightarrow> proc" where
  "Transfer s fromAccountID toAccountID amountCents dedupeKey =
     (if fromAccountID = toAccountID then Return (Inl ErrSameAccountTransfer)
      else
        let go = Transfer_loop s fromAccountID toAccountID amountCents dedupeKey
                   (''transfer:'' @ dedupeKey) 0
        in if dedupeKey \<noteq> [] then
             DoLookupDedupe dedupeKey (\<lambda>r. case r of
               Inl err \<Rightarrow> Return (Inl err)
             | Inr (events, found) \<Rightarrow>
                 if found then Return (Inr (duplicateResult events AggregateTypeAccount fromAccountID))
                 else go)
           else go)"

section \<open>Inventory commands\<close>

function AdjustInventory_loop ::
  "Service \<Rightarrow> string \<Rightarrow> int64 \<Rightarrow> string \<Rightarrow> string \<Rightarrow> versionPlan \<Rightarrow> int64 \<Rightarrow> proc" where
  "AdjustInventory_loop s itemID delta reason dedupeKey plan attempt =
     (if attempt <s maxAttempts plan then
        loadInventory itemID (\<lambda>r. case r of
          Inl err \<Rightarrow> Return (Inl err)
        | Inr current \<Rightarrow>
            (case DecideAdjustInventory current itemID delta reason of
               Inl err \<Rightarrow> Return (Inl err)
             | Inr event \<Rightarrow>
                 DoAppend dedupeKey
                   [\<lparr>AppendEvent.AggregateType = AggregateTypeInventoryItem, AggregateID = itemID,
                     EventType = EventInventoryAdjusted, Payload = marshal_InventoryAdjusted event,
                     ExpectedVersion = expectedVersionFor plan (InventoryState.Version current)\<rparr>]
                   (\<lambda>r. case r of
                      Inl err \<Rightarrow>
                        if errors_is err ErrVersionConflict then
                          if attempt <s maxAttempts plan - 1
                          then AdjustInventory_loop s itemID delta reason dedupeKey plan (attempt + 1)
                          else Return (Inl err)
                        else Return (Inl err)
                    | Inr (appended, dup) \<Rightarrow>
                        if dup then Return (Inr (duplicateResult appended AggregateTypeInventoryItem itemID))
                        else appliedResult s appended)))
      else Return (Inl ErrVersionConflict))"
  by pat_completeness auto
termination
  by (relation "measure (\<lambda>(s, itemID, n, reason, key, plan, attempt).
        nat (sint (maxAttempts plan) - sint attempt))") (simp_all add: sint_suc_no_overflow)

definition AdjustInventory ::
  "Service \<Rightarrow> string \<Rightarrow> int64 \<Rightarrow> string \<Rightarrow> string \<Rightarrow> int64 \<Rightarrow> proc" where
  "AdjustInventory s itemID delta reason dedupeKey expectedVersion =
     (let go = AdjustInventory_loop s itemID delta reason dedupeKey (planVersion s expectedVersion) 0
      in if dedupeKey \<noteq> [] then
           DoLookupDedupe dedupeKey (\<lambda>r. case r of
             Inl err \<Rightarrow> Return (Inl err)
           | Inr (events, found) \<Rightarrow>
               if found then Return (Inr (duplicateResult events AggregateTypeInventoryItem itemID)) else go)
         else go)"

function ReserveStock_loop ::
  "Service \<Rightarrow> string \<Rightarrow> int64 \<Rightarrow> string \<Rightarrow> string \<Rightarrow> versionPlan \<Rightarrow> int64 \<Rightarrow> proc" where
  "ReserveStock_loop s itemID quantity orderID dedupeKey plan attempt =
     (if attempt <s maxAttempts plan then
        loadInventory itemID (\<lambda>r. case r of
          Inl err \<Rightarrow> Return (Inl err)
        | Inr current \<Rightarrow>
            (case DecideReserveStock current itemID quantity orderID of
               Inl err \<Rightarrow> Return (Inl err)
             | Inr event \<Rightarrow>
                 DoAppend dedupeKey
                   [\<lparr>AppendEvent.AggregateType = AggregateTypeInventoryItem, AggregateID = itemID,
                     EventType = EventStockReserved, Payload = marshal_StockReserved event,
                     ExpectedVersion = expectedVersionFor plan (InventoryState.Version current)\<rparr>]
                   (\<lambda>r. case r of
                      Inl err \<Rightarrow>
                        if errors_is err ErrVersionConflict then
                          if attempt <s maxAttempts plan - 1
                          then ReserveStock_loop s itemID quantity orderID dedupeKey plan (attempt + 1)
                          else Return (Inl err)
                        else Return (Inl err)
                    | Inr (appended, dup) \<Rightarrow>
                        if dup then Return (Inr (duplicateResult appended AggregateTypeInventoryItem itemID))
                        else appliedResult s appended)))
      else Return (Inl ErrVersionConflict))"
  by pat_completeness auto
termination
  by (relation "measure (\<lambda>(s, itemID, n, ord, key, plan, attempt).
        nat (sint (maxAttempts plan) - sint attempt))") (simp_all add: sint_suc_no_overflow)

definition ReserveStock ::
  "Service \<Rightarrow> string \<Rightarrow> int64 \<Rightarrow> string \<Rightarrow> string \<Rightarrow> int64 \<Rightarrow> proc" where
  "ReserveStock s itemID quantity orderID dedupeKey expectedVersion =
     (let go = ReserveStock_loop s itemID quantity orderID dedupeKey (planVersion s expectedVersion) 0
      in if dedupeKey \<noteq> [] then
           DoLookupDedupe dedupeKey (\<lambda>r. case r of
             Inl err \<Rightarrow> Return (Inl err)
           | Inr (events, found) \<Rightarrow>
               if found then Return (Inr (duplicateResult events AggregateTypeInventoryItem itemID)) else go)
         else go)"

function ReleaseStock_loop ::
  "Service \<Rightarrow> string \<Rightarrow> int64 \<Rightarrow> string \<Rightarrow> string \<Rightarrow> versionPlan \<Rightarrow> int64 \<Rightarrow> proc" where
  "ReleaseStock_loop s itemID quantity orderID dedupeKey plan attempt =
     (if attempt <s maxAttempts plan then
        loadInventory itemID (\<lambda>r. case r of
          Inl err \<Rightarrow> Return (Inl err)
        | Inr current \<Rightarrow>
            (case DecideReleaseStock current itemID quantity orderID of
               Inl err \<Rightarrow> Return (Inl err)
             | Inr event \<Rightarrow>
                 DoAppend dedupeKey
                   [\<lparr>AppendEvent.AggregateType = AggregateTypeInventoryItem, AggregateID = itemID,
                     EventType = EventStockReleased, Payload = marshal_StockReleased event,
                     ExpectedVersion = expectedVersionFor plan (InventoryState.Version current)\<rparr>]
                   (\<lambda>r. case r of
                      Inl err \<Rightarrow>
                        if errors_is err ErrVersionConflict then
                          if attempt <s maxAttempts plan - 1
                          then ReleaseStock_loop s itemID quantity orderID dedupeKey plan (attempt + 1)
                          else Return (Inl err)
                        else Return (Inl err)
                    | Inr (appended, dup) \<Rightarrow>
                        if dup then Return (Inr (duplicateResult appended AggregateTypeInventoryItem itemID))
                        else appliedResult s appended)))
      else Return (Inl ErrVersionConflict))"
  by pat_completeness auto
termination
  by (relation "measure (\<lambda>(s, itemID, n, ord, key, plan, attempt).
        nat (sint (maxAttempts plan) - sint attempt))") (simp_all add: sint_suc_no_overflow)

definition ReleaseStock ::
  "Service \<Rightarrow> string \<Rightarrow> int64 \<Rightarrow> string \<Rightarrow> string \<Rightarrow> int64 \<Rightarrow> proc" where
  "ReleaseStock s itemID quantity orderID dedupeKey expectedVersion =
     (let go = ReleaseStock_loop s itemID quantity orderID dedupeKey (planVersion s expectedVersion) 0
      in if dedupeKey \<noteq> [] then
           DoLookupDedupe dedupeKey (\<lambda>r. case r of
             Inl err \<Rightarrow> Return (Inl err)
           | Inr (events, found) \<Rightarrow>
               if found then Return (Inr (duplicateResult events AggregateTypeInventoryItem itemID)) else go)
         else go)"

declare Deposit_loop.simps [simp del] Withdraw_loop.simps [simp del] Transfer_loop.simps [simp del]
  AdjustInventory_loop.simps [simp del] ReserveStock_loop.simps [simp del]
  ReleaseStock_loop.simps [simp del]

end
