(* ===== verification/Service_Run.thy ===== *)
theory Service_Run imports Service begin

text \<open>
  One handler running alone on a store.  The six handlers that write one stream have the
  same loop with a different decision; \<open>cmd\<close> is that shape, each handler is proved equal to
  an instance of it, and what a lone run does is proved once, for any store that keeps the
  contract.
\<close>

section \<open>Running a handler\<close>

text \<open>
  The value the handler returns (\<open>None\<close> for a panic), the final state of the store, and the
  batches handed to the publisher, in order.
\<close>

primrec run :: "'s Store \<Rightarrow> proc \<Rightarrow> 's \<Rightarrow> (error + Result) option \<times> 's \<times> Event list list" where
  "run S (Return r) s = (Some r, s, [])"
| "run S Panic s = (None, s, [])"
| "run S (DoLookupDedupe key f) s = run S (f (LookupDedupe S key s)) s"
| "run S (DoLoadStream ty aid f) s = run S (f (LoadStream S ty aid s)) s"
| "run S (DoAppend key as f) s = run S (f (fst (Append S key as s))) (snd (Append S key as s))"
| "run S (DoPublish es p) s = (case run S p s of (r, s', pub) \<Rightarrow> (r, s', es # pub))"

section \<open>The common shape of the one-stream handlers\<close>

type_synonym decision = "Event list \<Rightarrow> error + string \<times> payload \<times> int64"

definition append_one :: "stream_key \<Rightarrow> string \<Rightarrow> payload \<Rightarrow> int64 \<Rightarrow> AppendEvent" where
  "append_one k et p v =
     \<lparr>AppendEvent.AggregateType = fst k, AggregateID = snd k, EventType = et, Payload = p,
      ExpectedVersion = v\<rparr>"

lemma append_one_simps [simp]:
  "append_key (append_one k et p v) = k" "AppendEvent.EventType (append_one k et p v) = et"
  "AppendEvent.Payload (append_one k et p v) = p" "ExpectedVersion (append_one k et p v) = v"
  by (simp_all add: append_one_def append_key_def)

function cmd_loop ::
  "Service \<Rightarrow> stream_key \<Rightarrow> decision \<Rightarrow> string \<Rightarrow> versionPlan \<Rightarrow> int64 \<Rightarrow> proc" where
  "cmd_loop s k d key plan attempt =
     (if attempt <s maxAttempts plan then
        DoLoadStream (fst k) (snd k) (\<lambda>r. case r of
          Inl err \<Rightarrow> Return (Inl err)
        | Inr events \<Rightarrow>
            (case d events of
               Inl err \<Rightarrow> Return (Inl err)
             | Inr (et, p, v) \<Rightarrow>
                 DoAppend key [append_one k et p (expectedVersionFor plan v)]
                   (\<lambda>r. case r of
                      Inl err \<Rightarrow>
                        if errors_is err ErrVersionConflict then
                          if attempt <s maxAttempts plan - 1
                          then cmd_loop s k d key plan (attempt + 1)
                          else Return (Inl err)
                        else Return (Inl err)
                    | Inr (appended, dup) \<Rightarrow>
                        if dup then Return (Inr (duplicateResult appended (fst k) (snd k)))
                        else appliedResult s appended)))
      else Return (Inl ErrVersionConflict))"
  by pat_completeness auto
termination
  by (relation "measure (\<lambda>(s, k, d, key, plan, attempt).
        nat (sint (maxAttempts plan) - sint attempt))") (simp_all add: sint_suc_no_overflow)

declare cmd_loop.simps [simp del]

definition attempts_left :: "versionPlan \<Rightarrow> int64 \<Rightarrow> nat" where
  "attempts_left plan attempt = nat (sint (maxAttempts plan) - sint attempt)"

lemma attempts_left_decr:
  "sint a < sint (maxAttempts plan) \<Longrightarrow> attempts_left plan (a + 1) < attempts_left plan a"
  by (simp add: attempts_left_def sint_suc_no_overflow)

definition cmd :: "Service \<Rightarrow> stream_key \<Rightarrow> decision \<Rightarrow> string \<Rightarrow> versionPlan \<Rightarrow> proc" where
  "cmd s k d key plan =
     (let go = cmd_loop s k d key plan 0
      in if key \<noteq> [] then
           DoLookupDedupe key (\<lambda>r. case r of
             Inl err \<Rightarrow> Return (Inl err)
           | Inr (events, found) \<Rightarrow>
               if found then Return (Inr (duplicateResult events (fst k) (snd k))) else go)
         else go)"

lemma cmd_pair:
  "cmd s (t, i) d key plan =
     (let go = cmd_loop s (t, i) d key plan 0
      in if key \<noteq> [] then
           DoLookupDedupe key (\<lambda>r. case r of
             Inl err \<Rightarrow> Return (Inl err)
           | Inr (events, found) \<Rightarrow>
               if found then Return (Inr (duplicateResult events t i)) else go)
         else go)"
  unfolding cmd_def fst_conv snd_conv ..

text \<open>The decision each handler takes on the events of its stream.\<close>

definition account_decision ::
  "string \<Rightarrow> (AccountState \<Rightarrow> error + 'e) \<Rightarrow> string \<Rightarrow> ('e \<Rightarrow> payload) \<Rightarrow> decision" where
  "account_decision i dec et m events =
     (case FoldAccount i events of
        Inl err \<Rightarrow> Inl err
      | Inr current \<Rightarrow>
          (case dec current of
             Inl err \<Rightarrow> Inl err
           | Inr ev \<Rightarrow> Inr (et, m ev, AccountState.Version current)))"

definition inventory_decision ::
  "string \<Rightarrow> (InventoryState \<Rightarrow> error + 'e) \<Rightarrow> string \<Rightarrow> ('e \<Rightarrow> payload) \<Rightarrow> decision" where
  "inventory_decision i dec et m events =
     (case FoldInventory i events of
        Inl err \<Rightarrow> Inl err
      | Inr current \<Rightarrow>
          (case dec current of
             Inl err \<Rightarrow> Inl err
           | Inr ev \<Rightarrow> Inr (et, m ev, InventoryState.Version current)))"

definition open_decision :: "string \<Rightarrow> int64 \<Rightarrow> decision" where
  "open_decision i n events =
     account_decision i (\<lambda>st. DecideOpenAccount st i n) EventAccountOpened marshal_AccountOpened events"
definition deposit_decision :: "string \<Rightarrow> int64 \<Rightarrow> string \<Rightarrow> decision" where
  "deposit_decision i n reason events =
     account_decision i (\<lambda>st. DecideDeposit st n reason) EventFundsDeposited marshal_FundsDeposited events"
definition withdraw_decision :: "string \<Rightarrow> int64 \<Rightarrow> string \<Rightarrow> decision" where
  "withdraw_decision i n reason events =
     account_decision i (\<lambda>st. DecideWithdraw st n reason) EventFundsWithdrawn marshal_FundsWithdrawn events"
definition adjust_decision :: "string \<Rightarrow> int64 \<Rightarrow> string \<Rightarrow> decision" where
  "adjust_decision i d reason events =
     inventory_decision i (\<lambda>st. DecideAdjustInventory st i d reason) EventInventoryAdjusted
       marshal_InventoryAdjusted events"
definition reserve_decision :: "string \<Rightarrow> int64 \<Rightarrow> string \<Rightarrow> decision" where
  "reserve_decision i q ord events =
     inventory_decision i (\<lambda>st. DecideReserveStock st i q ord) EventStockReserved marshal_StockReserved events"
definition release_decision :: "string \<Rightarrow> int64 \<Rightarrow> string \<Rightarrow> decision" where
  "release_decision i q ord events =
     inventory_decision i (\<lambda>st. DecideReleaseStock st i q ord) EventStockReleased marshal_StockReleased events"

lemmas decision_defs =
  open_decision_def deposit_decision_def withdraw_decision_def adjust_decision_def
  reserve_decision_def release_decision_def

lemmas loop_eq_simps =
  loadAccount_def loadInventory_def account_decision_def inventory_decision_def append_one_def

lemma Deposit_loop_cmd:
  assumes D: "\<And>events. D events = deposit_decision i n reason events"
  shows "Deposit_loop s i n reason key plan a = cmd_loop s (AggregateTypeAccount, i) D key plan a"
proof (induction "attempts_left plan a" arbitrary: a rule: less_induct)
  case less
  show ?case
    by (subst Deposit_loop.simps, subst cmd_loop.simps)
       (auto simp: loop_eq_simps D deposit_decision_def less attempts_left_decr fun_eq_iff split: sum.splits)
qed

lemma Withdraw_loop_cmd:
  assumes D: "\<And>events. D events = withdraw_decision i n reason events"
  shows "Withdraw_loop s i n reason key plan a = cmd_loop s (AggregateTypeAccount, i) D key plan a"
proof (induction "attempts_left plan a" arbitrary: a rule: less_induct)
  case less
  show ?case
    by (subst Withdraw_loop.simps, subst cmd_loop.simps)
       (auto simp: loop_eq_simps D withdraw_decision_def less attempts_left_decr fun_eq_iff split: sum.splits)
qed

lemma AdjustInventory_loop_cmd:
  assumes D: "\<And>events. D events = adjust_decision i d reason events"
  shows "AdjustInventory_loop s i d reason key plan a = cmd_loop s (AggregateTypeInventoryItem, i) D key plan a"
proof (induction "attempts_left plan a" arbitrary: a rule: less_induct)
  case less
  show ?case
    by (subst AdjustInventory_loop.simps, subst cmd_loop.simps)
       (auto simp: loop_eq_simps D adjust_decision_def less attempts_left_decr fun_eq_iff split: sum.splits)
qed

lemma ReserveStock_loop_cmd:
  assumes D: "\<And>events. D events = reserve_decision i q ord events"
  shows "ReserveStock_loop s i q ord key plan a = cmd_loop s (AggregateTypeInventoryItem, i) D key plan a"
proof (induction "attempts_left plan a" arbitrary: a rule: less_induct)
  case less
  show ?case
    by (subst ReserveStock_loop.simps, subst cmd_loop.simps)
       (auto simp: loop_eq_simps D reserve_decision_def less attempts_left_decr fun_eq_iff split: sum.splits)
qed

lemma ReleaseStock_loop_cmd:
  assumes D: "\<And>events. D events = release_decision i q ord events"
  shows "ReleaseStock_loop s i q ord key plan a = cmd_loop s (AggregateTypeInventoryItem, i) D key plan a"
proof (induction "attempts_left plan a" arbitrary: a rule: less_induct)
  case less
  show ?case
    by (subst ReleaseStock_loop.simps, subst cmd_loop.simps)
       (auto simp: loop_eq_simps D release_decision_def less attempts_left_decr fun_eq_iff split: sum.splits)
qed

text \<open>\<open>OpenAccount\<close> makes one attempt, pinned to the version of a stream without events.\<close>

definition open_plan :: versionPlan where
  "open_plan = \<lparr>pinned = True, pinnedValue = StreamDoesNotExist, maxAttempts = 1\<rparr>"

lemma OpenAccount_cmd:
  "OpenAccount s i n key = cmd s (AggregateTypeAccount, i) (open_decision i n) key open_plan"
proof -
  have "loadAccount i (\<lambda>r. case r of
          Inl err \<Rightarrow> Return (Inl err)
        | Inr current \<Rightarrow>
            (case DecideOpenAccount current i n of
               Inl err \<Rightarrow> Return (Inl err)
             | Inr event \<Rightarrow>
                 DoAppend key
                   [\<lparr>AppendEvent.AggregateType = AggregateTypeAccount, AggregateID = i,
                     EventType = EventAccountOpened, Payload = marshal_AccountOpened event,
                     ExpectedVersion = StreamDoesNotExist\<rparr>]
                   (\<lambda>r. case r of
                      Inl err \<Rightarrow> Return (Inl err)
                    | Inr (appended, dup) \<Rightarrow>
                        if dup then Return (Inr (duplicateResult appended AggregateTypeAccount i))
                        else appliedResult s appended)))
    = cmd_loop s (AggregateTypeAccount, i) (open_decision i n) key open_plan 0"
    by (subst cmd_loop.simps)
       (auto simp: loop_eq_simps open_decision_def open_plan_def expectedVersionFor_def fun_eq_iff
         split: sum.splits)
  then show ?thesis by (simp add: OpenAccount_def cmd_pair Let_def)
qed

lemma one_stream_handlers:
  "Deposit s i n reason key v
   = cmd s (AggregateTypeAccount, i) (deposit_decision i n reason) key (planVersion s v)"
  "Withdraw s i n reason key v
   = cmd s (AggregateTypeAccount, i) (withdraw_decision i n reason) key (planVersion s v)"
  "AdjustInventory s i d reason key v
   = cmd s (AggregateTypeInventoryItem, i) (adjust_decision i d reason) key (planVersion s v)"
  "ReserveStock s i q ord key v
   = cmd s (AggregateTypeInventoryItem, i) (reserve_decision i q ord) key (planVersion s v)"
  "ReleaseStock s i q ord key v
   = cmd s (AggregateTypeInventoryItem, i) (release_decision i q ord) key (planVersion s v)"
  by (simp_all add: Deposit_def Withdraw_def AdjustInventory_def ReserveStock_def ReleaseStock_def
      cmd_pair Deposit_loop_cmd [OF refl] Withdraw_loop_cmd [OF refl] AdjustInventory_loop_cmd [OF refl]
      ReserveStock_loop_cmd [OF refl] ReleaseStock_loop_cmd [OF refl])

section \<open>What a lone run does\<close>

text \<open>
  \<open>versioned k d\<close>: when \<open>d\<close> accepts, the version it reports is that of the stream it read.
\<close>

definition versioned :: "stream_key \<Rightarrow> decision \<Rightarrow> bool" where
  "versioned k d \<longleftrightarrow>
     (\<forall>L et p v. log_wf L \<longrightarrow> d (stream_events L k) = Inr (et, p, v) \<longrightarrow> v = stream_version L k)"

lemma versioned_decisions [simp]:
  "versioned k (open_decision i n)" "versioned k (deposit_decision i n reason)"
  "versioned k (withdraw_decision i n reason)" "versioned k (adjust_decision i d reason)"
  "versioned k (reserve_decision i q ord)" "versioned k (release_decision i q ord)"
proof -
  have account: "versioned k (account_decision i dec et m)" for dec and m :: "'e \<Rightarrow> payload" and et
    by (auto simp: versioned_def account_decision_def split: sum.splits
        dest!: FoldAccount_version) (simp_all add: last_version [symmetric])
  have inventory: "versioned k (inventory_decision i dec et m)" for dec and m :: "'e \<Rightarrow> payload" and et
    by (auto simp: versioned_def inventory_decision_def split: sum.splits
        dest!: FoldInventory_version) (simp_all add: last_version [symmetric])
  show "versioned k (open_decision i n)" "versioned k (deposit_decision i n reason)"
    "versioned k (withdraw_decision i n reason)" "versioned k (adjust_decision i d reason)"
    "versioned k (reserve_decision i q ord)" "versioned k (release_decision i q ord)"
    using account inventory by (simp_all add: versioned_def decision_defs)
qed

definition unused_key :: "(string \<rightharpoonup> Event list) \<Rightarrow> string \<Rightarrow> bool" where
  "unused_key d key \<longleftrightarrow> key = [] \<or> d key = None"

context event_store
begin

lemma run_cmd_duplicate:
  "inv s \<Longrightarrow> key \<noteq> [] \<Longrightarrow> seen s key = Some es \<Longrightarrow>
   run S (cmd sv k d key plan) s = (Some (Inr (duplicateResult es (fst k) (snd k))), s, [])"
  by (simp add: cmd_def lookup)

lemma run_cmd_fresh:
  "inv s \<Longrightarrow> unused_key (seen s) key \<Longrightarrow>
   run S (cmd sv k d key plan) s = run S (cmd_loop sv k d key plan 0) s"
  by (auto simp: cmd_def lookup unused_key_def Let_def)

lemma run_loop_rejected:
  "inv s \<Longrightarrow> a <s maxAttempts plan \<Longrightarrow> d (stream_events (log s) k) = Inl err \<Longrightarrow>
   run S (cmd_loop sv k d key plan a) s = (Some (Inl err), s, [])"
  by (subst cmd_loop.simps) (simp add: load_stream)

lemma run_loop_applied:
  assumes "inv s" and "unused_key (seen s) key" and "length (log s) < log_capacity"
    and "a <s maxAttempts plan" and "d (stream_events (log s) k) = Inr (et, p, v)"
    and "expectedVersionFor plan v \<in> {NoVersionCheck, stream_version (log s) k}"
  shows "\<exists>e s'. run S (cmd_loop sv k d key plan a) s
      = (Some (Inr \<lparr>Applied = True, Duplicate = False, NewVersion = stream_version (log s) k + 1\<rparr>),
         s', if HasPublisher sv then [[e]] else []) \<and>
    records key (log s) (append_one k et p (expectedVersionFor plan v)) e \<and>
    log s' = log s @ [e] \<and> seen s' = (if key = [] then seen s else (seen s)(key \<mapsto> [e])) \<and> inv s'"
proof -
  let ?as = "[append_one k et p (expectedVersionFor plan v)]"
  obtain r s' where app: "Append S key ?as s = (r, s')" by fastforce
  have "key = [] \<or> seen s key = None" "versions_match (stream_version (log s)) ?as"
    "length (log s) + length ?as \<le> log_capacity"
    using assms by (auto simp: unused_key_def)
  from append_fresh [OF assms(1) this app] obtain e where
    "r = Inr ([e], False)" "records key (log s) (hd ?as) e" "log s' = log s @ [e]"
    "seen s' = (if key = [] then seen s else (seen s)(key \<mapsto> [e]))" "inv s'"
    by (auto simp: neq_Nil_conv elim!: recorded_as.elims)
  moreover from this have "Event.Version e = stream_version (log s) k + 1"
    by (simp add: records_def)
  ultimately show ?thesis
    using assms(1,4,5) app
    by (subst cmd_loop.simps) (auto simp: load_stream appliedResult_def publish_def)
qed

lemma run_loop_conflict:
  assumes "inv s" and "unused_key (seen s) key"
    and "a <s maxAttempts plan" and "\<not> a <s maxAttempts plan - 1"
    and "d (stream_events (log s) k) = Inr (et, p, v)"
    and "expectedVersionFor plan v \<notin> {NoVersionCheck, stream_version (log s) k}"
  shows "\<exists>s'. run S (cmd_loop sv k d key plan a) s = (Some (Inl ErrVersionConflict), s', []) \<and>
    log s' = log s \<and> seen s' = seen s \<and> inv s'"
proof -
  let ?as = "[append_one k et p (expectedVersionFor plan v)]"
  obtain r s' where app: "Append S key ?as s = (r, s')" by fastforce
  have "key = [] \<or> seen s key = None" "\<not> versions_match (stream_version (log s)) ?as"
    using assms by (auto simp: unused_key_def)
  from append_conflict [OF assms(1) this app] show ?thesis
    using assms(1,3,4,5) app by (subst cmd_loop.simps) (auto simp: load_stream)
qed

end

end
