(* ===== verification/Concurrency.thy ===== *)
theory Concurrency imports Service_Run begin

text \<open>
  Any number of handlers at work on one store.  A step is a new request, or one handler making
  its next call; which handler moves is not determined.  The section proves what the
  optimistic-concurrency protocol guarantees of the log: every event was accepted by the
  decision of its kind on the stream it was appended to.
\<close>

section \<open>Legal logs\<close>

definition decides :: "stream_key \<Rightarrow> Event list \<Rightarrow> string \<Rightarrow> payload \<Rightarrow> bool" where
  "decides k h et p \<longleftrightarrow>
     (if fst k = AggregateTypeAccount then account_decides (snd k) h et p
      else if fst k = AggregateTypeInventoryItem then inventory_decides (snd k) h et p
      else False)"

definition event_allowed :: "Event list \<Rightarrow> Event \<Rightarrow> bool" where
  "event_allowed L e \<longleftrightarrow>
     decides (event_key e) (stream_events L (event_key e)) (Event.EventType e) (Event.Payload e)"

fun batch_allowed :: "Event list \<Rightarrow> Event list \<Rightarrow> bool" where
  "batch_allowed L [] \<longleftrightarrow> True"
| "batch_allowed L (e # es) \<longleftrightarrow> event_allowed L e \<and> batch_allowed (L @ [e]) es"

inductive legal_log :: "Event list \<Rightarrow> bool" where
  empty_log: "legal_log []"
| extend_log: "legal_log L \<Longrightarrow> event_allowed L e \<Longrightarrow> legal_log (L @ [e])"

lemma legal_log_append: "legal_log L \<Longrightarrow> batch_allowed L es \<Longrightarrow> legal_log (L @ es)"
proof (induction L es rule: batch_allowed.induct)
  case (2 L e es)
  then have "legal_log (L @ [e])" by (auto intro: extend_log)
  with 2 show ?case by auto
qed simp

lemma legal_log_account:
  "legal_log L \<Longrightarrow> account_history i (stream_events L (AggregateTypeAccount, i))"
  by (induction rule: legal_log.induct)
     (auto intro: account_history.intros simp: event_allowed_def decides_def)

lemma legal_log_inventory:
  "legal_log L \<Longrightarrow> inventory_history i (stream_events L (AggregateTypeInventoryItem, i))"
  by (induction rule: legal_log.induct)
     (auto intro: inventory_history.intros simp: event_allowed_def decides_def)

section \<open>Safe handlers\<close>

text \<open>
  What the store may answer when the log has become \<open>L\<close>: the events it returns are in the log
  and carry the dedupe key, and an \<open>Append\<close> that is no duplicate has recorded its batch.
\<close>

definition lookup_answer :: "Event list \<Rightarrow> string \<Rightarrow> error + Event list \<times> bool \<Rightarrow> bool" where
  "lookup_answer L key r \<longleftrightarrow>
     (\<forall>es found. r = Inr (es, found) \<longrightarrow> set es \<subseteq> {e \<in> set L. DedupeKey (Metadata e) = key})"

definition append_answer ::
  "Event list \<Rightarrow> string \<Rightarrow> AppendEvent list \<Rightarrow> error + Event list \<times> bool \<Rightarrow> bool" where
  "append_answer L key as r \<longleftrightarrow> lookup_answer L key r \<and>
     (\<forall>es. r = Inr (es, False) \<longrightarrow> (\<exists>L0. recorded_as key L0 as es))"

text \<open>
  A request: the stream its result is about and its dedupe key.  \<open>acknowledges q L res\<close>: the
  version a result reports is that of an event in the log, in the request's stream and with
  its key; only a duplicate that recorded no event in the stream reports 0 instead.
\<close>

type_synonym request = "stream_key \<times> string"

definition acknowledges :: "request \<Rightarrow> Event list \<Rightarrow> Result \<Rightarrow> bool" where
  "acknowledges q L res \<longleftrightarrow> Applied res = (\<not> Duplicate res) \<and>
     ((\<exists>e\<in>set L. event_key e = fst q \<and> DedupeKey (Metadata e) = snd q \<and>
        Event.Version e = NewVersion res) \<or> Duplicate res \<and> NewVersion res = 0)"

text \<open>
  \<open>safe q L p\<close>: from any log that extends \<open>L\<close>, whatever other handlers append between the calls
  of \<open>p\<close>, every batch that \<open>p\<close> gets accepted is allowed by the decisions on the log it lands
  on, its calls carry the key of the request, no batch has more than two events, what it publishes
  is in the log, its result is acknowledged by the log, and \<open>p\<close> does not panic.
\<close>

primrec safe :: "request \<Rightarrow> Event list \<Rightarrow> proc \<Rightarrow> bool" where
  "safe q L (Return r) \<longleftrightarrow> (\<forall>res. r = Inr res \<longrightarrow> acknowledges q L res)"
| "safe q L Panic \<longleftrightarrow> False"
| "safe q L (DoLookupDedupe key f) \<longleftrightarrow> key = snd q \<and>
     (\<forall>L' r. prefix L L' \<longrightarrow> log_wf L' \<longrightarrow> lookup_answer L' key r \<longrightarrow> safe q L' (f r))"
| "safe q L (DoLoadStream ty aid f) \<longleftrightarrow>
     (\<forall>L'. prefix L L' \<longrightarrow> log_wf L' \<longrightarrow> safe q L' (f (Inr (stream_events L' (ty, aid)))))"
| "safe q L (DoAppend key as f) \<longleftrightarrow> key = snd q \<and> length as \<le> 2 \<and>
     (\<forall>L' es. prefix L L' \<longrightarrow> log_wf L' \<longrightarrow> versions_match (stream_version L') as \<longrightarrow>
        recorded_as key L' as es \<longrightarrow> batch_allowed L' es) \<and>
     (\<forall>L' r. prefix L L' \<longrightarrow> log_wf L' \<longrightarrow> append_answer L' key as r \<longrightarrow> safe q L' (f r))"
| "safe q L (DoPublish es p) \<longleftrightarrow> set es \<subseteq> set L \<and> safe q L p"

lemma acknowledges_extends: "acknowledges q L res \<Longrightarrow> prefix L L' \<Longrightarrow> acknowledges q L' res"
  by (auto simp: acknowledges_def dest: set_mono_prefix)

lemma safe_extends: "safe q L p \<Longrightarrow> prefix L L' \<Longrightarrow> safe q L' p"
  by (induction p) (auto intro: prefix_order.trans acknowledges_extends dest: set_mono_prefix)

text \<open>The two ways a handler ends well.\<close>

lemma duplicate_loop_version:
  "duplicate_loop es t i res = res\<lparr>NewVersion :=
     (if stream_events es (t, i) = [] then NewVersion res
      else Event.Version (last (stream_events es (t, i))))\<rparr>"
  by (induction es t i res rule: duplicate_loop.induct) (auto simp: event_key_def)

lemma duplicateResult_eq:
  "duplicateResult es t i = \<lparr>Applied = False, Duplicate = True, NewVersion =
     (if stream_events es (t, i) = [] then 0 else Event.Version (last (stream_events es (t, i))))\<rparr>"
  by (simp add: duplicateResult_def duplicate_loop_version)

lemma safe_duplicateResult:
  assumes "lookup_answer L key (Inr (es, found))"
  shows "acknowledges (k, key) L (duplicateResult es (fst k) (snd k))"
proof (cases "stream_events es k" rule: rev_cases)
  case Nil
  then show ?thesis by (simp add: duplicateResult_eq acknowledges_def)
next
  case (snoc h e)
  then have "e \<in> set es" "event_key e = k"
    using set_stream_events [of e es k] by auto
  with snoc assms show ?thesis
    by (auto simp: duplicateResult_eq acknowledges_def lookup_answer_def)
qed

lemma safe_appliedResult:
  assumes "append_answer L key (a # as) (Inr (es, False))" and "append_key a = k"
  shows "safe (k, key) L (appliedResult s es)"
proof -
  from assms(1) obtain L0 e es' where "es = e # es'" "records key L0 a e"
    unfolding append_answer_def by (cases es) auto
  with assms have "acknowledges (k, key) L
      \<lparr>Applied = True, Duplicate = False, NewVersion = Event.Version e\<rparr>"
    by (auto simp: acknowledges_def append_answer_def lookup_answer_def records_def)
  moreover have "set es \<subseteq> set L" using assms(1) by (auto simp: append_answer_def lookup_answer_def)
  ultimately show ?thesis using \<open>es = e # es'\<close> by (auto simp: appliedResult_def publish_def)
qed

definition sound :: "stream_key \<Rightarrow> decision \<Rightarrow> bool" where
  "sound k d \<longleftrightarrow> versioned k d \<and>
     (\<forall>h et p v. d h = Inr (et, p, v) \<longrightarrow> decides k h et p)"

lemma sound_decisions [simp]:
  "sound (AggregateTypeAccount, i) (open_decision i n)"
  "sound (AggregateTypeAccount, i) (deposit_decision i n reason)"
  "sound (AggregateTypeAccount, i) (withdraw_decision i n reason)"
  "sound (AggregateTypeInventoryItem, i) (adjust_decision i d reason)"
  "sound (AggregateTypeInventoryItem, i) (reserve_decision i q ord)"
  "sound (AggregateTypeInventoryItem, i) (release_decision i q ord)"
  by (auto simp: sound_def decides_def decision_defs account_decision_def inventory_decision_def
      intro: account_decides.intros inventory_decides.intros split: sum.splits)

text \<open>
  A plan that sends the version it has read, or requires a stream without events, lands its
  batch on the stream the decision was taken on.
\<close>

definition plan_ok :: "versionPlan \<Rightarrow> bool" where
  "plan_ok plan \<longleftrightarrow> pinned plan \<longrightarrow> pinnedValue plan = StreamDoesNotExist"

lemma plans_ok [simp]: "plan_ok (planVersion s NoVersionCheck)" "plan_ok open_plan"
  by (simp_all add: plan_ok_def planVersion_def open_plan_def)

lemma stream_version_nonneg: "log_wf L \<Longrightarrow> 0 \<le> sint (stream_version L k)"
  by (simp add: stream_version_sint)

lemma stream_version_checked: "log_wf L \<Longrightarrow> stream_version L k \<noteq> NoVersionCheck"
  using stream_version_nonneg [of L k] by (auto simp: NoVersionCheck_def)

lemma stream_version_zero: "log_wf L \<Longrightarrow> stream_version L k = 0 \<longleftrightarrow> stream_events L k = []"
  using stream_version_sint [of L k] by (auto simp: stream_version_def)

lemma plan_ok_same_stream:
  assumes "plan_ok plan" and "prefix L L'" and "log_wf L" and "log_wf L'"
    and "expectedVersionFor plan (stream_version L k) \<in> {NoVersionCheck, stream_version L' k}"
  shows "stream_events L' k = stream_events L k"
proof (cases "pinned plan")
  case True
  with assms have "stream_events L' k = []"
    by (auto simp: plan_ok_def expectedVersionFor_def StreamDoesNotExist_def NoVersionCheck_def
        stream_version_zero eq_commute [of 0])
  with stream_events_prefix [OF assms(2), of k] show ?thesis by simp
next
  case False
  with assms have "stream_version L k = stream_version L' k"
    by (auto simp: expectedVersionFor_def stream_version_checked)
  with same_version_same_stream [OF assms(2-4)] show ?thesis by simp
qed

text \<open>The decision a handler took on the log it read still holds on the log its batch lands on.\<close>

lemma sound_lands:
  assumes "sound k d" and "plan_ok plan" and "prefix L1 L2" and "log_wf L1" and "log_wf L2"
    and "d (stream_events L1 k) = Inr (et, p, v)"
    and "expectedVersionFor plan v = NoVersionCheck \<or> expectedVersionFor plan v = stream_version L2 k"
  shows "decides k (stream_events L2 k) et p"
proof -
  from assms have v: "v = stream_version L1 k" "decides k (stream_events L1 k) et p"
    unfolding sound_def versioned_def by blast+
  with assms have "stream_events L2 k = stream_events L1 k"
    by (intro plan_ok_same_stream) auto
  with v show ?thesis by simp
qed

lemma recorded_one: "recorded_as key L [a] es \<longleftrightarrow> (\<exists>e. es = [e] \<and> records key L a e)"
  by (cases es) auto

lemma recorded_two:
  "recorded_as key L [a, b] es \<longleftrightarrow>
   (\<exists>e f. es = [e, f] \<and> records key L a e \<and> records key (L @ [e]) b f)"
  by (cases es rule: list.exhaust; cases "tl es") auto

lemma append_answer_dup:
  "append_answer L key as (Inr (es, True)) \<Longrightarrow> lookup_answer L key (Inr (es, True))"
  by (simp add: append_answer_def)

lemma safe_cmd_loop:
  assumes "sound k d" and "plan_ok plan"
  shows "safe (k, key) L (cmd_loop s k d key plan a)"
proof (induction "attempts_left plan a" arbitrary: a L rule: less_induct)
  case less
  have lands: "batch_allowed L2 es"
    if "prefix L1 L2" "log_wf L1" "log_wf L2" "d (stream_events L1 k) = Inr (et, p, v)"
      "versions_match (stream_version L2) [append_one k et p (expectedVersionFor plan v)]"
      "recorded_as key L2 [append_one k et p (expectedVersionFor plan v)] es" for L1 L2 et p v es
    using that sound_lands [OF assms that(1-4)]
    by (auto simp: recorded_one records_def event_allowed_def)
  show ?case
    by (subst cmd_loop.simps)
       (auto simp: less attempts_left_decr
         simp del: versions_match.simps recorded_as.simps split: sum.splits
         intro!: safe_appliedResult intro: lands safe_duplicateResult append_answer_dup)
qed

lemma safe_cmd:
  "sound k d \<Longrightarrow> plan_ok plan \<Longrightarrow> q = (k, key) \<Longrightarrow> safe q L (cmd s k d key plan)"
  by (auto simp: cmd_def Let_def safe_cmd_loop split: sum.splits intro: safe_duplicateResult)

end
