(* ===== verification/Projection.thy ===== *)
theory Projection imports Projector MemoryStore Concurrency begin

text \<open>
  What a projector does to its views, for any read-model store that keeps the contract
  \<open>read_model\<close> and any applier that keeps the contract \<open>projection\<close>; and what \<open>CatchUp\<close>
  does on any event store that keeps the contract \<open>event_log\<close>.  Both projectors of the
  program are instances.
\<close>

section \<open>The checkpoint as a filter\<close>

text \<open>
  The events of a sequence of deliveries that get past the checkpoint.
\<close>

fun accepted :: "int64 \<Rightarrow> Event list \<Rightarrow> Event list" where
  "accepted ckpt [] = []"
| "accepted ckpt (e # ds) =
     (if GlobalSeq e \<le>s ckpt then accepted ckpt ds else e # accepted (GlobalSeq e) ds)"

lemma accepted_sorted:
  "sorted_wrt (<) (map (\<lambda>e. sint (GlobalSeq e)) ds) \<Longrightarrow> \<forall>e\<in>set ds. ckpt <s GlobalSeq e \<Longrightarrow>
   accepted ckpt ds = ds"
  by (induction ds arbitrary: ckpt) auto

lemma accepted_increasing:
  "sorted_wrt (<) (map (\<lambda>e. sint (GlobalSeq e)) (accepted ckpt ds)) \<and>
   (\<forall>e\<in>set (accepted ckpt ds). ckpt <s GlobalSeq e \<and> e \<in> set ds)"
  by (induction ds arbitrary: ckpt) (auto simp: not_le intro: less_trans)

section \<open>The contract of a projection\<close>

text \<open>
  \<open>rows L vs\<close>: the views \<open>vs\<close> hold what the events \<open>L\<close> amount to; \<open>good L\<close>: the events can be
  folded at all; \<open>keeps vs\<close>: the part of the views the projection has nothing to do with.
\<close>

locale projection = read_model R views usable outside stamp ok_id ok_time
  for R :: "('c, 's) ReadModelStore" and views and usable and outside and stamp and ok_id and ok_time +
  fixes p :: "('c, 's) Projector"
    and rows :: "Event list \<Rightarrow> views \<Rightarrow> bool"
    and good :: "Event list \<Rightarrow> bool"
    and keeps :: "views \<Rightarrow> 'v"
  assumes read_models: "ReadModels p = R"
    and name_ok: "ok_id (Name p)"
    and good_append: "good (L @ M) \<Longrightarrow> good L"
    and rows_checkpoints: "rows L (vs\<lparr>checkpoints := cps\<rparr>) = rows L vs"
    and keeps_checkpoints: "keeps (vs\<lparr>checkpoints := cps\<rparr>) = keeps vs"
    and rows_irrelevant: "\<not> Relevant (Applier p) e \<Longrightarrow> rows L vs \<Longrightarrow> rows (L @ [e]) vs"
    and rows_apply: "Relevant (Applier p) e \<Longrightarrow> usable c s \<Longrightarrow> rows L (views s) \<Longrightarrow> good (L @ [e]) \<Longrightarrow>
      \<exists>s'. Apply (Applier p) c e s = Some (Inr (), [], s') \<and> usable c s' \<and> rows (L @ [e]) (views s') \<and>
        checkpoints (views s') = checkpoints (views s) \<and> keeps (views s') = keeps (views s)"
begin

abbreviation cp :: "'s \<Rightarrow> int64" where
  "cp s \<equiv> go_get (checkpoints (views s)) (Name p)"

lemma ApplyEvent_tx:
  assumes "outside c s"
  obtains c' s1 where "usable c' s1" and "views s1 = views s"
    and "\<And>x ms s2. apply_tx p e c' s1 = Some (Inr x, ms, s2) \<Longrightarrow> usable c' s2 \<Longrightarrow>
      \<exists>s'. ApplyEvent p c e s = Some (Inr x, ms, s') \<and> outside c s' \<and> views s' = views s2"
proof -
  from with_tx [OF assms, of "apply_tx p e"] obtain c' s1 where "usable c' s1" "views s1 = views s"
    and tx: "\<forall>r ms s2. apply_tx p e c' s1 = Some (r, ms, s2) \<longrightarrow> usable c' s2 \<longrightarrow>
      (\<exists>s'. WithTx R c (apply_tx p e) s = Some (r, ms, s') \<and> outside c s' \<and>
         (\<forall>x. r = Inr x \<longrightarrow> views s' = views s2))"
    by blast
  then show thesis
    by (intro that [of c' s1]) (auto simp: ApplyEvent_def read_models)
qed

lemma ApplyEvent_skip:
  assumes "outside c s" and "GlobalSeq e \<le>s cp s"
  shows "\<exists>s'. ApplyEvent p c e s = Some (Inr False, [DuplicateSkipped (Name p)], s') \<and>
    outside c s' \<and> views s' = views s"
proof -
  obtain c' s1 where s1: "usable c' s1" "views s1 = views s" and
    tx: "\<And>x ms s2. apply_tx p e c' s1 = Some (Inr x, ms, s2) \<Longrightarrow> usable c' s2 \<Longrightarrow>
      \<exists>s'. ApplyEvent p c e s = Some (Inr x, ms, s') \<and> outside c s' \<and> views s' = views s2"
    using ApplyEvent_tx [OF assms(1)] by blast
  have "apply_tx p e c' s1 = Some (Inr False, [DuplicateSkipped (Name p)], s1)"
    using s1 assms(2)
    by (simp add: apply_tx_def read_models and_then_def get_checkpoint name_ok report_def ret_def)
  from tx [OF this s1(1)] s1(2) show ?thesis by simp
qed

lemma ApplyEvent_next:
  assumes "outside c s" and "\<not> GlobalSeq e \<le>s cp s" and "rows L (views s)" and "good (L @ [e])"
  shows "\<exists>ms s'. ApplyEvent p c e s = Some (Inr (Relevant (Applier p) e), ms, s') \<and> outside c s' \<and>
    rows (L @ [e]) (views s') \<and> checkpoints (views s') = (checkpoints (views s))(Name p \<mapsto> GlobalSeq e) \<and>
    keeps (views s') = keeps (views s)"
proof -
  obtain c' s1 where s1: "usable c' s1" "views s1 = views s" and
    tx: "\<And>x ms s2. apply_tx p e c' s1 = Some (Inr x, ms, s2) \<Longrightarrow> usable c' s2 \<Longrightarrow>
      \<exists>s'. ApplyEvent p c e s = Some (Inr x, ms, s') \<and> outside c s' \<and> views s' = views s2"
    using ApplyEvent_tx [OF assms(1)] by blast
  have start: "GetCheckpoint R c' (Name p) s1 = Some (Inr (cp s), [], s1)"
    using s1 by (simp add: get_checkpoint name_ok)
  show ?thesis
  proof (cases "Relevant (Applier p) e")
    case True
    from rows_apply [OF True s1(1) _ assms(4)] assms(3) s1(2) obtain s2 where
      s2: "Apply (Applier p) c' e s1 = Some (Inr (), [], s2)" "usable c' s2" "rows (L @ [e]) (views s2)"
      "checkpoints (views s2) = checkpoints (views s)" "keeps (views s2) = keeps (views s)" by auto
    from set_checkpoint [OF s2(2) name_ok, of "GlobalSeq e"] obtain s3 where
      s3: "SetCheckpoint R c' (Name p) (GlobalSeq e) s2 = Some (Inr (), [], s3)" "usable c' s3"
      "views s3 = (views s2)\<lparr>checkpoints := (checkpoints (views s))(Name p \<mapsto> GlobalSeq e)\<rparr>"
      using s2(4) assms(2) by auto
    have "apply_tx p e c' s1 = Some (Inr True, [EventApplied (Name p) (Event.EventType e)], s3)"
      using start assms(2) True s2(1) s3(1)
      by (simp add: apply_tx_def read_models and_then_def report_def ret_def)
    from tx [OF this s3(2)] True s2(3,5) s3(3) show ?thesis
      by (auto simp: rows_checkpoints keeps_checkpoints)
  next
    case False
    from set_checkpoint [OF s1(1) name_ok, of "GlobalSeq e"] obtain s3 where
      s3: "SetCheckpoint R c' (Name p) (GlobalSeq e) s1 = Some (Inr (), [], s3)" "usable c' s3"
      "views s3 = (views s)\<lparr>checkpoints := (checkpoints (views s))(Name p \<mapsto> GlobalSeq e)\<rparr>"
      using s1(2) assms(2) by auto
    have "apply_tx p e c' s1 = Some (Inr False, [], s3)"
      using start assms(2) False s3(1)
      by (simp add: apply_tx_def read_models and_then_def ret_def)
    from tx [OF this s3(2)] False s3(3) rows_irrelevant [OF False assms(3)] show ?thesis
      by (auto simp: rows_checkpoints keeps_checkpoints)
  qed
qed

text \<open>A sequence of deliveries, in any order and with any repetitions.\<close>

lemma apply_batch_accepted:
  "outside c s \<Longrightarrow> rows L (views s) \<Longrightarrow> good (L @ accepted (cp s) ds) \<Longrightarrow>
   \<exists>ms s'. apply_batch p c ds a s = Some ((None,
       a + word_of_nat (length (filter (Relevant (Applier p)) (accepted (cp s) ds)))), ms, s') \<and>
     outside c s' \<and> rows (L @ accepted (cp s) ds) (views s') \<and>
     cp s' = (if accepted (cp s) ds = [] then cp s else GlobalSeq (last (accepted (cp s) ds))) \<and>
     keeps (views s') = keeps (views s) \<and>
     (\<forall>n. n \<noteq> Name p \<longrightarrow> checkpoints (views s') n = checkpoints (views s) n)"
proof (induction ds arbitrary: s a L)
  case (Cons e ds)
  show ?case
  proof (cases "GlobalSeq e \<le>s cp s")
    case True
    from ApplyEvent_skip [OF Cons.prems(1) True] obtain s1 where
      s1: "ApplyEvent p c e s = Some (Inr False, [DuplicateSkipped (Name p)], s1)" "outside c s1"
        "views s1 = views s" by blast
    from Cons.IH [OF s1(2), of L a] Cons.prems s1 True show ?thesis by auto
  next
    case False
    have good: "good ((L @ [e]) @ accepted (GlobalSeq e) ds)" using Cons.prems(3) False by simp
    from ApplyEvent_next [OF Cons.prems(1) False Cons.prems(2) good_append [OF good]] obtain ms s1 where
      s1: "ApplyEvent p c e s = Some (Inr (Relevant (Applier p) e), ms, s1)" "outside c s1"
        "rows (L @ [e]) (views s1)" "cp s1 = GlobalSeq e" "keeps (views s1) = keeps (views s)"
        "\<forall>n. n \<noteq> Name p \<longrightarrow> checkpoints (views s1) n = checkpoints (views s) n" by auto
    let ?a = "if Relevant (Applier p) e then a + 1 else a"
    from Cons.IH [OF s1(2,3), of ?a] good s1(4) obtain ms2 s2 where
      s2: "apply_batch p c ds ?a s1 = Some ((None,
         ?a + word_of_nat (length (filter (Relevant (Applier p)) (accepted (GlobalSeq e) ds)))), ms2, s2)"
        "outside c s2" "rows (L @ [e] @ accepted (GlobalSeq e) ds) (views s2)"
        "cp s2 = (if accepted (GlobalSeq e) ds = [] then GlobalSeq e
          else GlobalSeq (last (accepted (GlobalSeq e) ds)))" "keeps (views s2) = keeps (views s1)"
        "\<forall>n. n \<noteq> Name p \<longrightarrow> checkpoints (views s2) n = checkpoints (views s1) n" by auto
    then show ?thesis using s1(1,5,6) False by (cases "Relevant (Applier p) e") (auto simp: add.assoc)
  qed
qed simp

end

section \<open>CatchUp\<close>

lemma filter_sorted_split:
  assumes "sorted_wrt (<) (map (\<lambda>e. sint (GlobalSeq e)) L)"
  shows "L = filter (\<lambda>e. GlobalSeq e \<le>s ckpt) L @ filter (\<lambda>e. ckpt <s GlobalSeq e) L"
  using assms
proof (induction L)
  case (Cons e L)
  show ?case
  proof (cases "ckpt <s GlobalSeq e")
    case True
    with Cons.prems have "filter (\<lambda>e. GlobalSeq e \<le>s ckpt) L = []" "filter (\<lambda>e. ckpt <s GlobalSeq e) L = L"
      by (fastforce simp: filter_empty_conv filter_id_conv)+
    with True show ?thesis by simp
  next
    case False
    with Cons show ?thesis by simp
  qed
qed simp

locale follower = projection R views usable outside stamp ok_id ok_time p rows good keeps +
  event_log S log inv text_ok
  for R :: "('c, 's) ReadModelStore" and views and usable and outside and stamp and ok_id and ok_time
    and p :: "('c, 's) Projector" and rows and good and keeps :: "views \<Rightarrow> 'v"
    and S :: "'e Store" and log and inv and text_ok
begin

lemma catch_up_loop_spec:
  assumes "inv e" and "log e = pre @ post" and "\<forall>x\<in>set pre. GlobalSeq x \<le>s cp s"
    and "\<forall>x\<in>set post. cp s <s GlobalSeq x" and "good (log e)" and "rows pre (views s)" and "outside c s"
  shows "\<exists>ms s'. catch_up_loop p c S e batchSize a s = Some ((None,
      a + word_of_nat (length (filter (Relevant (Applier p)) post))), ms, s') \<and>
    outside c s' \<and> rows (log e) (views s') \<and>
    cp s' = (if post = [] then cp s else GlobalSeq (last post))"
  using assms(2-7)
proof (induction "length post" arbitrary: pre post a s rule: less_induct)
  case less
  note wf = inv_log [OF assms(1)]
  define es where "es = (if 0 <s batchSize then take (nat (sint batchSize)) post else post)"
  define rest where "rest = (if 0 <s batchSize then drop (nat (sint batchSize)) post else [])"
  have split: "post = es @ rest" by (simp add: es_def rest_def)
  have since: "filter (\<lambda>x. cp s <s GlobalSeq x) (log e) = post"
    using less.prems(1-3) by (auto simp: filter_empty_conv filter_id_conv)
  have load: "LoadSince S (cp s) batchSize e = Inr es"
    unfolding load_since [OF assms(1)] events_since_def since by (simp add: es_def)
  have get: "GetCheckpoint R c (Name p) s = Some (Inr (cp s), [], s)"
    using less.prems(6) outside_usable by (simp add: get_checkpoint name_ok)
  show ?case
  proof (cases "es = []")
    case True
    then have "post = []" by (auto simp: es_def split: if_splits)
    with True show ?thesis
      using less.prems by (subst catch_up_loop.simps) (simp add: read_models get load)
  next
    case False
    have sorted: "sorted_wrt (<) (map (\<lambda>x. sint (GlobalSeq x)) (pre @ es @ rest))"
      using wf less.prems(1) split by (simp add: log_wf_def)
    then have acc: "accepted (cp s) es = es"
      using less.prems(3) split by (intro accepted_sorted) (auto simp: sorted_wrt_append)
    have "good ((pre @ accepted (cp s) es) @ rest)" using less.prems(1,4) split acc by simp
    from apply_batch_accepted [OF less.prems(6,5) good_append [OF this], of a] obtain ms2 s2 where
      s2: "apply_batch p c es a s = Some ((None,
         a + word_of_nat (length (filter (Relevant (Applier p)) es))), ms2, s2)" "outside c s2"
        "rows (pre @ es) (views s2)" "cp s2 = GlobalSeq (last es)"
      using acc False by auto
    let ?a = "a + word_of_nat (length (filter (Relevant (Applier p)) es))"
    show ?thesis
    proof (cases "word_of_nat (length es) <s batchSize")
      case True
      have "length es < 2 ^ 63" using log_wf_capacity [OF wf] less.prems(1) split by simp
      with True have "int (length es) < sint batchSize" by (simp add: sint_word_of_nat)
      then have "rest = []" by (auto simp: es_def rest_def split: if_splits)
      with True False split s2 less.prems(1) show ?thesis
        by (subst catch_up_loop.simps) (simp add: read_models get load)
    next
      case no_stop: False
      obtain es0 z where z: "es = es0 @ [z]" using False by (cases es rule: rev_cases) auto
      have "\<forall>x\<in>set (pre @ es). GlobalSeq x \<le>s cp s2" "\<forall>x\<in>set rest. cp s2 <s GlobalSeq x"
        using sorted s2(4) unfolding z by (auto simp: sorted_wrt_append intro: less_imp_le)
      then obtain ms3 s3 where s3: "catch_up_loop p c S e batchSize ?a s2 = Some ((None,
          ?a + word_of_nat (length (filter (Relevant (Applier p)) rest))), ms3, s3)" "outside c s3"
          "rows (log e) (views s3)" "cp s3 = (if rest = [] then cp s2 else GlobalSeq (last rest))"
        using less.hyps [of rest "pre @ es" s2 ?a] False split less.prems(1,4) s2(2,3) by auto
      with no_stop False split s2 show ?thesis
        by (subst catch_up_loop.simps) (auto simp: read_models get load add.assoc)
    qed
  qed
qed

lemma CatchUp_spec:
  assumes "inv e" and "good (log e)" and "outside c s"
    and "rows (filter (\<lambda>x. GlobalSeq x \<le>s cp s) (log e)) (views s)"
  shows "\<exists>n ms s'. CatchUp p c S e batchSize s = Some ((None, n), ms, s') \<and> outside c s' \<and>
    rows (log e) (views s') \<and> (\<forall>x\<in>set (log e). GlobalSeq x \<le>s cp s')"
proof -
  let ?pre = "filter (\<lambda>x. GlobalSeq x \<le>s cp s) (log e)" and ?post = "filter (\<lambda>x. cp s <s GlobalSeq x) (log e)"
  have sorted: "sorted_wrt (<) (map (\<lambda>x. sint (GlobalSeq x)) (log e))"
    using inv_log [OF assms(1)] by (simp add: log_wf_def)
  note split = filter_sorted_split [OF sorted, of "cp s"]
  have "\<forall>x\<in>set ?pre. GlobalSeq x \<le>s cp s" "\<forall>x\<in>set ?post. cp s <s GlobalSeq x" by auto
  from catch_up_loop_spec [OF assms(1) split this assms(2,4,3), of batchSize 0] obtain n ms s' where
    s': "CatchUp p c S e batchSize s = Some ((None, n), ms, s')" "outside c s'" "rows (log e) (views s')"
    "cp s' = (if ?post = [] then cp s else GlobalSeq (last ?post))"
    unfolding CatchUp_def by blast
  have "GlobalSeq x \<le>s cp s'" if "x \<in> set (log e)" for x
  proof (cases ?post rule: rev_cases)
    case Nil
    with that s'(4) show ?thesis by (auto simp: filter_empty_conv not_less)
  next
    case (snoc ys y)
    with split have log: "log e = ?pre @ ys @ [y]" by simp
    then have "sorted_wrt (<) (map (\<lambda>x. sint (GlobalSeq x)) (?pre @ ys @ [y]))" using sorted by simp
    moreover have "x \<in> set (?pre @ ys @ [y])" using that log by simp
    ultimately have "GlobalSeq x \<le>s GlobalSeq y"
      by (simp only: map_append sorted_wrt_append set_append) (auto intro: less_imp_le)
    with snoc s'(4) show ?thesis by simp
  qed
  with s' show ?thesis by blast
qed

end

end
