(* ===== verification/Transfers.thy ===== *)
theory Transfers imports Concurrency begin

text \<open>
  \<open>Transfer\<close> is the one handler that reads two streams and appends to both.  Its safety under
  interleaving, from the decisions of its two halves.
\<close>

definition transfer_batch ::
  "string \<Rightarrow> string \<Rightarrow> FundsWithdrawn \<Rightarrow> int64 \<Rightarrow> FundsDeposited \<Rightarrow> int64 \<Rightarrow> AppendEvent list" where
  "transfer_batch src dst w v d v' =
     [append_one (AggregateTypeAccount, src) EventFundsWithdrawn (marshal_FundsWithdrawn w) v,
      append_one (AggregateTypeAccount, dst) EventFundsDeposited (marshal_FundsDeposited d) v']"

text \<open>The loop of \<open>Transfer\<close>, one attempt unfolded.\<close>

lemma Transfer_loop_unfold:
  "Transfer_loop s src dst n key reason a =
     loadAccount src (\<lambda>r. case r of
       Inl err \<Rightarrow> Return (Inl err)
     | Inr from_acc \<Rightarrow>
         loadAccount dst (\<lambda>r. case r of
           Inl err \<Rightarrow> Return (Inl err)
         | Inr to_acc \<Rightarrow>
             (case DecideWithdraw from_acc n reason of
                Inl err \<Rightarrow> Return (Inl err)
              | Inr w \<Rightarrow>
                  (case DecideDeposit to_acc n reason of
                     Inl err \<Rightarrow> Return (Inl err)
                   | Inr d \<Rightarrow>
                       DoAppend key
                         (transfer_batch src dst w (AccountState.Version from_acc) d
                            (AccountState.Version to_acc))
                         (\<lambda>r. case r of
                            Inl err \<Rightarrow>
                              if errors_is err ErrVersionConflict \<and> a <s maxRetries s
                              then Transfer_loop s src dst n key reason (a + 1)
                              else Return (Inl err)
                          | Inr (appended, dup) \<Rightarrow>
                              if dup then Return (Inr (duplicateResult appended AggregateTypeAccount src))
                              else appliedResult s appended)))))"
  by (subst Transfer_loop.simps)
     (auto simp: transfer_batch_def append_one_def fun_eq_iff loadAccount_def split: sum.splits)

lemma withdraw_decision_Inr:
  "FoldAccount i h = Inr st \<Longrightarrow> DecideWithdraw st n reason = Inr w \<Longrightarrow>
   withdraw_decision i n reason h
   = Inr (EventFundsWithdrawn, marshal_FundsWithdrawn w, AccountState.Version st)"
  by (simp add: withdraw_decision_def account_decision_def)

lemma deposit_decision_Inr:
  "FoldAccount i h = Inr st \<Longrightarrow> DecideDeposit st n reason = Inr d \<Longrightarrow>
   deposit_decision i n reason h
   = Inr (EventFundsDeposited, marshal_FundsDeposited d, AccountState.Version st)"
  by (simp add: deposit_decision_def account_decision_def)

lemma auto_plan_version: "expectedVersionFor (planVersion s NoVersionCheck) v = v"
  by (simp add: expectedVersionFor_def planVersion_def)

lemma transfer_lands:
  assumes "src \<noteq> dst" and "prefix L1 L2" and "prefix L2 L3"
    and "log_wf L1" and "log_wf L2" and "log_wf L3"
    and "FoldAccount src (stream_events L1 (AggregateTypeAccount, src)) = Inr fa"
    and "FoldAccount dst (stream_events L2 (AggregateTypeAccount, dst)) = Inr ta"
    and "DecideWithdraw fa n reason = Inr w" and "DecideDeposit ta n reason = Inr d"
    and match: "versions_match (stream_version L3)
      (transfer_batch src dst w (AccountState.Version fa) d (AccountState.Version ta))"
    and rec: "recorded_as key L3
      (transfer_batch src dst w (AccountState.Version fa) d (AccountState.Version ta)) es"
  shows "batch_allowed L3 es"
proof -
  note plan = plans_ok(1) [of undefined]
  from match assms(1) have
    v: "AccountState.Version fa = NoVersionCheck \<or>
        AccountState.Version fa = stream_version L3 (AggregateTypeAccount, src)"
       "AccountState.Version ta = NoVersionCheck \<or>
        AccountState.Version ta = stream_version L3 (AggregateTypeAccount, dst)"
    by (auto simp: transfer_batch_def)
  have "decides (AggregateTypeAccount, src) (stream_events L3 (AggregateTypeAccount, src))
      EventFundsWithdrawn (marshal_FundsWithdrawn w)"
    using assms(2-6) v(1) prefix_order.trans
    by (intro sound_lands [OF sound_decisions(3) plan _ _ _ withdraw_decision_Inr [OF assms(7,9)]])
       (auto simp: auto_plan_version)
  moreover have "decides (AggregateTypeAccount, dst) (stream_events L3 (AggregateTypeAccount, dst))
      EventFundsDeposited (marshal_FundsDeposited d)"
    using assms(2-6) v(2)
    by (intro sound_lands [OF sound_decisions(2) plan _ _ _ deposit_decision_Inr [OF assms(8,10)]])
       (auto simp: auto_plan_version)
  ultimately show ?thesis
    using rec assms(1)
    by (auto simp: transfer_batch_def recorded_two records_def event_allowed_def)
qed

lemma safe_Transfer_loop:
  assumes "src \<noteq> dst"
  shows "safe ((AggregateTypeAccount, src), key) L (Transfer_loop s src dst n key reason a)"
proof (induction "nat (sint (maxRetries s) - sint a)" arbitrary: a L rule: less_induct)
  case less
  have retry: "safe ((AggregateTypeAccount, src), key) L' (Transfer_loop s src dst n key reason (a + 1))"
    if "sint a < sint (maxRetries s)" for L'
    using that by (intro less) (simp add: sint_suc_no_overflow)
  have applied: "safe ((AggregateTypeAccount, src), key) L' (appliedResult s es)"
    if "append_answer L' key (transfer_batch src dst w v d v') (Inr (es, False))" for L' w v d v' es
    using that unfolding transfer_batch_def by (rule safe_appliedResult) simp
  have dup: "acknowledges ((AggregateTypeAccount, src), key) L'
      (duplicateResult es AggregateTypeAccount src)"
    if "append_answer L' key as (Inr (es, True))" for L' as es
    using safe_duplicateResult [OF append_answer_dup [OF that], of "(AggregateTypeAccount, src)"] by simp
  have two: "length (transfer_batch src dst w v d v') \<le> 2" for w v d v'
    by (simp add: transfer_batch_def)
  show ?case
    by (subst Transfer_loop_unfold)
       (auto simp: loadAccount_def two split: sum.splits
          intro: transfer_lands [OF assms] retry applied dup)
qed

lemma safe_Transfer:
  "safe ((AggregateTypeAccount, src), key) L (Transfer s src dst n key)"
proof -
  have "acknowledges ((AggregateTypeAccount, src), key) L'
      (duplicateResult es AggregateTypeAccount src)"
    if "lookup_answer L' key (Inr (es, found))" for L' es found
    using safe_duplicateResult [OF that, of "(AggregateTypeAccount, src)"] by simp
  then show ?thesis
    by (auto simp: Transfer_def Let_def safe_Transfer_loop split: sum.splits)
qed

end
