(* ===== verification/System.thy ===== *)
theory System imports Transfers MemoryStore begin

text \<open>
  Any number of command handlers at work on one event store: the goroutines of the gRPC
  server.  A step is a new request, or one handler making its next call; nothing determines
  which handler moves.  What the protocol of \<open>internal/ledger/service.go\<close> guarantees of every
  reachable state is proved for any store that keeps the contract \<open>event_store\<close>.
\<close>

section \<open>The seven commands\<close>

text \<open>
  A command as the service receives it, with the request its result answers.  Expected
  versions other than \<open>NoVersionCheck\<close> are left to \<open>PinnedVersion\<close>: they do not
  have the guarantees below.
\<close>

inductive command :: "Service \<Rightarrow> request \<Rightarrow> proc \<Rightarrow> bool" for sv where
  cmd_open: "command sv ((AggregateTypeAccount, i), key) (OpenAccount sv i n key)"
| cmd_deposit:
    "command sv ((AggregateTypeAccount, i), key) (Deposit sv i n reason key NoVersionCheck)"
| cmd_withdraw:
    "command sv ((AggregateTypeAccount, i), key) (Withdraw sv i n reason key NoVersionCheck)"
| cmd_transfer: "command sv ((AggregateTypeAccount, i), key) (Transfer sv i j n key)"
| cmd_adjust:
    "command sv ((AggregateTypeInventoryItem, i), key) (AdjustInventory sv i n reason key NoVersionCheck)"
| cmd_reserve:
    "command sv ((AggregateTypeInventoryItem, i), key) (ReserveStock sv i n order key NoVersionCheck)"
| cmd_release:
    "command sv ((AggregateTypeInventoryItem, i), key) (ReleaseStock sv i n order key NoVersionCheck)"

lemma safe_command: "command sv q p \<Longrightarrow> safe q L p"
  by (induction rule: command.induct)
     (auto simp: one_stream_handlers OpenAccount_cmd safe_Transfer intro!: safe_cmd)

section \<open>Who has won a dedupe key\<close>

text \<open>
  \<open>claims p\<close>: the handler's batch was accepted and it is about to answer \<open>Applied\<close>, or has.
  \<open>honest p\<close>: it only ever gets there on a fresh \<open>Append\<close>.
\<close>

primrec claims :: "proc \<Rightarrow> bool" where
  "claims (Return r) \<longleftrightarrow> (\<exists>res. r = Inr res \<and> Applied res)"
| "claims Panic \<longleftrightarrow> False"
| "claims (DoLookupDedupe key f) \<longleftrightarrow> False"
| "claims (DoLoadStream ty aid f) \<longleftrightarrow> False"
| "claims (DoAppend key as f) \<longleftrightarrow> False"
| "claims (DoPublish es p) \<longleftrightarrow> claims p"

primrec honest :: "proc \<Rightarrow> bool" where
  "honest (Return r) \<longleftrightarrow> True"
| "honest Panic \<longleftrightarrow> True"
| "honest (DoLookupDedupe key f) \<longleftrightarrow> (\<forall>r. honest (f r) \<and> \<not> claims (f r))"
| "honest (DoLoadStream ty aid f) \<longleftrightarrow> (\<forall>r. honest (f r) \<and> \<not> claims (f r))"
| "honest (DoAppend key as f) \<longleftrightarrow>
     (\<forall>r. honest (f r) \<and> (claims (f r) \<longrightarrow> (\<exists>es. r = Inr (es, False))))"
| "honest (DoPublish es p) \<longleftrightarrow> honest p"

lemma honest_results [simp]:
  "\<not> Applied (duplicateResult es t i)" "honest (appliedResult sv es)"
  by (auto simp: duplicateResult_eq appliedResult_def publish_def split: list.splits)

lemma honest_cmd_loop: "honest (cmd_loop sv k d key plan a) \<and> \<not> claims (cmd_loop sv k d key plan a)"
proof (induction "attempts_left plan a" arbitrary: a rule: less_induct)
  case less
  show ?case
    by (subst (1 2) cmd_loop.simps) (auto simp: less attempts_left_decr split: sum.splits)
qed

lemma honest_cmd: "honest (cmd sv k d key plan) \<and> \<not> claims (cmd sv k d key plan)"
  by (auto simp: cmd_def Let_def honest_cmd_loop split: sum.splits)

lemma honest_Transfer_loop:
  "honest (Transfer_loop sv i j n key reason a) \<and> \<not> claims (Transfer_loop sv i j n key reason a)"
proof (induction "nat (sint (maxRetries sv) - sint a)" arbitrary: a rule: less_induct)
  case less
  show ?case
    by (subst (1 2) Transfer_loop_unfold)
       (auto simp: loadAccount_def less sint_suc_no_overflow split: sum.splits)
qed

lemma honest_command: "command sv q p \<Longrightarrow> honest p \<and> \<not> claims p"
  by (induction rule: command.induct)
     (auto simp: one_stream_handlers OpenAccount_cmd honest_cmd Transfer_def Let_def
       honest_Transfer_loop split: sum.splits)

section \<open>Steps\<close>

text \<open>
  One call of a handler on the store: what is left of the handler, the store's new state, and
  what was handed to the publisher.
\<close>

fun call_step :: "'s Store \<Rightarrow> proc \<Rightarrow> 's \<Rightarrow> proc \<times> 's \<times> Event list list" where
  "call_step S (DoLookupDedupe key f) s = (f (LookupDedupe S key s), s, [])"
| "call_step S (DoLoadStream ty aid f) s = (f (LoadStream S ty aid s), s, [])"
| "call_step S (DoAppend key as f) s = (case Append S key as s of (r, s') \<Rightarrow> (f r, s', []))"
| "call_step S (DoPublish es p) s = (p, s, [es])"
| "call_step S p s = (p, s, [])"

record 's sys =
  store :: 's
  threads :: "(request \<times> proc) list"
  published :: "Event list list"

inductive sys_step :: "'s Store \<Rightarrow> Service \<Rightarrow> 's sys \<Rightarrow> 's sys \<Rightarrow> bool" for S sv where
  arrive: "command sv q p \<Longrightarrow> sys_step S sv y (y\<lparr>threads := threads y @ [(q, p)]\<rparr>)"
| call: "i < length (threads y) \<Longrightarrow> threads y ! i = (q, p) \<Longrightarrow>
    call_step S p (store y) = (p', s', pub) \<Longrightarrow>
    sys_step S sv y
      (y\<lparr>store := s', threads := (threads y)[i := (q, p')], published := published y @ pub\<rparr>)"

text \<open>\<open>reaches S sv s0 n y\<close>: \<open>y\<close> is reached in \<open>n\<close> steps from a system without requests.\<close>

inductive reaches :: "'s Store \<Rightarrow> Service \<Rightarrow> 's \<Rightarrow> nat \<Rightarrow> 's sys \<Rightarrow> bool" for S sv s0 where
  start: "reaches S sv s0 0 \<lparr>store = s0, threads = [], published = []\<rparr>"
| further: "reaches S sv s0 n y \<Longrightarrow> sys_step S sv y z \<Longrightarrow> reaches S sv s0 (Suc n) z"

section \<open>The invariant\<close>

text \<open>How many handlers have won a key.\<close>

definition winners :: "(request \<times> proc) list \<Rightarrow> string \<Rightarrow> nat" where
  "winners ts key = length (filter (\<lambda>(q, p). snd q = key \<and> claims p) ts)"

lemma winners_snoc [simp]:
  "winners (ts @ [(q, p)]) key = winners ts key + (if snd q = key \<and> claims p then 1 else 0)"
  by (simp add: winners_def)

lemma winners_Nil [simp]: "winners [] key = 0"
  by (simp add: winners_def)

lemma winners_update:
  "i < length ts \<Longrightarrow> ts ! i = (q, p) \<Longrightarrow>
   winners (ts[i := (q, p')]) key + (if snd q = key \<and> claims p then 1 else 0)
   = winners ts key + (if snd q = key \<and> claims p' then 1 else 0)"
proof (induction ts arbitrary: i)
  case (Cons t ts)
  then show ?case by (cases i) (auto simp: winners_def)
qed simp

lemma winners_two:
  assumes "i < j" and "j < length ts" and "ts ! i = (q, p)" and "ts ! j = (q', p')"
    and "snd q = key" and "snd q' = key" and "claims p" and "claims p'"
  shows "2 \<le> winners ts key"
proof -
  let ?P = "\<lambda>(q, p). snd q = key \<and> claims p"
  have "{i, j} \<subseteq> {m. m < length ts \<and> ?P (ts ! m)}" using assms by auto
  then have "card {i, j} \<le> card {m. m < length ts \<and> ?P (ts ! m)}"
    by (intro card_mono) auto
  with assms(1) show ?thesis by (simp add: winners_def length_filter_conv_card)
qed

definition sys_inv ::
  "('s \<Rightarrow> Event list) \<Rightarrow> ('s \<Rightarrow> string \<rightharpoonup> Event list) \<Rightarrow> ('s \<Rightarrow> bool) \<Rightarrow> nat \<Rightarrow> 's sys \<Rightarrow> bool" where
  "sys_inv log seen I n y \<longleftrightarrow>
     I (store y) \<and> legal_log (log (store y)) \<and> length (log (store y)) \<le> 2 * n \<and>
     (\<forall>(q, p)\<in>set (threads y). safe q (log (store y)) p \<and> honest p) \<and>
     (\<forall>es\<in>set (published y). set es \<subseteq> set (log (store y))) \<and>
     (\<forall>key. key \<noteq> [] \<longrightarrow>
        winners (threads y) key \<le> (if seen (store y) key = None then 0 else 1))"

context event_store
begin

text \<open>What one call does to the store and to the handler that makes it.\<close>

lemma safe_lookup:
  assumes "inv s" and "safe q (log s) (DoLookupDedupe key f)"
  shows "safe q (log s) (f (LookupDedupe S key s))"
proof -
  have "lookup_answer (log s) key (LookupDedupe S key s)"
  proof (cases "key = [] \<or> seen s key = None")
    case True
    with assms(1) show ?thesis by (auto simp: lookup lookup_answer_def)
  next
    case False
    then obtain es where "key \<noteq> []" "seen s key = Some es" by auto
    with assms(1) seen_log [of s key] show ?thesis by (auto simp: lookup lookup_answer_def)
  qed
  with assms inv_log show ?thesis by simp
qed

lemma safe_append:
  assumes "inv s" and "length (log s) + 2 \<le> log_capacity" and "safe q (log s) (DoAppend key as f)"
    and "legal_log (log s)" and "Append S key as s = (r, s')"
  shows "inv s' \<and> legal_log (log s') \<and> prefix (log s) (log s') \<and>
    length (log s') \<le> length (log s) + 2 \<and> safe q (log s') (f r)"
proof -
  from assms(2,3) have room: "length (log s) + length as \<le> log_capacity" by simp
  have wf: "log_wf (log s)" using assms(1) by (rule inv_log)
  have cont: "safe q L' (f r)" if "prefix (log s) L'" "log_wf L'" "append_answer L' key as r" for L'
    using that assms(3) by auto
  from assms(1) room assms(5) show ?thesis
  proof (cases rule: append_cases)
    case (duplicate es)
    then have "filter (\<lambda>e. DedupeKey (Metadata e) = key) (log s) = es"
      using seen_log [OF assms(1), of key] by simp
    then have "append_answer (log s) key as r"
      using duplicate by (auto simp: append_answer_def lookup_answer_def)
    with duplicate assms(4) cont [of "log s"] wf show ?thesis by simp
  next
    case conflict
    then have "append_answer (log s) key as r" by (simp add: append_answer_def lookup_answer_def)
    with conflict assms(4) cont [of "log s"] wf show ?thesis by simp
  next
    case (fresh es)
    have "batch_allowed (log s) es" using assms(3) fresh wf by auto
    then have "legal_log (log s')" using fresh assms(4) by (simp add: legal_log_append)
    moreover have "append_answer (log s') key as r"
      using fresh recorded_as_key [OF fresh(4)]
      by (auto simp: append_answer_def lookup_answer_def)
    moreover have "length es \<le> 2" using assms(3) recorded_as_length [OF fresh(4)] by simp
    ultimately show ?thesis using fresh cont [of "log s'"] inv_log [of s'] by auto
  qed
qed

lemma call_step_inv:
  assumes "call_step S p s = (p', s', pub)" and "inv s" and "legal_log (log s)"
    and "length (log s) + 2 \<le> log_capacity" and "safe q (log s) p"
  shows "inv s' \<and> legal_log (log s') \<and> prefix (log s) (log s') \<and>
    length (log s') \<le> length (log s) + 2 \<and> safe q (log s') p' \<and>
    (\<forall>es\<in>set pub. set es \<subseteq> set (log s'))"
proof (cases p)
  case (DoLookupDedupe key f)
  with assms safe_lookup [of s q key f] show ?thesis by auto
next
  case (DoLoadStream ty aid f)
  with assms inv_log load_stream show ?thesis by auto
next
  case (DoAppend key as f)
  with assms safe_append [of s q key as f] show ?thesis by (auto split: prod.splits)
qed (use assms in auto)

text \<open>A handler that starts to claim has just had its key's first batch accepted.\<close>

lemma call_step_claims:
  assumes "call_step S p s = (p', s', pub)" and "inv s" and "length (log s) + 2 \<le> log_capacity"
    and "safe q (log s) p" and "honest p"
  shows "honest p' \<and> (\<forall>key. seen s key \<noteq> None \<longrightarrow> seen s' key \<noteq> None) \<and>
    (claims p' \<longrightarrow> claims p \<or> (snd q \<noteq> [] \<longrightarrow> seen s (snd q) = None \<and> seen s' (snd q) \<noteq> None)) \<and>
    (claims p \<longrightarrow> claims p')"
proof (cases p)
  case (DoAppend key as f)
  obtain r where r: "Append S key as s = (r, s')" "p' = f r"
    using assms(1) DoAppend by (auto split: prod.splits)
  have room: "length (log s) + length as \<le> log_capacity" using assms(3,4) DoAppend by simp
  from DoAppend assms(4,5) r(2)
  have "snd q = key" "honest p'" "claims p' \<Longrightarrow> \<exists>es. r = Inr (es, False)" by auto
  moreover from assms(2) room r(1)
  have "(\<forall>key. seen s key \<noteq> None \<longrightarrow> seen s' key \<noteq> None) \<and>
      ((\<exists>es. r = Inr (es, False)) \<longrightarrow> key \<noteq> [] \<longrightarrow> seen s key = None \<and> seen s' key \<noteq> None)"
    by (cases rule: append_cases) auto
  ultimately show ?thesis using DoAppend by auto
qed (use assms in auto)

lemma sys_step_inv:
  assumes "sys_inv log seen inv n y" and "sys_step S sv y z" and "2 * Suc n \<le> log_capacity"
  shows "sys_inv log seen inv (Suc n) z"
  using assms(2)
proof cases
  case (arrive q p)
  with assms(1) safe_command [of sv q p] honest_command [of sv q p] show ?thesis
    by (auto simp: sys_inv_def)
next
  case (call i q p p' s' pub)
  from call(2,3) have "(q, p) \<in> set (threads y)" by (metis nth_mem)
  with assms(1) have p: "safe q (log (store y)) p" "honest p" and
    inv: "inv (store y)" "legal_log (log (store y))" "length (log (store y)) + 2 \<le> log_capacity"
    using assms(3) by (auto simp: sys_inv_def)
  note step = call_step_inv [OF call(4) inv p(1)] call_step_claims [OF call(4) inv(1,3) p]
  have win: "winners ((threads y)[i := (q, p')]) key \<le> (if seen s' key = None then 0 else 1)"
    if "key \<noteq> []" for key
  proof -
    have "winners (threads y) key \<le> (if seen (store y) key = None then 0 else 1)"
      using assms(1) that by (simp add: sys_inv_def)
    with step(2) that winners_update [OF call(2,3), of p' key] show ?thesis
      by (auto split: if_splits)
  qed
  have safe: "safe q' (log s') r" if "(q', r) \<in> set (threads y)" for q' r
    using assms(1) that step(1) by (auto simp: sys_inv_def intro: safe_extends)
  have "\<forall>(q', r)\<in>set ((threads y)[i := (q, p')]). safe q' (log s') r \<and> honest r"
    using assms(1) safe step set_update_subset_insert [of "threads y" i "(q, p')"]
    by (fastforce simp: sys_inv_def)
  moreover have "\<forall>es\<in>set (published y @ pub). set es \<subseteq> set (log s')"
    using assms(1) step(1) set_mono_prefix [of "log (store y)" "log s'"] by (auto simp: sys_inv_def)
  ultimately show ?thesis using call(1) step win assms(1) by (simp add: sys_inv_def)
qed

lemma reaches_inv:
  assumes "reaches S sv s0 n y" and "inv s0" and "log s0 = []" and "2 * n \<le> log_capacity"
  shows "sys_inv log seen inv n y"
  using assms
proof (induction rule: reaches.induct)
  case start
  then show ?case by (auto simp: sys_inv_def intro: empty_log)
next
  case (further n y z)
  then show ?case by (intro sys_step_inv [of n y sv z]) auto
qed

end

end
