(* ===== verification/Handlers.thy ===== *)
theory Handlers imports System begin

text \<open>
  One handler running alone on a store that keeps the contract \<open>event_store\<close>: what it returns
  and what it leaves in the log, on every branch.  The lemmas are proved once for any such
  store and every one-stream handler, and once for \<open>Transfer\<close>; the properties are their
  instances on the in-memory store.
\<close>

section \<open>Every handler\<close>

text \<open>A handler called with any expected version.\<close>

inductive handler :: "Service \<Rightarrow> stream_key \<Rightarrow> string \<Rightarrow> proc \<Rightarrow> bool" for sv where
  h_open: "handler sv (AggregateTypeAccount, i) key (OpenAccount sv i n key)"
| h_deposit: "handler sv (AggregateTypeAccount, i) key (Deposit sv i n reason key v)"
| h_withdraw: "handler sv (AggregateTypeAccount, i) key (Withdraw sv i n reason key v)"
| h_transfer: "handler sv (AggregateTypeAccount, i) key (Transfer sv i j n key)"
| h_adjust: "handler sv (AggregateTypeInventoryItem, i) key (AdjustInventory sv i n reason key v)"
| h_reserve: "handler sv (AggregateTypeInventoryItem, i) key (ReserveStock sv i n order key v)"
| h_release: "handler sv (AggregateTypeInventoryItem, i) key (ReleaseStock sv i n order key v)"

text \<open>
  \<open>alone L d L' d' k key r pub\<close>: how a lone run may end that started on log \<open>L\<close> and dedupe
  table \<open>d\<close>.  An error changes nothing and publishes nothing; an applied command appended one
  batch, recorded it under its key and handed it to the publisher, if there is one, and its
  result is what a retry of the command will be told.
\<close>

definition alone ::
  "Service \<Rightarrow> Event list \<Rightarrow> (string \<rightharpoonup> Event list) \<Rightarrow> Event list \<Rightarrow> (string \<rightharpoonup> Event list) \<Rightarrow>
   stream_key \<Rightarrow> string \<Rightarrow> (error + Result) option \<Rightarrow> Event list list \<Rightarrow> bool" where
  "alone sv L d L' d' k key r pub \<longleftrightarrow>
     (\<exists>err. r = Some (Inl err) \<and> L' = L \<and> d' = d \<and> pub = []) \<or>
     (\<exists>es res. r = Some (Inr res) \<and> Applied res \<and> \<not> Duplicate res \<and> es \<noteq> [] \<and> L' = L @ es \<and>
        d' = (if key = [] then d else d(key \<mapsto> es)) \<and> (key \<noteq> [] \<longrightarrow> d key = None) \<and>
        pub = (if HasPublisher sv then [es] else []) \<and>
        NewVersion res = NewVersion (duplicateResult es (fst k) (snd k)))"

lemma run_appliedResult:
  "es \<noteq> [] \<Longrightarrow> run S (appliedResult sv es) s =
     (Some (Inr \<lparr>Applied = True, Duplicate = False, NewVersion = Event.Version (hd es)\<rparr>), s,
      if HasPublisher sv then [es] else [])"
  by (cases es) (auto simp: appliedResult_def publish_def)

context event_store
begin

lemma append_unused:
  assumes "inv s" and "length (log s) + length as \<le> log_capacity" and "unused_key (seen s) key"
    and "Append S key as s = (r, s')"
  obtains
    (conflict) "\<not> versions_match (stream_version (log s)) as" "r = Inl ErrVersionConflict"
      "log s' = log s" "seen s' = seen s" "inv s'"
  | (fresh) es where "versions_match (stream_version (log s)) as" "r = Inr (es, False)"
      "recorded_as key (log s) as es" "log s' = log s @ es"
      "seen s' = (if key = [] then seen s else (seen s)(key \<mapsto> es))" "inv s'"
  using assms(1,2,4)
  by (cases rule: append_cases) (use assms(3) in \<open>auto simp: unused_key_def intro: conflict fresh\<close>)

lemma run_cmd_loop_alone:
  "inv s \<Longrightarrow> length (log s) < log_capacity \<Longrightarrow> unused_key (seen s) key \<Longrightarrow>
   run S (cmd_loop sv k d key plan a) s = (r, s', pub) \<Longrightarrow>
   alone sv (log s) (seen s) (log s') (seen s') k key r pub \<and> inv s'"
proof (induction "attempts_left plan a" arbitrary: a s rule: less_induct)
  case less
  consider (stop) err where "r = Some (Inl err)" "s' = s" "pub = []"
    | (append) et p v where "a <s maxAttempts plan" "d (stream_events (log s) k) = Inr (et, p, v)"
    using less.prems(1) less.prems(4) [unfolded cmd_loop.simps [of sv k d key plan a]]
    by (auto simp: load_stream split: if_splits sum.splits)
  then show ?case
  proof cases
    case stop
    with less.prems(1) show ?thesis by (auto simp: alone_def)
  next
    case append
    let ?as = "[append_one k et p (expectedVersionFor plan v)]"
    obtain r1 s1 where app: "Append S key ?as s = (r1, s1)" by fastforce
    have room: "length (log s) + length ?as \<le> log_capacity" using less.prems(2) by simp
    from less.prems(1) room less.prems(3) app show ?thesis
    proof (cases rule: append_unused)
      case conflict
      then have step: "run S (cmd_loop sv k d key plan a) s =
          (if a <s maxAttempts plan - 1 then run S (cmd_loop sv k d key plan (a + 1)) s1
           else (Some (Inl ErrVersionConflict), s1, []))"
        using append(1) by (subst cmd_loop.simps)
          (simp add: load_stream [OF less.prems(1)] append(2) app conflict(2))
      from less.prems(4) [unfolded step] consider
          (retry) "run S (cmd_loop sv k d key plan (a + 1)) s1 = (r, s', pub)"
        | (give_up) "r = Some (Inl ErrVersionConflict)" "s' = s1" "pub = []"
        by (cases "a <s maxAttempts plan - 1") simp_all
      then show ?thesis
      proof cases
        case retry
        have "attempts_left plan (a + 1) < attempts_left plan a"
          using append(1) by (simp add: attempts_left_decr)
        from less.hyps [OF this _ _ _ retry] less.prems(2,3) conflict show ?thesis by simp
      next
        case give_up
        with conflict show ?thesis by (simp add: alone_def)
      qed
    next
      case (fresh es)
      then obtain e where es: "es = [e]" "event_key e = k"
        by (auto simp: recorded_one records_def)
      have step: "run S (cmd_loop sv k d key plan a) s = run S (appliedResult sv es) s1"
        using append(1) by (subst cmd_loop.simps)
          (simp add: load_stream [OF less.prems(1)] append(2) app fresh(2))
      from less.prems(4) [unfolded step] es have "r = Some (Inr \<lparr>Applied = True, Duplicate = False,
          NewVersion = Event.Version e\<rparr>)" "s' = s1" "pub = (if HasPublisher sv then [es] else [])"
        by (auto simp: run_appliedResult)
      moreover have "NewVersion (duplicateResult es (fst k) (snd k)) = Event.Version e"
        using es by (simp add: duplicateResult_eq)
      ultimately show ?thesis
        using es fresh less.prems(3) unfolding alone_def unused_key_def by auto
    qed
  qed
qed

lemma run_cmd_alone:
  "inv s \<Longrightarrow> length (log s) < log_capacity \<Longrightarrow> unused_key (seen s) key \<Longrightarrow>
   run S (cmd sv k d key plan) s = (r, s', pub) \<Longrightarrow>
   alone sv (log s) (seen s) (log s') (seen s') k key r pub \<and> inv s'"
  using run_cmd_loop_alone run_cmd_fresh by metis

text \<open>The same for \<open>Transfer\<close>, whose two events are withdrawn and deposited in one batch.\<close>

lemma run_Transfer_loop_alone:
  "inv s \<Longrightarrow> length (log s) + 2 \<le> log_capacity \<Longrightarrow> unused_key (seen s) key \<Longrightarrow> src \<noteq> dst \<Longrightarrow>
   run S (Transfer_loop sv src dst n key reason a) s = (r, s', pub) \<Longrightarrow>
   alone sv (log s) (seen s) (log s') (seen s') (AggregateTypeAccount, src) key r pub \<and> inv s'"
proof (induction "nat (sint (maxRetries sv) - sint a)" arbitrary: a s rule: less_induct)
  case less
  consider (stop) err where "r = Some (Inl err)" "s' = s" "pub = []"
    | (append) fa ta w d where
        "FoldAccount src (stream_events (log s) (AggregateTypeAccount, src)) = Inr fa"
        "FoldAccount dst (stream_events (log s) (AggregateTypeAccount, dst)) = Inr ta"
        "DecideWithdraw fa n reason = Inr w" "DecideDeposit ta n reason = Inr d"
    using less.prems(1) less.prems(5) [unfolded Transfer_loop_unfold [of sv src dst n key reason a]]
    by (auto simp: load_stream loadAccount_def split: sum.splits)
  then show ?case
  proof cases
    case stop
    with less.prems(1) show ?thesis by (auto simp: alone_def)
  next
    case append
    let ?as = "transfer_batch src dst w (AccountState.Version fa) d (AccountState.Version ta)"
    obtain r1 s1 where app: "Append S key ?as s = (r1, s1)" by fastforce
    have room: "length (log s) + length ?as \<le> log_capacity"
      using less.prems(2) by (simp add: transfer_batch_def)
    from less.prems(1) room less.prems(3) app show ?thesis
    proof (cases rule: append_unused)
      case conflict
      then have step: "run S (Transfer_loop sv src dst n key reason a) s =
          (if a <s maxRetries sv then run S (Transfer_loop sv src dst n key reason (a + 1)) s1
           else (Some (Inl ErrVersionConflict), s1, []))"
        by (subst Transfer_loop_unfold)
           (simp add: loadAccount_def load_stream [OF less.prems(1)] append app conflict(2))
      from less.prems(5) [unfolded step] consider
          (retry) "a <s maxRetries sv"
            "run S (Transfer_loop sv src dst n key reason (a + 1)) s1 = (r, s', pub)"
        | (give_up) "r = Some (Inl ErrVersionConflict)" "s' = s1" "pub = []"
        by (cases "a <s maxRetries sv") simp_all
      then show ?thesis
      proof cases
        case retry
        have "nat (sint (maxRetries sv) - sint (a + 1)) < nat (sint (maxRetries sv) - sint a)"
          using retry(1) by (simp add: sint_suc_no_overflow)
        from less.hyps [OF this _ _ _ less.prems(4) retry(2)] less.prems(2,3) conflict
        show ?thesis by simp
      next
        case give_up
        with conflict show ?thesis by (simp add: alone_def)
      qed
    next
      case (fresh es)
      then obtain e f where es: "es = [e, f]" "event_key e = (AggregateTypeAccount, src)"
        "event_key f = (AggregateTypeAccount, dst)"
        by (auto simp: transfer_batch_def recorded_two records_def)
      have step: "run S (Transfer_loop sv src dst n key reason a) s = run S (appliedResult sv es) s1"
        by (subst Transfer_loop_unfold)
           (simp add: loadAccount_def load_stream [OF less.prems(1)] append app fresh(2))
      from less.prems(5) [unfolded step] es have "r = Some (Inr \<lparr>Applied = True, Duplicate = False,
          NewVersion = Event.Version e\<rparr>)" "s' = s1" "pub = (if HasPublisher sv then [es] else [])"
        by (auto simp: run_appliedResult)
      moreover have "NewVersion (duplicateResult es AggregateTypeAccount src) = Event.Version e"
        using es less.prems(4) by (auto simp: duplicateResult_eq)
      ultimately show ?thesis
        using es fresh less.prems(3) unfolding alone_def unused_key_def by auto
    qed
  qed
qed

lemma run_Transfer:
  assumes "inv s" and "i \<noteq> j"
  shows "key \<noteq> [] \<Longrightarrow> seen s key = Some es \<Longrightarrow> run S (Transfer sv i j n key) s
      = (Some (Inr (duplicateResult es AggregateTypeAccount i)), s, [])"
    and "unused_key (seen s) key \<Longrightarrow> run S (Transfer sv i j n key) s
      = run S (Transfer_loop sv i j n key (''transfer:'' @ key) 0) s"
  using assms unfolding Transfer_def unused_key_def
  by (auto simp: Let_def lookup simp del: append_Cons append_Nil)

lemma run_Transfer_same: "run S (Transfer sv i i n key) s = (Some (Inl ErrSameAccountTransfer), s, [])"
  by (simp add: Transfer_def)

lemma run_handler_duplicate:
  assumes "handler sv k key p" and "key \<noteq> []"
  shows "(\<forall>s. run S p s = (Some (Inl ErrSameAccountTransfer), s, [])) \<or>
    (\<forall>s es. inv s \<longrightarrow> seen s key = Some es \<longrightarrow>
       run S p s = (Some (Inr (duplicateResult es (fst k) (snd k))), s, []))"
  using assms
proof (induction rule: handler.induct)
  case (h_transfer i key j n)
  then show ?case by (cases "i = j") (simp_all add: run_Transfer run_Transfer_same)
qed (simp_all add: one_stream_handlers OpenAccount_cmd run_cmd_duplicate)

lemma run_handler_alone:
  assumes "handler sv k key p" and "inv s" and "length (log s) + 2 \<le> log_capacity"
    and "unused_key (seen s) key" and "run S p s = (r, s', pub)"
  shows "alone sv (log s) (seen s) (log s') (seen s') k key r pub \<and> inv s'"
  using assms
proof (induction rule: handler.induct)
  case (h_transfer i key j n)
  show ?case
  proof (cases "i = j")
    case True
    with h_transfer show ?thesis by (auto simp: run_Transfer_same alone_def)
  next
    case False
    with h_transfer run_Transfer(2) [OF h_transfer(1) False h_transfer(3)]
      run_Transfer_loop_alone [OF h_transfer(1-3) False] show ?thesis by simp
  qed
qed (use run_cmd_alone in \<open>auto simp: one_stream_handlers OpenAccount_cmd\<close>)

text \<open>A command sent again under its dedupe key: the same version, and nothing happens.\<close>

lemma run_handler_retry:
  assumes "handler sv k key p" and "inv s" and "length (log s) + 2 \<le> log_capacity" and "key \<noteq> []"
    and "run S p s = (Some (Inr res), s', pub)"
  shows "run S p s' = (Some (Inr \<lparr>Applied = False, Duplicate = True, NewVersion = NewVersion res\<rparr>), s', [])"
proof -
  have dup: "duplicateResult es t i
      = \<lparr>Applied = False, Duplicate = True, NewVersion = NewVersion (duplicateResult es t i)\<rparr>" for es t i
    by (simp add: duplicateResult_eq)
  from run_handler_duplicate [OF assms(1,4)] assms(5)
  have again: "run S p t = (Some (Inr (duplicateResult es (fst k) (snd k))), t, [])"
    if "inv t" "seen t key = Some es" for t es
    using that by auto
  show ?thesis
  proof (cases "seen s key")
    case None
    then have "unused_key (seen s) key" by (simp add: unused_key_def)
    from run_handler_alone [OF assms(1-3) this assms(5)] obtain es where
      "seen s' key = Some es" "NewVersion res = NewVersion (duplicateResult es (fst k) (snd k))" "inv s'"
      using assms(4) by (auto simp: alone_def)
    with again [of s' es] dup show ?thesis by metis
  next
    case (Some es)
    with again [of s es] assms(2,5) dup [of es "fst k" "snd k"] show ?thesis by auto
  qed
qed

end

end
