(* ===== verification/Commands.thy ===== *)
theory Commands imports Handlers begin

text \<open>
  The seven commands on the in-memory store, one at a time: accepted or rejected exactly as the
  decision says, with the effect on the folded state.  Then retries under a dedupe key, pinned
  versions, and the atomicity of \<open>Transfer\<close>.
\<close>

section \<open>One command on a store that keeps the contract\<close>

text \<open>
  The retry budget of the default service, and of every other but the largest \<open>int\<close>: with that
  one \<open>maxRetries + 1\<close> wraps around.
\<close>

definition retries_ok :: "Service \<Rightarrow> bool" where
  "retries_ok sv \<longleftrightarrow> sint (maxRetries sv) < 2 ^ 63 - 1"

lemma maxRetries_pos: "0 < sint (maxRetries sv)"
  by (simp add: maxRetries_def defaultMaxRetries_def)

lemma auto_attempts: "retries_ok sv \<Longrightarrow> 0 <s maxAttempts (planVersion sv NoVersionCheck)"
  using maxRetries_pos [of sv]
  by (simp add: planVersion_def retries_ok_def sint_add in64_def)

lemma pinned_attempts: "v \<noteq> NoVersionCheck \<Longrightarrow> maxAttempts (planVersion sv v) = 1"
  by (simp add: planVersion_def)

lemma pinned_expected: "v \<noteq> NoVersionCheck \<Longrightarrow> expectedVersionFor (planVersion sv v) c = v"
  by (simp add: planVersion_def expectedVersionFor_def)

abbreviation account_at :: "Event list \<Rightarrow> string \<Rightarrow> error + AccountState" where
  "account_at L i \<equiv> FoldAccount i (stream_events L (AggregateTypeAccount, i))"

abbreviation item_at :: "Event list \<Rightarrow> string \<Rightarrow> error + InventoryState" where
  "item_at L i \<equiv> FoldInventory i (stream_events L (AggregateTypeInventoryItem, i))"

context event_store
begin

lemma run_cmd_applied:
  assumes "inv s" and "unused_key (seen s) key" and "length (log s) < log_capacity"
    and "0 <s maxAttempts plan" and "versioned k d" and "d (stream_events (log s) k) = Inr (et, p, v)"
    and "expectedVersionFor plan v = v"
  shows "\<exists>e s'. run S (cmd sv k d key plan) s
      = (Some (Inr \<lparr>Applied = True, Duplicate = False, NewVersion = v + 1\<rparr>),
         s', if HasPublisher sv then [[e]] else []) \<and>
    event_key e = k \<and> Event.EventType e = et \<and> Event.Payload e = p \<and> Event.Version e = v + 1 \<and>
    log s' = log s @ [e] \<and> inv s'"
proof -
  have v: "v = stream_version (log s) k"
    using assms(5,6) inv_log [OF assms(1)] unfolding versioned_def by blast
  have exp: "expectedVersionFor plan v \<in> {NoVersionCheck, stream_version (log s) k}"
    using assms(7) v by simp
  obtain e s' where "run S (cmd_loop sv k d key plan 0) s
      = (Some (Inr \<lparr>Applied = True, Duplicate = False, NewVersion = stream_version (log s) k + 1\<rparr>),
         s', if HasPublisher sv then [[e]] else [])"
    "records key (log s) (append_one k et p (expectedVersionFor plan v)) e"
    "log s' = log s @ [e]" "inv s'"
    using run_loop_applied [of s key 0 plan d k et p v sv, OF assms(1-4,6) exp] by blast
  then show ?thesis
    unfolding run_cmd_fresh [OF assms(1,2)] v by (intro exI [of _ e] exI [of _ s']) (auto simp: records_def)
qed

lemma run_cmd_rejected:
  "inv s \<Longrightarrow> unused_key (seen s) key \<Longrightarrow> 0 <s maxAttempts plan \<Longrightarrow>
   d (stream_events (log s) k) = Inl err \<Longrightarrow> run S (cmd sv k d key plan) s = (Some (Inl err), s, [])"
  by (simp add: run_cmd_fresh run_loop_rejected)

lemma run_cmd_pinned_conflict:
  assumes "inv s" and "unused_key (seen s) key" and "v \<noteq> NoVersionCheck"
    and "stream_version (log s) k \<noteq> v" and "d (stream_events (log s) k) = Inr (et, p, c)"
  shows "\<exists>s'. run S (cmd sv k d key (planVersion sv v)) s = (Some (Inl ErrVersionConflict), s', []) \<and>
    log s' = log s \<and> seen s' = seen s \<and> inv s'"
  using assms run_loop_conflict [OF assms(1,2), of 0 "planVersion sv v" d k et p c sv]
  by (simp add: run_cmd_fresh pinned_attempts pinned_expected)

end

section \<open>Outcomes on the in-memory store\<close>

definition rejects :: "mem_store \<Rightarrow> proc \<Rightarrow> error \<Rightarrow> bool" where
  "rejects s p err \<longleftrightarrow> run memory_Store p s = (Some (Inl err), s, [])"

text \<open>
  \<open>applies sv s p v es s'\<close>: the command \<open>p\<close> answers \<open>Applied\<close> with version \<open>v\<close>, appends exactly
  the events \<open>es\<close> and hands them to the publisher.
\<close>

definition applies :: "Service \<Rightarrow> mem_store \<Rightarrow> proc \<Rightarrow> int64 \<Rightarrow> Event list \<Rightarrow> mem_store \<Rightarrow> bool" where
  "applies sv s p v es s' \<longleftrightarrow>
     run memory_Store p s = (Some (Inr \<lparr>Applied = True, Duplicate = False, NewVersion = v\<rparr>), s',
       if HasPublisher sv then [es] else []) \<and>
     events s' = events s @ es \<and> mem_inv s'"

text \<open>A store on which a command under \<open>key\<close> can be carried out.\<close>

definition ready :: "Service \<Rightarrow> mem_store \<Rightarrow> string \<Rightarrow> bool" where
  "ready sv s key \<longleftrightarrow> mem_inv s \<and> length (events s) + 2 \<le> log_capacity \<and> retries_ok sv \<and>
     unused_key (dedupe s) key"

lemma readyD:
  "ready sv s key \<Longrightarrow> mem_inv s" "ready sv s key \<Longrightarrow> unused_key (dedupe s) key"
  "ready sv s key \<Longrightarrow> length (events s) < log_capacity"
  "ready sv s key \<Longrightarrow> length (events s) + 2 \<le> log_capacity"
  "ready sv s key \<Longrightarrow> 0 <s maxAttempts (planVersion sv NoVersionCheck)"
  by (auto simp: ready_def auto_attempts simp del: int64_less)

lemma auto_applies:
  assumes "ready sv s key" and "versioned k d" and "d (stream_events (events s) k) = Inr (et, p, v)"
  shows "\<exists>e s'. applies sv s (cmd sv k d key (planVersion sv NoVersionCheck)) (v + 1) [e] s' \<and>
    event_key e = k \<and> Event.EventType e = et \<and> Event.Payload e = p \<and> Event.Version e = v + 1"
proof -
  obtain e s' where "run memory_Store (cmd sv k d key (planVersion sv NoVersionCheck)) s
      = (Some (Inr \<lparr>Applied = True, Duplicate = False, NewVersion = v + 1\<rparr>),
         s', if HasPublisher sv then [[e]] else [])"
    "event_key e = k" "Event.EventType e = et" "Event.Payload e = p" "Event.Version e = v + 1"
    "events s' = events s @ [e]" "mem_inv s'"
    using mem.run_cmd_applied [OF readyD(1,2,3,5) [OF assms(1)] assms(2,3) auto_plan_version, of sv]
    by blast
  then show ?thesis by (auto simp: applies_def)
qed

lemma auto_rejects:
  "ready sv s key \<Longrightarrow> d (stream_events (events s) k) = Inl err \<Longrightarrow>
   rejects s (cmd sv k d key (planVersion sv NoVersionCheck)) err"
  unfolding rejects_def by (intro mem.run_cmd_rejected readyD)

lemma open_applies:
  assumes "ready sv s key" and "account_at (events s) i = Inr st" and "AccountState.Version st = 0"
    and "DecideOpenAccount st i n = Inr ev"
  shows "\<exists>e s'. applies sv s (OpenAccount sv i n key) 1 [e] s' \<and>
    event_key e = (AggregateTypeAccount, i) \<and> Event.EventType e = EventAccountOpened \<and>
    Event.Payload e = marshal_AccountOpened ev \<and> Event.Version e = 1"
proof -
  have plan: "0 <s maxAttempts open_plan" "expectedVersionFor open_plan 0 = 0"
    by (simp_all add: open_plan_def expectedVersionFor_def StreamDoesNotExist_def)
  have "open_decision i n (stream_events (events s) (AggregateTypeAccount, i))
      = Inr (EventAccountOpened, marshal_AccountOpened ev, 0)"
    using assms(2-4) by (simp add: open_decision_def account_decision_def)
  from mem.run_cmd_applied [OF readyD(1,2,3) [OF assms(1)] plan(1) versioned_decisions(1) this plan(2), of sv]
  obtain e s' where "run memory_Store (OpenAccount sv i n key) s
      = (Some (Inr \<lparr>Applied = True, Duplicate = False, NewVersion = 0 + 1\<rparr>),
         s', if HasPublisher sv then [[e]] else [])"
    "event_key e = (AggregateTypeAccount, i)" "Event.EventType e = EventAccountOpened"
    "Event.Payload e = marshal_AccountOpened ev" "Event.Version e = 0 + 1"
    "events s' = events s @ [e]" "mem_inv s'"
    unfolding OpenAccount_cmd by blast
  then show ?thesis by (auto simp: applies_def)
qed

section \<open>An example store\<close>

text \<open>Two accounts and an item: what the witnesses of the properties start from.\<close>

lemma mem_inv_Append:
  "mem_inv s \<Longrightarrow> length (events s) + length as \<le> 9 \<Longrightarrow> mem_inv (snd (mem_Append key as s))"
  using mem.append_cases [of s as key "fst (mem_Append key as s)" "snd (mem_Append key as s)"]
  by (fastforce simp: log_capacity_def)

definition demo_sv :: Service where "demo_sv = NewService True"

definition demo_store :: mem_store where
  "demo_store =
     snd (mem_Append ''k4'' [append_one (AggregateTypeInventoryItem, ''widget'') EventStockReserved
        (marshal_StockReserved \<lparr>StockReserved.ItemID = ''widget'', Quantity = 4, OrderID = ''o1''\<rparr>) 1]
     (snd (mem_Append ''k3'' [append_one (AggregateTypeInventoryItem, ''widget'') EventInventoryAdjusted
        (marshal_InventoryAdjusted \<lparr>InventoryAdjusted.ItemID = ''widget'', DeltaQuantity = 10, Reason = []\<rparr>) 0]
     (snd (mem_Append ''k2'' [append_one (AggregateTypeAccount, ''bob'') EventAccountOpened
        (marshal_AccountOpened \<lparr>AccountOpened.AccountID = ''bob'', InitialBalanceCents = 50\<rparr>) 0]
     (snd (mem_Append ''k1'' [append_one (AggregateTypeAccount, ''alice'') EventAccountOpened
        (marshal_AccountOpened \<lparr>AccountOpened.AccountID = ''alice'', InitialBalanceCents = 100\<rparr>) 0]
     (mem_New (\<lambda>_. 0)))))))))"

lemma demo_length: "length (events demo_store) = 4"
  by code_simp

lemma demo_inv: "mem_inv demo_store"
  unfolding demo_store_def
  by (intro mem_inv_Append mem_inv_New) (code_simp)+

lemma demo_ready: "key \<in> {''k5'', ''k6'', []} \<Longrightarrow> ready demo_sv demo_store key"
proof -
  assume "key \<in> {''k5'', ''k6'', []}"
  moreover have "dedupe demo_store ''k5'' = None" "dedupe demo_store ''k6'' = None" by code_simp+
  moreover have "retries_ok demo_sv" by code_simp
  ultimately show ?thesis
    using demo_inv demo_length by (auto simp: ready_def unused_key_def log_capacity_def)
qed

lemma demo_states:
  "account_at (events demo_store) ''alice''
   = Inr \<lparr>AccountState.AccountID = ''alice'', Version = 1, Opened = True, BalanceCents = 100\<rparr>"
  "account_at (events demo_store) ''bob''
   = Inr \<lparr>AccountState.AccountID = ''bob'', Version = 1, Opened = True, BalanceCents = 50\<rparr>"
  "account_at (events demo_store) ''carol''
   = Inr \<lparr>AccountState.AccountID = ''carol'', Version = 0, Opened = False, BalanceCents = 0\<rparr>"
  "item_at (events demo_store) ''widget''
   = Inr \<lparr>InventoryState.ItemID = ''widget'', Version = 2, AvailableQuantity = 6, ReservedQuantity = 4\<rparr>"
  by code_simp+

section \<open>The properties of the commands\<close>

text \<open>
  The outcome of a one-stream command is that of its decision; the accepted event updates the
  folded state by \<open>upd\<close>.
\<close>

lemma decision_eqs:
  "deposit_decision i n reason
   = account_decision i (\<lambda>st. DecideDeposit st n reason) EventFundsDeposited marshal_FundsDeposited"
  "withdraw_decision i n reason
   = account_decision i (\<lambda>st. DecideWithdraw st n reason) EventFundsWithdrawn marshal_FundsWithdrawn"
  "adjust_decision i d reason = inventory_decision i (\<lambda>st. DecideAdjustInventory st i d reason)
     EventInventoryAdjusted marshal_InventoryAdjusted"
  "reserve_decision i q order = inventory_decision i (\<lambda>st. DecideReserveStock st i q order)
     EventStockReserved marshal_StockReserved"
  "release_decision i q order = inventory_decision i (\<lambda>st. DecideReleaseStock st i q order)
     EventStockReleased marshal_StockReleased"
  by (simp_all add: fun_eq_iff decision_defs)

lemma account_command:
  assumes "ready sv s key" and "account_at (events s) i = Inr st"
    and "versioned (AggregateTypeAccount, i) (account_decision i dec et m)"
    and "\<And>ev e. Event.EventType e = et \<Longrightarrow> Event.Payload e = m ev \<Longrightarrow>
      account_step st e = Inr (upd ev (st\<lparr>AccountState.Version := Event.Version e\<rparr>))"
  shows "case dec st of
      Inl err \<Rightarrow> rejects s (cmd sv (AggregateTypeAccount, i) (account_decision i dec et m) key
        (planVersion sv NoVersionCheck)) err
    | Inr ev \<Rightarrow> \<exists>e s'. applies sv s (cmd sv (AggregateTypeAccount, i) (account_decision i dec et m) key
        (planVersion sv NoVersionCheck)) (AccountState.Version st + 1) [e] s' \<and>
        event_key e = (AggregateTypeAccount, i) \<and>
        account_at (events s') i = Inr (upd ev (st\<lparr>AccountState.Version := AccountState.Version st + 1\<rparr>))"
proof (cases "dec st")
  case (Inl err)
  with assms(1,2) show ?thesis by (simp add: auto_rejects account_decision_def)
next
  case (Inr ev)
  with assms(2) have "account_decision i dec et m (stream_events (events s) (AggregateTypeAccount, i))
      = Inr (et, m ev, AccountState.Version st)" by (simp add: account_decision_def)
  from auto_applies [OF assms(1,3) this] assms(2,4) Inr show ?thesis
    by (auto simp: applies_def FoldAccount_snoc)
qed

lemma item_command:
  assumes "ready sv s key" and "item_at (events s) i = Inr st"
    and "versioned (AggregateTypeInventoryItem, i) (inventory_decision i dec et m)"
    and "\<And>ev e. Event.EventType e = et \<Longrightarrow> Event.Payload e = m ev \<Longrightarrow>
      inventory_step st e = Inr (upd ev (st\<lparr>InventoryState.Version := Event.Version e\<rparr>))"
  shows "case dec st of
      Inl err \<Rightarrow> rejects s (cmd sv (AggregateTypeInventoryItem, i) (inventory_decision i dec et m) key
        (planVersion sv NoVersionCheck)) err
    | Inr ev \<Rightarrow> \<exists>e s'. applies sv s (cmd sv (AggregateTypeInventoryItem, i) (inventory_decision i dec et m) key
        (planVersion sv NoVersionCheck)) (InventoryState.Version st + 1) [e] s' \<and>
        event_key e = (AggregateTypeInventoryItem, i) \<and>
        item_at (events s') i = Inr (upd ev (st\<lparr>InventoryState.Version := InventoryState.Version st + 1\<rparr>))"
proof (cases "dec st")
  case (Inl err)
  with assms(1,2) show ?thesis by (simp add: auto_rejects inventory_decision_def)
next
  case (Inr ev)
  with assms(2) have "inventory_decision i dec et m (stream_events (events s) (AggregateTypeInventoryItem, i))
      = Inr (et, m ev, InventoryState.Version st)" by (simp add: inventory_decision_def)
  from auto_applies [OF assms(1,3) this] assms(2,4) Inr show ?thesis
    by (auto simp: applies_def FoldInventory_snoc)
qed

lemmas command_simps = one_stream_handlers decision_eqs account_step_marshal inventory_step_marshal

text \<open>
  C22: \<open>Withdraw\<close> on an account that is read as \<open>st\<close>: refused, with the first error of the
  decision and nothing written, unless the account is open, the amount positive and covered;
  then exactly one event is appended and published, the answer carries its version, the
  balance has gone down by the amount, and every other stream is as it was.
\<close>

theorem Withdraw_alone:
  assumes "ready sv s key" and "account_at (events s) i = Inr st"
  shows "if \<not> Opened st then rejects s (Withdraw sv i n reason key NoVersionCheck) ErrAccountNotOpen
    else if n \<le>s 0 then rejects s (Withdraw sv i n reason key NoVersionCheck) ErrInvalidAmount
    else if BalanceCents st <s n
    then rejects s (Withdraw sv i n reason key NoVersionCheck) ErrInsufficientFunds
    else \<exists>e s'. applies sv s (Withdraw sv i n reason key NoVersionCheck) (AccountState.Version st + 1) [e] s' \<and>
      event_key e = (AggregateTypeAccount, i) \<and>
      account_at (events s') i = Inr (st\<lparr>AccountState.Version := AccountState.Version st + 1,
        BalanceCents := BalanceCents st - n\<rparr>)"
  using account_command [OF assms, of "\<lambda>st. DecideWithdraw st n reason" EventFundsWithdrawn marshal_FundsWithdrawn "\<lambda>w st. st\<lparr>BalanceCents := BalanceCents st - FundsWithdrawn.AmountCents w\<rparr>"] versioned_decisions(3)
  by (simp add: command_simps DecideWithdraw_def split: if_splits)

theorem Withdraw_alone_witness:
  "\<exists>e s'. applies demo_sv demo_store (Withdraw demo_sv ''alice'' 30 [] ''k5'' NoVersionCheck) 2 [e] s' \<and>
     event_key e = (AggregateTypeAccount, ''alice'') \<and>
     account_at (events s') ''alice''
       = Inr \<lparr>AccountState.AccountID = ''alice'', Version = 2, Opened = True, BalanceCents = 70\<rparr>"
  using Withdraw_alone [OF demo_ready demo_states(1), of "''k5''" 30 "[]"] by simp

text \<open>
  C23: \<open>Deposit\<close> on an account that is read as \<open>st\<close>: refused unless the account is open and the
  amount positive; then one event, and the balance has gone up by the amount.
\<close>

theorem Deposit_alone:
  assumes "ready sv s key" and "account_at (events s) i = Inr st"
  shows "if \<not> Opened st then rejects s (Deposit sv i n reason key NoVersionCheck) ErrAccountNotOpen
    else if n \<le>s 0 then rejects s (Deposit sv i n reason key NoVersionCheck) ErrInvalidAmount
    else \<exists>e s'. applies sv s (Deposit sv i n reason key NoVersionCheck) (AccountState.Version st + 1) [e] s' \<and>
      event_key e = (AggregateTypeAccount, i) \<and>
      account_at (events s') i = Inr (st\<lparr>AccountState.Version := AccountState.Version st + 1,
        BalanceCents := BalanceCents st + n\<rparr>)"
  using account_command [OF assms, of "\<lambda>st. DecideDeposit st n reason" EventFundsDeposited marshal_FundsDeposited "\<lambda>d st. st\<lparr>BalanceCents := BalanceCents st + FundsDeposited.AmountCents d\<rparr>"] versioned_decisions(2)
  by (simp add: command_simps DecideDeposit_def split: if_splits)

theorem Deposit_alone_witness:
  "rejects demo_store (Deposit demo_sv ''carol'' 30 [] ''k5'' NoVersionCheck) ErrAccountNotOpen"
  using Deposit_alone [OF demo_ready demo_states(3), of "''k5''" 30 "[]"] by simp

text \<open>
  \<open>OpenAccount\<close> on an account that is read as \<open>st\<close>: refused when it is open or the initial
  balance negative; then the account is open, at version 1, with that balance.
\<close>

theorem OpenAccount_alone:
  assumes "ready sv s key" and "account_at (events s) i = Inr st"
    and "AccountState.Version st = 0 \<or> Opened st"
  shows "if Opened st then rejects s (OpenAccount sv i n key) ErrAccountAlreadyOpened
    else if n <s 0 then rejects s (OpenAccount sv i n key) ErrInvalidAmount
    else \<exists>e s'. applies sv s (OpenAccount sv i n key) 1 [e] s' \<and>
      event_key e = (AggregateTypeAccount, i) \<and>
      account_at (events s') i
        = Inr \<lparr>AccountState.AccountID = i, Version = 1, Opened = True, BalanceCents = n\<rparr>"
proof (cases "DecideOpenAccount st i n")
  case (Inl err)
  then have "rejects s (OpenAccount sv i n key) err"
    unfolding OpenAccount_cmd rejects_def using assms(2)
    by (intro mem.run_cmd_rejected readyD [OF assms(1)])
       (simp_all add: open_decision_def account_decision_def open_plan_def)
  with Inl show ?thesis by (auto simp: DecideOpenAccount_def split: if_splits)
next
  case (Inr ev)
  with assms(3) have "AccountState.Version st = 0" "\<not> Opened st"
    by (auto simp: DecideOpenAccount_def split: if_splits)
  with open_applies [OF assms(1,2) _ Inr] obtain e s' where
    app: "applies sv s (OpenAccount sv i n key) 1 [e] s'" and e: "event_key e = (AggregateTypeAccount, i)"
    "Event.EventType e = EventAccountOpened" "Event.Payload e = marshal_AccountOpened ev"
    "Event.Version e = 1" by auto
  then have "account_at (events s') i = Inr (st\<lparr>AccountState.Version := 1, Opened := True,
      BalanceCents := InitialBalanceCents ev\<rparr>)"
    using assms(2) by (simp add: applies_def FoldAccount_snoc account_step_marshal)
  moreover have "AccountState.AccountID st = i" using assms(2) by (rule FoldAccount_id)
  ultimately show ?thesis
    using Inr app e(1) by (cases st) (auto simp: DecideOpenAccount_def split: if_splits, blast)
qed

theorem OpenAccount_alone_witness:
  "\<exists>e s'. applies demo_sv demo_store (OpenAccount demo_sv ''carol'' 5 ''k5'') 1 [e] s' \<and>
     event_key e = (AggregateTypeAccount, ''carol'') \<and>
     account_at (events s') ''carol''
       = Inr \<lparr>AccountState.AccountID = ''carol'', Version = 1, Opened = True, BalanceCents = 5\<rparr>"
  using OpenAccount_alone [OF demo_ready demo_states(3), of "''k5''" 5] by simp

text \<open>
  \<open>AdjustInventory\<close> on an item that is read as \<open>st\<close>: refused when the change is 0 or takes more
  than is available; then the available quantity has changed by it, the reserved one has not.
\<close>

theorem AdjustInventory_alone:
  assumes "ready sv s key" and "item_at (events s) i = Inr st"
  shows "if n = 0 then rejects s (AdjustInventory sv i n reason key NoVersionCheck) ErrInvalidQuantity
    else if n <s 0 \<and> AvailableQuantity st + n <s 0
    then rejects s (AdjustInventory sv i n reason key NoVersionCheck) ErrInsufficientStock
    else \<exists>e s'. applies sv s (AdjustInventory sv i n reason key NoVersionCheck)
        (InventoryState.Version st + 1) [e] s' \<and>
      event_key e = (AggregateTypeInventoryItem, i) \<and>
      item_at (events s') i = Inr (st\<lparr>InventoryState.Version := InventoryState.Version st + 1,
        AvailableQuantity := AvailableQuantity st + n\<rparr>)"
  using item_command [OF assms, of "\<lambda>st. DecideAdjustInventory st i n reason" EventInventoryAdjusted marshal_InventoryAdjusted "\<lambda>a st. st\<lparr>AvailableQuantity := AvailableQuantity st + DeltaQuantity a\<rparr>"] versioned_decisions(4)
  by (auto simp: command_simps DecideAdjustInventory_def split: if_splits)

theorem AdjustInventory_alone_witness:
  "rejects demo_store (AdjustInventory demo_sv ''widget'' (-7) [] ''k5'' NoVersionCheck) ErrInsufficientStock"
  using AdjustInventory_alone [OF demo_ready demo_states(4), of "''k5''" "-7" "[]"] by simp

text \<open>
  C24: \<open>ReserveStock\<close> on an item that is read as \<open>st\<close>: refused unless the quantity is positive and
  available; then it has moved from the available to the reserved quantity.
\<close>

theorem ReserveStock_alone:
  assumes "ready sv s key" and "item_at (events s) i = Inr st"
  shows "if n \<le>s 0 then rejects s (ReserveStock sv i n order key NoVersionCheck) ErrInvalidQuantity
    else if AvailableQuantity st <s n
    then rejects s (ReserveStock sv i n order key NoVersionCheck) ErrInsufficientStock
    else \<exists>e s'. applies sv s (ReserveStock sv i n order key NoVersionCheck)
        (InventoryState.Version st + 1) [e] s' \<and>
      event_key e = (AggregateTypeInventoryItem, i) \<and>
      item_at (events s') i = Inr (st\<lparr>InventoryState.Version := InventoryState.Version st + 1,
        AvailableQuantity := AvailableQuantity st - n, ReservedQuantity := ReservedQuantity st + n\<rparr>)"
  using item_command [OF assms, of "\<lambda>st. DecideReserveStock st i n order" EventStockReserved marshal_StockReserved "\<lambda>r st. st\<lparr>AvailableQuantity := AvailableQuantity st - StockReserved.Quantity r,
       ReservedQuantity := ReservedQuantity st + StockReserved.Quantity r\<rparr>"] versioned_decisions(5)
  by (simp add: command_simps DecideReserveStock_def split: if_splits)

theorem ReserveStock_alone_witness:
  "\<exists>e s'. applies demo_sv demo_store (ReserveStock demo_sv ''widget'' 6 ''o2'' ''k5'' NoVersionCheck) 3 [e] s' \<and>
     event_key e = (AggregateTypeInventoryItem, ''widget'') \<and>
     item_at (events s') ''widget'' = Inr \<lparr>InventoryState.ItemID = ''widget'', Version = 3,
       AvailableQuantity = 0, ReservedQuantity = 10\<rparr>"
  using ReserveStock_alone [OF demo_ready demo_states(4), of "''k5''" 6 "''o2''"] by simp

text \<open>
  \<open>ReleaseStock\<close> on an item that is read as \<open>st\<close>: refused unless the quantity is positive and
  reserved; then it has moved from the reserved back to the available quantity.
\<close>

theorem ReleaseStock_alone:
  assumes "ready sv s key" and "item_at (events s) i = Inr st"
  shows "if n \<le>s 0 then rejects s (ReleaseStock sv i n order key NoVersionCheck) ErrInvalidQuantity
    else if ReservedQuantity st <s n
    then rejects s (ReleaseStock sv i n order key NoVersionCheck) ErrInsufficientStock
    else \<exists>e s'. applies sv s (ReleaseStock sv i n order key NoVersionCheck)
        (InventoryState.Version st + 1) [e] s' \<and>
      event_key e = (AggregateTypeInventoryItem, i) \<and>
      item_at (events s') i = Inr (st\<lparr>InventoryState.Version := InventoryState.Version st + 1,
        ReservedQuantity := ReservedQuantity st - n, AvailableQuantity := AvailableQuantity st + n\<rparr>)"
  using item_command [OF assms, of "\<lambda>st. DecideReleaseStock st i n order" EventStockReleased marshal_StockReleased "\<lambda>r st. st\<lparr>ReservedQuantity := ReservedQuantity st - StockReleased.Quantity r,
       AvailableQuantity := AvailableQuantity st + StockReleased.Quantity r\<rparr>"] versioned_decisions(6)
  by (simp add: command_simps DecideReleaseStock_def split: if_splits)

theorem ReleaseStock_alone_witness:
  "rejects demo_store (ReleaseStock demo_sv ''widget'' 5 ''o1'' ''k5'' NoVersionCheck) ErrInsufficientStock"
  using ReleaseStock_alone [OF demo_ready demo_states(4), of "''k5''" 5 "''o1''"] by simp

subsection \<open>Transfer\<close>

lemma account_version:
  assumes "log_wf L" and "account_at L i = Inr st"
  shows "AccountState.Version st = stream_version L (AggregateTypeAccount, i)"
  using FoldAccount_version [OF assms(2)] last_version [OF assms(1), of "(AggregateTypeAccount, i)"]
  by simp

lemma Transfer_loop_applies:
  assumes "ready sv s key" and "src \<noteq> dst"
    and "account_at (events s) src = Inr fa" and "account_at (events s) dst = Inr ta"
    and "DecideWithdraw fa n reason = Inr w" and "DecideDeposit ta n reason = Inr d"
  shows "\<exists>e f s'. applies sv s (Transfer_loop sv src dst n key reason 0) (AccountState.Version fa + 1) [e, f] s' \<and>
    event_key e = (AggregateTypeAccount, src) \<and> event_key f = (AggregateTypeAccount, dst) \<and>
    account_at (events s') src = Inr (fa\<lparr>AccountState.Version := AccountState.Version fa + 1,
      BalanceCents := BalanceCents fa - FundsWithdrawn.AmountCents w\<rparr>) \<and>
    account_at (events s') dst = Inr (ta\<lparr>AccountState.Version := AccountState.Version ta + 1,
      BalanceCents := BalanceCents ta + FundsDeposited.AmountCents d\<rparr>)"
proof -
  let ?as = "transfer_batch src dst w (AccountState.Version fa) d (AccountState.Version ta)"
  have wf: "log_wf (events s)" by (rule mem.inv_log [OF readyD(1) [OF assms(1)]])
  note v = account_version [OF wf assms(3)] account_version [OF wf assms(4)]
  obtain r s' where app: "mem_Append key ?as s = (r, s')" by fastforce
  have "versions_match (stream_version (events s)) ?as"
    using assms(2) v by (simp add: transfer_batch_def)
  moreover have "length (events s) + length ?as \<le> log_capacity"
    using readyD(4) [OF assms(1)] by (simp add: transfer_batch_def)
  ultimately obtain es where es: "r = Inr (es, False)" "recorded_as key (events s) ?as es"
    "events s' = events s @ es" "mem_inv s'"
    using mem.append_fresh [of s key ?as r s'] readyD(1,2) [OF assms(1)] app
    by (auto simp: unused_key_def)
  from es(2) obtain e f where ef: "es = [e, f]" "event_key e = (AggregateTypeAccount, src)"
    "event_key f = (AggregateTypeAccount, dst)" "Event.Version e = AccountState.Version fa + 1"
    "Event.Version f = AccountState.Version ta + 1" "Event.EventType e = EventFundsWithdrawn"
    "Event.EventType f = EventFundsDeposited" "Event.Payload e = marshal_FundsWithdrawn w"
    "Event.Payload f = marshal_FundsDeposited d"
    using v assms(2) by (auto simp: transfer_batch_def recorded_two records_def stream_version_snoc)
  have "run memory_Store (Transfer_loop sv src dst n key reason 0) s
      = run memory_Store (appliedResult sv es) s'"
    using assms(3-6) app es(1) mem.load_stream [OF readyD(1) [OF assms(1)]]
    by (subst Transfer_loop_unfold) (simp add: loadAccount_def)
  then show ?thesis
    using ef es assms(2-4) unfolding applies_def
    by (intro exI [of _ e] exI [of _ f] exI [of _ s'])
       (simp add: run_appliedResult FoldAccount_snoc account_step_marshal)
qed

lemma Transfer_loop_rejects:
  assumes "ready sv s key" and "account_at (events s) src = Inr fa" and "account_at (events s) dst = Inr ta"
    and "DecideWithdraw fa n reason = Inl err \<or>
      (\<exists>w. DecideWithdraw fa n reason = Inr w) \<and> DecideDeposit ta n reason = Inl err"
  shows "rejects s (Transfer_loop sv src dst n key reason 0) err"
  using assms(2-4) mem.load_stream [OF readyD(1) [OF assms(1)]] unfolding rejects_def
  by (subst Transfer_loop_unfold) (auto simp: loadAccount_def)

text \<open>
  C25: \<open>Transfer\<close> between two accounts that are read as \<open>fa\<close> and \<open>ta\<close>: refused, with nothing
  written to either, unless both are open and the amount is positive and covered; then both
  events are appended in one batch, and what one balance loses the other gains.
\<close>

theorem Transfer_alone:
  assumes "ready sv s key" and "src \<noteq> dst"
    and "account_at (events s) src = Inr fa" and "account_at (events s) dst = Inr ta"
  shows "if \<not> Opened fa then rejects s (Transfer sv src dst n key) ErrAccountNotOpen
    else if n \<le>s 0 then rejects s (Transfer sv src dst n key) ErrInvalidAmount
    else if BalanceCents fa <s n then rejects s (Transfer sv src dst n key) ErrInsufficientFunds
    else if \<not> Opened ta then rejects s (Transfer sv src dst n key) ErrAccountNotOpen
    else \<exists>e f s'. applies sv s (Transfer sv src dst n key) (AccountState.Version fa + 1) [e, f] s' \<and>
      event_key e = (AggregateTypeAccount, src) \<and> event_key f = (AggregateTypeAccount, dst) \<and>
      account_at (events s') src = Inr (fa\<lparr>AccountState.Version := AccountState.Version fa + 1,
        BalanceCents := BalanceCents fa - n\<rparr>) \<and>
      account_at (events s') dst = Inr (ta\<lparr>AccountState.Version := AccountState.Version ta + 1,
        BalanceCents := BalanceCents ta + n\<rparr>)"
proof -
  let ?p = "Transfer_loop sv src dst n key (''transfer:'' @ key) 0"
  have run: "run memory_Store (Transfer sv src dst n key) s = run memory_Store ?p s"
    by (rule mem.run_Transfer(2) [OF readyD(1) [OF assms(1)] assms(2) readyD(2) [OF assms(1)]])
  have same: "rejects s (Transfer sv src dst n key) err = rejects s ?p err"
    "applies sv s (Transfer sv src dst n key) v es s' = applies sv s ?p v es s'" for err v es s'
    by (simp_all only: rejects_def applies_def run)
  note reject = Transfer_loop_rejects [OF assms(1,3,4), of n "''transfer:'' @ key"]
  note accept = Transfer_loop_applies [OF assms, of n "''transfer:'' @ key" _ , OF _ _,
    of "\<lparr>FundsWithdrawn.AccountID = AccountState.AccountID fa, AmountCents = n, Reason = ''transfer:'' @ key\<rparr>"
       "\<lparr>FundsDeposited.AccountID = AccountState.AccountID ta, AmountCents = n, Reason = ''transfer:'' @ key\<rparr>"]
  show ?thesis
    unfolding same using reject accept
    by (simp add: DecideWithdraw_def DecideDeposit_def del: append.simps)
qed

theorem Transfer_alone_witness:
  "\<exists>e f s'. applies demo_sv demo_store (Transfer demo_sv ''alice'' ''bob'' 60 ''k5'') 2 [e, f] s' \<and>
     event_key e = (AggregateTypeAccount, ''alice'') \<and> event_key f = (AggregateTypeAccount, ''bob'') \<and>
     account_at (events s') ''alice''
       = Inr \<lparr>AccountState.AccountID = ''alice'', Version = 2, Opened = True, BalanceCents = 40\<rparr> \<and>
     account_at (events s') ''bob''
       = Inr \<lparr>AccountState.AccountID = ''bob'', Version = 2, Opened = True, BalanceCents = 110\<rparr>"
  using Transfer_alone [OF demo_ready _ demo_states(1,2), of "''k5''" 60] by simp

subsection \<open>Every command: errors, retries, pinned versions\<close>

lemma run_handler_outcome:
  assumes "handler sv k key p" and "mem_inv s" and "length (events s) + 2 \<le> log_capacity"
    and "run memory_Store p s = (r, s', pub)"
  shows "r \<noteq> None \<and> (\<forall>err. r = Some (Inl err) \<longrightarrow> events s' = events s \<and> dedupe s' = dedupe s \<and> pub = [])"
proof (cases "unused_key (dedupe s) key")
  case True
  from mem.run_handler_alone [OF assms(1-3) True assms(4)] show ?thesis by (auto simp: alone_def)
next
  case False
  then obtain es where "key \<noteq> []" "dedupe s key = Some es" by (auto simp: unused_key_def)
  with mem.run_handler_duplicate [OF assms(1)] assms(2) have
    "run memory_Store p s \<in> {(Some (Inl ErrSameAccountTransfer), s, []),
       (Some (Inr (duplicateResult es (fst k) (snd k))), s, [])}" by blast
  with assms(4) show ?thesis by auto
qed

text \<open>
  C26: No command panics, and one that answers an error has written nothing to the log, left the
  dedupe table as it was and published nothing.
\<close>

theorem command_errors:
  assumes "handler sv k key p" and "mem_inv s" and "length (events s) + 2 \<le> log_capacity"
  shows "\<exists>r s' pub. run memory_Store p s = (Some r, s', pub) \<and>
    (\<forall>err. r = Inl err \<longrightarrow> events s' = events s \<and> dedupe s' = dedupe s \<and> pub = [])"
  using run_handler_outcome [OF assms, of "fst (run memory_Store p s)" "fst (snd (run memory_Store p s))"
      "snd (snd (run memory_Store p s))"] by (auto simp: prod_eq_iff)

theorem command_errors_witness:
  "\<exists>r s' pub. run memory_Store (Withdraw demo_sv ''alice'' 500 [] ''k5'' NoVersionCheck) demo_store
     = (Some r, s', pub) \<and>
     (\<forall>err. r = Inl err \<longrightarrow> events s' = events demo_store \<and> dedupe s' = dedupe demo_store \<and> pub = [])"
proof -
  have "length (events demo_store) + 2 \<le> log_capacity" by (simp add: demo_length log_capacity_def)
  from command_errors [OF h_withdraw demo_inv this] show ?thesis .
qed

text \<open>
  C27: Retries are idempotent: a command that was answered under a non-empty dedupe key, run
  again, is answered as a duplicate with the same version, changes nothing and publishes
  nothing.
\<close>

theorem command_retry:
  assumes "handler sv k key p" and "mem_inv s" and "length (events s) + 2 \<le> log_capacity"
    and "key \<noteq> []" and "run memory_Store p s = (Some (Inr res), s', pub)"
  shows "run memory_Store p s'
    = (Some (Inr \<lparr>Applied = False, Duplicate = True, NewVersion = NewVersion res\<rparr>), s', [])"
  using assms by (rule mem.run_handler_retry)

lemma demo_transfer:
  "\<exists>s' pub. run memory_Store (Transfer demo_sv ''alice'' ''bob'' 60 ''k5'') demo_store
     = (Some (Inr \<lparr>Applied = True, Duplicate = False, NewVersion = 2\<rparr>), s', pub)"
proof -
  have "fst (run memory_Store (Transfer demo_sv ''alice'' ''bob'' 60 ''k5'') demo_store)
      = Some (Inr \<lparr>Applied = True, Duplicate = False, NewVersion = 2\<rparr>)"
    by code_simp
  then show ?thesis by (metis prod.collapse)
qed

theorem command_retry_witness:
  "\<exists>s' pub. run memory_Store (Transfer demo_sv ''alice'' ''bob'' 60 ''k5'') demo_store
      = (Some (Inr \<lparr>Applied = True, Duplicate = False, NewVersion = 2\<rparr>), s', pub) \<and>
    run memory_Store (Transfer demo_sv ''alice'' ''bob'' 60 ''k5'') s'
      = (Some (Inr \<lparr>Applied = False, Duplicate = True, NewVersion = 2\<rparr>), s', [])"
proof -
  have room: "length (events demo_store) + 2 \<le> log_capacity" by (simp add: demo_length log_capacity_def)
  from demo_transfer obtain s' pub where
    r: "run memory_Store (Transfer demo_sv ''alice'' ''bob'' 60 ''k5'') demo_store
      = (Some (Inr \<lparr>Applied = True, Duplicate = False, NewVersion = 2\<rparr>), s', pub)" by blast
  from command_retry [OF h_transfer demo_inv room _ r] r show ?thesis by simp
qed

text \<open>
  A command pinned to a version is compare-and-swap: on a stream at another version, even one
  the decision would accept is answered with \<open>ErrVersionConflict\<close> at once, with nothing written.
\<close>

theorem pinned_conflict:
  assumes "mem_inv s" and "unused_key (dedupe s) key" and "v \<noteq> NoVersionCheck"
    and "account_at (events s) i = Inr st" and "AccountState.Version st \<noteq> v"
    and "Opened st" and "0 <s n" and "n \<le>s BalanceCents st"
    and "p = Withdraw sv i n reason key v \<or> p = Deposit sv i n reason key v"
  shows "\<exists>s'. run memory_Store p s = (Some (Inl ErrVersionConflict), s', []) \<and>
    events s' = events s \<and> dedupe s' = dedupe s \<and> mem_inv s'"
proof -
  have "stream_version (events s) (AggregateTypeAccount, i) \<noteq> v"
    using account_version [OF mem.inv_log [OF assms(1)] assms(4)] assms(5) by simp
  note conflict = mem.run_cmd_pinned_conflict [OF assms(1-3) this, where sv = sv]
  obtain w where "DecideWithdraw st n reason = Inr w"
    using assms(6-8) by (simp add: DecideWithdraw_def)
  note withdraw = conflict [of "withdraw_decision i n reason", OF withdraw_decision_Inr [OF assms(4) this]]
  obtain d where "DecideDeposit st n reason = Inr d"
    using assms(6-8) by (simp add: DecideDeposit_def)
  note deposit = conflict [of "deposit_decision i n reason", OF deposit_decision_Inr [OF assms(4) this]]
  from assms(9) withdraw deposit show ?thesis by (auto simp: one_stream_handlers)
qed

theorem pinned_conflict_witness:
  "\<exists>s'. run memory_Store (Withdraw demo_sv ''alice'' 30 [] ''k5'' 7) demo_store
     = (Some (Inl ErrVersionConflict), s', []) \<and>
   events s' = events demo_store \<and> dedupe s' = dedupe demo_store \<and> mem_inv s'"
  using pinned_conflict [OF demo_inv _ _ demo_states(1), of "''k5''" 7 30
      "Withdraw demo_sv ''alice'' 30 [] ''k5'' 7" demo_sv "[]"] readyD(2) [OF demo_ready, of "''k5''"]
  by (simp add: NoVersionCheck_def)

text \<open>
  A \<open>Deposit\<close> with expected version 0 never succeeds: version 0 is that of an account that was
  not opened.  It is what a gRPC client that leaves \<open>expected_version\<close> out sends.
\<close>

theorem Deposit_version_zero:
  assumes "mem_inv s" and "unused_key (dedupe s) key"
  shows "\<exists>err s'. run memory_Store (Deposit sv i n reason key 0) s = (Some (Inl err), s', []) \<and>
    events s' = events s"
proof -
  let ?k = "(AggregateTypeAccount, i)"
  let ?d = "deposit_decision i n reason"
  have v: "(0 :: int64) \<noteq> NoVersionCheck" by (simp add: NoVersionCheck_def)
  show ?thesis
  proof (cases "?d (stream_events (events s) ?k)")
    case (Inl err)
    with mem.run_cmd_rejected [OF assms, of "planVersion sv 0" ?d ?k err sv] show ?thesis
      by (simp add: one_stream_handlers pinned_attempts [OF v])
  next
    case (Inr a)
    then have "stream_events (events s) ?k \<noteq> []"
      by (auto simp: deposit_decision_def account_decision_def DecideDeposit_def)
    then have "stream_version (events s) ?k \<noteq> 0"
      using stream_version_zero [OF mem.inv_log [OF assms(1)]] by simp
    with Inr mem.run_cmd_pinned_conflict [OF assms v this, of ?d _ _ _ sv] show ?thesis
      by (cases a) (auto simp: one_stream_handlers)
  qed
qed

theorem Deposit_version_zero_witness:
  "\<exists>err s'. run memory_Store (Deposit demo_sv ''alice'' 30 [] ''k5'' 0) demo_store
     = (Some (Inl err), s', []) \<and> events s' = events demo_store"
  by (rule Deposit_version_zero [OF demo_inv readyD(2) [OF demo_ready]]) simp

end
