(* ===== verification/Guarantees.thy ===== *)
theory Guarantees imports Commands begin

text \<open>
  What the service guarantees when any number of commands run at once on the in-memory store,
  and the schedules on which it does not keep what it means to: a schedule player makes
  interleavings executable.
\<close>

section \<open>Playing a schedule\<close>

datatype move = Arrive request proc | Call nat

text \<open>Handler \<open>i\<close> makes its next call.\<close>

definition sys_call :: "'s Store \<Rightarrow> nat \<Rightarrow> 's sys \<Rightarrow> 's sys" where
  "sys_call S i y =
     (if i < length (threads y) then
        (case threads y ! i of (q, p) \<Rightarrow>
         case call_step S p (store y) of (p', s', pub) \<Rightarrow>
           y\<lparr>store := s', threads := (threads y)[i := (q, p')], published := published y @ pub\<rparr>)
      else y)"

fun play :: "'s Store \<Rightarrow> move list \<Rightarrow> 's sys \<Rightarrow> 's sys" where
  "play S [] y = y"
| "play S (Arrive q p # ms) y = play S ms (y\<lparr>threads := threads y @ [(q, p)]\<rparr>)"
| "play S (Call i # ms) y = play S ms (sys_call S i y)"

fun arrivals :: "move list \<Rightarrow> (request \<times> proc) list" where
  "arrivals [] = []"
| "arrivals (Arrive q p # ms) = (q, p) # arrivals ms"
| "arrivals (Call i # ms) = arrivals ms"

lemma sys_call_step: "i < length (threads y) \<Longrightarrow> sys_step S sv y (sys_call S i y)"
  by (auto simp: sys_call_def intro: call split: prod.split)

lemma sys_call_idle: "\<not> i < length (threads y) \<Longrightarrow> sys_call S i y = y"
  by (simp add: sys_call_def)

lemma play_reaches:
  "reaches S sv s0 n y \<Longrightarrow> \<forall>(q, p)\<in>set (arrivals ms). command sv q p \<Longrightarrow>
   \<exists>m\<le>n + length ms. reaches S sv s0 m (play S ms y)"
proof (induction S ms y arbitrary: n rule: play.induct)
  case (1 S y)
  then show ?case by auto
next
  case (2 S q p ms y)
  then have "reaches S sv s0 (Suc n) (y\<lparr>threads := threads y @ [(q, p)]\<rparr>)"
    by (auto intro: further arrive)
  from "2.IH" [OF this] "2.prems" show ?case by auto
next
  case (3 S i ms y)
  obtain k where k: "k \<le> Suc n" "reaches S sv s0 k (sys_call S i y)"
  proof (cases "i < length (threads y)")
    case True
    from further [OF "3.prems"(1) sys_call_step [OF True]] that show ?thesis by blast
  next
    case False
    with "3.prems"(1) that [of n] show ?thesis by (simp add: sys_call_idle)
  qed
  with "3.IH" [OF k(2)] "3.prems"(2) obtain m where
    "m \<le> k + length ms" "reaches S sv s0 m (play S ms (sys_call S i y))" by auto
  with k(1) show ?case by (intro exI [of _ m]) simp
qed

text \<open>The requests that have been answered, with their answers.\<close>

definition answers :: "(request \<times> proc) list \<Rightarrow> (request \<times> (error + Result)) option list" where
  "answers ts = map (\<lambda>(q, p). case p of Return r \<Rightarrow> Some (q, r) | _ \<Rightarrow> None) ts"

lemma answers_nth:
  assumes "answers ts = xs" and "i < length xs" and "xs ! i = Some (q, r)"
  shows "i < length ts \<and> ts ! i = (q, Return r)"
proof -
  from assms(1,2) have "i < length ts" by (auto simp: answers_def)
  moreover from this assms(1,3) have "(\<lambda>(q, p). case p of Return r \<Rightarrow> Some (q, r) | _ \<Rightarrow> None) (ts ! i) = Some (q, r)"
    by (auto simp: answers_def)
  ultimately show ?thesis by (cases "ts ! i") (auto split: proc.splits)
qed

lemma answers_set:
  assumes "answers ts = xs" and "i < length xs" and "xs ! i = Some (q, r)"
  shows "(q, Return r) \<in> set ts"
  using answers_nth [OF assms] nth_mem by metis

definition idle :: "mem_store sys" where
  "idle = \<lparr>store = mem_New (\<lambda>_. 0), threads = [], published = []\<rparr>"

text \<open>
  The race of the tests: two withdrawals of 80 from a balance of 100, both of which read the
  account before either writes.
\<close>

definition race :: "move list" where
  "race =
     [Arrive ((AggregateTypeAccount, ''alice''), ''k1'') (OpenAccount demo_sv ''alice'' 100 ''k1''),
      Call 0, Call 0, Call 0, Call 0,
      Arrive ((AggregateTypeAccount, ''alice''), ''k2'') (Withdraw demo_sv ''alice'' 80 [] ''k2'' NoVersionCheck),
      Arrive ((AggregateTypeAccount, ''alice''), ''k3'') (Withdraw demo_sv ''alice'' 80 [] ''k3'' NoVersionCheck),
      Call 1, Call 2, Call 1, Call 2, Call 1, Call 2, Call 1, Call 2]"

lemma race_reaches: "\<exists>m\<le>15. reaches memory_Store demo_sv (mem_New (\<lambda>_. 0)) m (play memory_Store race idle)"
proof -
  have "reaches memory_Store demo_sv (mem_New (\<lambda>_. 0)) 0 idle" unfolding idle_def by (rule start)
  moreover have "\<forall>(q, p)\<in>set (arrivals race). command demo_sv q p"
    by (auto simp: race_def intro: command.intros)
  ultimately have "\<exists>m\<le>0 + length race. reaches memory_Store demo_sv (mem_New (\<lambda>_. 0)) m (play memory_Store race idle)"
    by (rule play_reaches)
  moreover have "length race = 15" by (simp add: race_def)
  ultimately show ?thesis by simp
qed

lemma race_outcome:
  "account_at (events (store (play memory_Store race idle))) ''alice''
     = Inr \<lparr>AccountState.AccountID = ''alice'', Version = 2, Opened = True, BalanceCents = 20\<rparr>"
  "answers (threads (play memory_Store race idle))
     = [Some (((AggregateTypeAccount, ''alice''), ''k1''),
          Inr \<lparr>Applied = True, Duplicate = False, NewVersion = 1\<rparr>),
        Some (((AggregateTypeAccount, ''alice''), ''k2''),
          Inr \<lparr>Applied = True, Duplicate = False, NewVersion = 2\<rparr>),
        Some (((AggregateTypeAccount, ''alice''), ''k3''), Inl ErrInsufficientFunds)]"
  "total_in (stream_events (events (store (play memory_Store race idle))) (AggregateTypeAccount, ''alice'')) = 100"
  by code_simp+

section \<open>What holds of every interleaving\<close>

lemma reaches_mem_inv:
  assumes "reaches memory_Store sv (mem_New clock) n y" and "2 * n \<le> log_capacity"
  shows "sys_inv events dedupe mem_inv n y"
  using mem.reaches_inv [OF assms(1) mem_inv_New _ assms(2)] by (simp add: mem_New_def)

lemma small_run: "n \<le> 100 \<Longrightarrow> 2 * n \<le> log_capacity"
  by (simp add: log_capacity_def)




definition stock_race :: "move list" where
  "stock_race =
     [Arrive ((AggregateTypeInventoryItem, ''widget''), ''k1'')
        (AdjustInventory demo_sv ''widget'' 10 [] ''k1'' NoVersionCheck),
      Call 0, Call 0, Call 0, Call 0,
      Arrive ((AggregateTypeInventoryItem, ''widget''), []) (ReserveStock demo_sv ''widget'' 7 ''o1'' [] NoVersionCheck),
      Arrive ((AggregateTypeInventoryItem, ''widget''), []) (ReserveStock demo_sv ''widget'' 7 ''o2'' [] NoVersionCheck),
      Call 1, Call 2, Call 2, Call 1, Call 1]"




text \<open>
  C4: Effectively once.  Of any number of commands that run at once under the same non-empty dedupe
  key, at most one is ever answered \<open>Applied\<close>.
\<close>

theorem at_most_one_applied:
  assumes "reaches memory_Store sv (mem_New clock) n y" and "2 * n \<le> log_capacity"
    and "i < j" and "j < length (threads y)"
    and "threads y ! i = ((k, key), Return (Inr res))" and "threads y ! j = ((k', key), Return (Inr res'))"
    and "key \<noteq> []"
  shows "\<not> (Applied res \<and> Applied res')"
proof
  assume "Applied res \<and> Applied res'"
  then have "2 \<le> winners (threads y) key"
    using winners_two [OF assms(3-6), of key] by simp
  moreover have "winners (threads y) key \<le> 1"
  proof -
    have "winners (threads y) key \<le> (if dedupe (store y) key = None then 0 else 1)"
      using reaches_mem_inv [OF assms(1,2)] assms(7) by (simp add: sys_inv_def)
    then show ?thesis by (simp split: if_splits)
  qed
  ultimately show False by simp
qed

text \<open>The same deposit sent twice at once, as a client that retries too early does.\<close>

definition retry_race :: "move list" where
  "retry_race =
     [Arrive ((AggregateTypeAccount, ''alice''), ''k1'') (OpenAccount demo_sv ''alice'' 100 ''k1''),
      Call 0, Call 0, Call 0, Call 0,
      Arrive ((AggregateTypeAccount, ''alice''), ''k2'') (Deposit demo_sv ''alice'' 80 [] ''k2'' NoVersionCheck),
      Arrive ((AggregateTypeAccount, ''alice''), ''k2'') (Deposit demo_sv ''alice'' 80 [] ''k2'' NoVersionCheck),
      Call 1, Call 2, Call 1, Call 2, Call 1, Call 2, Call 1]"

lemma retry_race_outcome:
  "answers (threads (play memory_Store retry_race idle))
     = [Some (((AggregateTypeAccount, ''alice''), ''k1''),
          Inr \<lparr>Applied = True, Duplicate = False, NewVersion = 1\<rparr>),
        Some (((AggregateTypeAccount, ''alice''), ''k2''),
          Inr \<lparr>Applied = True, Duplicate = False, NewVersion = 2\<rparr>),
        Some (((AggregateTypeAccount, ''alice''), ''k2''),
          Inr \<lparr>Applied = False, Duplicate = True, NewVersion = 2\<rparr>)]"
  by code_simp

lemma retry_race_reaches:
  obtains m where "m \<le> 14"
    and "reaches memory_Store demo_sv (mem_New (\<lambda>_. 0)) m (play memory_Store retry_race idle)"
proof -
  have start: "reaches memory_Store demo_sv (mem_New (\<lambda>_. 0)) 0 idle"
    unfolding idle_def by (rule start)
  have "\<forall>(q, p)\<in>set (arrivals retry_race). command demo_sv q p"
    by (auto simp: retry_race_def intro: command.intros)
  moreover have "length retry_race = 14" by (simp add: retry_race_def)
  ultimately show thesis using play_reaches [OF start, of retry_race] that by auto
qed

theorem at_most_one_applied_witness:
  "\<not> (Applied \<lparr>Applied = True, Duplicate = False, NewVersion = 2\<rparr> \<and>
      Applied \<lparr>Applied = False, Duplicate = True, NewVersion = 2\<rparr>) \<and>
   threads (play memory_Store retry_race idle) ! 2 = (((AggregateTypeAccount, ''alice''), ''k2''),
     Return (Inr \<lparr>Applied = False, Duplicate = True, NewVersion = 2\<rparr>))"
proof -
  obtain m where m: "m \<le> 14"
    "reaches memory_Store demo_sv (mem_New (\<lambda>_. 0)) m (play memory_Store retry_race idle)"
    by (rule retry_race_reaches)
  note ts = answers_nth [OF retry_race_outcome, of 1] answers_nth [OF retry_race_outcome, of 2]
  from at_most_one_applied [OF m(2) small_run, of 1 2] m(1) ts show ?thesis by simp
qed



section \<open>How long a command takes\<close>

text \<open>\<open>within p n\<close>: \<open>p\<close> returns after at most \<open>n\<close> calls, whatever the store answers.\<close>

primrec within :: "proc \<Rightarrow> nat \<Rightarrow> bool" where
  "within (Return r) n \<longleftrightarrow> True"
| "within Panic n \<longleftrightarrow> True"
| "within (DoLookupDedupe key f) n \<longleftrightarrow> 0 < n \<and> (\<forall>r. within (f r) (n - 1))"
| "within (DoLoadStream ty aid f) n \<longleftrightarrow> 0 < n \<and> (\<forall>r. within (f r) (n - 1))"
| "within (DoAppend key as f) n \<longleftrightarrow> 0 < n \<and> (\<forall>r. within (f r) (n - 1))"
| "within (DoPublish es p) n \<longleftrightarrow> 0 < n \<and> within p (n - 1)"

lemma within_mono: "within p m \<Longrightarrow> m \<le> n \<Longrightarrow> within p n"
proof (induction p arbitrary: m n)
  case (DoPublish es p)
  then show ?case using diff_le_mono [of m n 1] by auto
qed (simp_all, (meson diff_le_mono less_le_trans rangeI)+)

lemma within_appliedResult: "0 < n \<Longrightarrow> within (appliedResult sv es) n"
  by (auto simp: appliedResult_def publish_def split: list.splits)

lemma within_cmd_loop: "within (cmd_loop sv k d key plan a) (2 * attempts_left plan a + 1)"
proof (induction "attempts_left plan a" arbitrary: a rule: less_induct)
  case less
  show ?case
  proof (cases "a <s maxAttempts plan")
    case True
    then have "attempts_left plan (a + 1) < attempts_left plan a" by (simp add: attempts_left_decr)
    with less [of "a + 1"] have "within (cmd_loop sv k d key plan (a + 1)) (2 * attempts_left plan a - 1)"
      by (auto elim!: within_mono)
    with True \<open>attempts_left plan (a + 1) < attempts_left plan a\<close> show ?thesis
      by (subst cmd_loop.simps) (auto intro!: within_appliedResult split: sum.splits)
  next
    case False
    then show ?thesis by (subst cmd_loop.simps) simp
  qed
qed

lemma within_Transfer_loop:
  "within (Transfer_loop sv i j n key reason a) (3 * nat (sint (maxRetries sv) - sint a) + 4)"
proof (induction "nat (sint (maxRetries sv) - sint a)" arbitrary: a rule: less_induct)
  case less
  have "within (Transfer_loop sv i j n key reason (a + 1)) (3 * nat (sint (maxRetries sv) - sint a) + 1)"
    if "a <s maxRetries sv"
  proof -
    have "nat (sint (maxRetries sv) - sint (a + 1)) < nat (sint (maxRetries sv) - sint a)"
      using that by (simp add: sint_suc_no_overflow)
    with less [of "a + 1"] show ?thesis by (auto elim!: within_mono)
  qed
  then show ?case
    by (subst Transfer_loop_unfold)
       (auto simp: loadAccount_def intro!: within_appliedResult split: sum.splits)
qed

lemma within_cmd: "within (cmd sv k d key plan) (2 * attempts_left plan 0 + 2)"
  using within_cmd_loop [of sv k d key plan 0]
  by (auto simp: cmd_def Let_def split: sum.splits elim!: within_mono)

lemma within_Transfer: "within (Transfer sv i j n key) (3 * nat (sint (maxRetries sv)) + 5)"
  using within_Transfer_loop [of sv i j n key "''transfer:'' @ key" 0]
  by (auto simp: Transfer_def Let_def simp del: append.simps split: sum.splits elim!: within_mono)

lemma attempts_auto: "attempts_left (planVersion sv v) 0 \<le> nat (sint (maxRetries sv)) + 1"
proof (cases "v = NoVersionCheck")
  case True
  show ?thesis
  proof (cases "retries_ok sv")
    case ok: True
    then have "sint (maxRetries sv + 1) = sint (maxRetries sv) + 1"
      using maxRetries_pos [of sv] by (simp add: retries_ok_def sint_add in64_def)
    with True show ?thesis using maxRetries_pos [of sv] by (simp add: attempts_left_def planVersion_def)
  next
    case False
    then have "sint (maxRetries sv) = 2 ^ 63 - 1"
      using sint64_range(2) [of "maxRetries sv"] by (simp add: retries_ok_def)
    then show ?thesis using sint64_lt [of "maxRetries sv + 1"] True
      by (simp add: attempts_left_def planVersion_def)
  qed
qed (simp add: attempts_left_def planVersion_def)

lemma within_auto: "within (cmd sv k d key (planVersion sv v)) (3 * nat (sint (maxRetries sv)) + 5)"
  by (rule within_mono [OF within_cmd]) (use attempts_auto [of sv v] in linarith)

lemma handler_within:
  assumes "handler sv k key p"
  shows "within p (3 * nat (sint (maxRetries sv)) + 5)"
  using assms
proof (induction rule: handler.induct)
  case (h_open i key n)
  show ?case unfolding OpenAccount_cmd
    by (rule within_mono [OF within_cmd]) (simp add: attempts_left_def open_plan_def)
next
  case (h_transfer i key j n)
  show ?case by (rule within_Transfer)
qed (auto simp: one_stream_handlers intro: within_auto)



section \<open>Where the guarantees end\<close>

text \<open>
  A withdrawal pinned to version 2 reads the account at version 1, with a balance of 100.
  Another withdrawal is written in between as version 2.  The pinned one is then accepted: the
  store checks the version the client sent, not the version the decision was taken on.
\<close>

definition pinned_race :: "move list" where
  "pinned_race =
     [Arrive ((AggregateTypeAccount, ''alice''), ''k1'') (OpenAccount demo_sv ''alice'' 100 ''k1''),
      Call 0, Call 0, Call 0, Call 0,
      Arrive ((AggregateTypeAccount, ''alice''), ''k2'') (Withdraw demo_sv ''alice'' 80 [] ''k2'' 2),
      Call 1, Call 1,
      Arrive ((AggregateTypeAccount, ''alice''), ''k3'') (Withdraw demo_sv ''alice'' 80 [] ''k3'' NoVersionCheck),
      Call 2, Call 2, Call 2, Call 2,
      Call 1, Call 1]"



text \<open>
  With the largest retry budget the number of attempts wraps around, and a command without an
  expected version makes none: it is answered with \<open>ErrVersionConflict\<close> whatever the store
  holds.
\<close>

theorem largest_retry_budget:
  "run memory_Store (Deposit \<lparr>HasPublisher = h, MaxRetries = 9223372036854775807\<rparr> i n reason [] NoVersionCheck) s
   = (Some (Inl ErrVersionConflict), s, [])"
proof -
  have "\<not> 0 <s maxAttempts (planVersion \<lparr>HasPublisher = h, MaxRetries = 9223372036854775807\<rparr> NoVersionCheck)"
    by (simp add: planVersion_def maxRetries_def)
  then show ?thesis by (simp add: Deposit_def Let_def Deposit_loop.simps)
qed

end
