(* ===== verification/Projectors.thy ===== *)
theory Projectors imports Projection Guarantees begin

text \<open>
  The two projectors of \<open>cmd/streamledger/main.go\<close> on the in-memory read models: their views
  are the folds of \<open>internal/ledger/state.go\<close>.  Then the properties of the read side:
  redelivery, catching up, and the events that a delivery out of order loses.
\<close>

section \<open>The projectors of the program\<close>

definition balancesProjectionName :: string where "balancesProjectionName = ''balances''"
definition inventoryProjectionName :: string where "inventoryProjectionName = ''inventory''"
definition catchUpBatchSize :: int64 where "catchUpBatchSize = 500"

definition balances :: "(ctx, rm_store) Projector" where
  "balances = NewProjector balancesProjectionName memory_ReadModels (AccountApplier memory_ReadModels)"

definition stock_levels :: "(ctx, rm_store) Projector" where
  "stock_levels = NewProjector inventoryProjectionName memory_ReadModels (InventoryApplier memory_ReadModels)"

section \<open>Views as folds\<close>

text \<open>The row an account's, or an item's, events amount to.\<close>

definition account_row :: "string \<Rightarrow> Event list \<Rightarrow> AccountView option" where
  "account_row i h =
     (if h = [] then None
      else case FoldAccount i h of
        Inl _ \<Rightarrow> None
      | Inr st \<Rightarrow> Some \<lparr>AccountView.AccountID = i, BalanceCents = AccountState.BalanceCents st,
          Version = AccountState.Version st, UpdatedAt = CreatedAt (last h)\<rparr>)"

definition inventory_row :: "string \<Rightarrow> Event list \<Rightarrow> InventoryView option" where
  "inventory_row i h =
     (if h = [] then None
      else case FoldInventory i h of
        Inl _ \<Rightarrow> None
      | Inr st \<Rightarrow> Some \<lparr>InventoryView.ItemID = i,
          AvailableQuantity = InventoryState.AvailableQuantity st,
          ReservedQuantity = InventoryState.ReservedQuantity st,
          Version = InventoryState.Version st, UpdatedAt = CreatedAt (last h)\<rparr>)"

definition account_rows :: "Event list \<Rightarrow> views \<Rightarrow> bool" where
  "account_rows L vs \<longleftrightarrow> (\<forall>i. accounts vs i = account_row i (stream_events L (AggregateTypeAccount, i)))"

definition inventory_rows :: "Event list \<Rightarrow> views \<Rightarrow> bool" where
  "inventory_rows L vs \<longleftrightarrow>
     (\<forall>i. inventory vs i = inventory_row i (stream_events L (AggregateTypeInventoryItem, i)))"

definition accounts_fold :: "Event list \<Rightarrow> bool" where
  "accounts_fold L \<longleftrightarrow> (\<forall>i. \<exists>st. account_at L i = Inr st)"

definition items_fold :: "Event list \<Rightarrow> bool" where
  "items_fold L \<longleftrightarrow> (\<forall>i. \<exists>st. item_at L i = Inr st)"

lemma legal_log_folds: "legal_log L \<Longrightarrow> accounts_fold L" "legal_log L \<Longrightarrow> items_fold L"
  using legal_log_account account_history_folds legal_log_inventory inventory_history_folds
  unfolding accounts_fold_def items_fold_def by blast+

lemma fold_append:
  "accounts_fold (L @ M) \<Longrightarrow> accounts_fold L" "items_fold (L @ M) \<Longrightarrow> items_fold L"
proof -
  have "FoldAccount i (h @ k) = Inr st \<Longrightarrow> \<exists>st. FoldAccount i h = Inr st" for i h k st
    by (auto simp: FoldAccount_def account_loop_append split: sum.splits)
  then show "accounts_fold (L @ M) \<Longrightarrow> accounts_fold L"
    unfolding accounts_fold_def stream_events_append by blast
  have "FoldInventory i (h @ k) = Inr st \<Longrightarrow> \<exists>st. FoldInventory i h = Inr st" for i h k st
    by (auto simp: FoldInventory_def inventory_loop_append split: sum.splits)
  then show "items_fold (L @ M) \<Longrightarrow> items_fold L"
    unfolding items_fold_def stream_events_append by blast
qed

text \<open>One step of the applier is one step of the fold.\<close>

lemma account_view_step_row:
  assumes "event_key e = (AggregateTypeAccount, i)" and "FoldAccount i (h @ [e]) = Inr st"
  shows "\<exists>v. account_view_step e (case account_row i h of None \<Rightarrow> zero_AccountView | Some v \<Rightarrow> v) = Inr v \<and>
    account_row i (h @ [e]) = Some v \<and> AccountView.AccountID v = i"
proof -
  from assms(2) obtain st0 where st0: "FoldAccount i h = Inr st0" "account_step st0 e = Inr st"
    by (auto simp: FoldAccount_snoc split: sum.splits)
  have i: "Event.AggregateID e = i" using assms(1) by (simp add: event_key_def)
  define v0 where "v0 = (case account_row i h of None \<Rightarrow> zero_AccountView | Some v \<Rightarrow> v)"
  have "AccountView.BalanceCents v0 = AccountState.BalanceCents st0"
    using st0(1) by (cases "h = []") (auto simp: v0_def account_row_def zero_AccountView_def)
  with st0(2) i assms(2) show ?thesis unfolding v0_def [symmetric]
    by (auto simp: account_step_def account_view_step_def account_row_def Let_def split: if_splits sum.splits)
qed

lemma inventory_view_step_row:
  assumes "event_key e = (AggregateTypeInventoryItem, i)" and "FoldInventory i (h @ [e]) = Inr st"
  shows "\<exists>v. inventory_view_step e (case inventory_row i h of None \<Rightarrow> zero_InventoryView | Some v \<Rightarrow> v) = Inr v \<and>
    inventory_row i (h @ [e]) = Some v \<and> InventoryView.ItemID v = i"
proof -
  from assms(2) obtain st0 where st0: "FoldInventory i h = Inr st0" "inventory_step st0 e = Inr st"
    by (auto simp: FoldInventory_snoc split: sum.splits)
  have i: "Event.AggregateID e = i" using assms(1) by (simp add: event_key_def)
  define v0 where "v0 = (case inventory_row i h of None \<Rightarrow> zero_InventoryView | Some v \<Rightarrow> v)"
  have "InventoryView.AvailableQuantity v0 = InventoryState.AvailableQuantity st0"
    "InventoryView.ReservedQuantity v0 = InventoryState.ReservedQuantity st0"
    using st0(1) by (cases "h = []"; auto simp: v0_def inventory_row_def zero_InventoryView_def)+
  with st0(2) i assms(2) show ?thesis unfolding v0_def [symmetric]
    by (auto simp: inventory_step_def inventory_view_step_def inventory_row_def Let_def
        split: if_splits sum.splits)
qed

section \<open>The projectors on any read-model store\<close>

text \<open>
  \<open>storable\<close>: the store takes the keys and the times of these events.  \<open>account_rows_at stamp\<close>:
  the rows of \<open>account_rows\<close> with the time stamps as the store keeps them.
\<close>

definition storable :: "(string \<Rightarrow> bool) \<Rightarrow> (time \<Rightarrow> bool) \<Rightarrow> Event list \<Rightarrow> bool" where
  "storable ok_id ok_time L \<longleftrightarrow> (\<forall>e\<in>set L. ok_id (Event.AggregateID e) \<and> ok_time (CreatedAt e))"

definition account_rows_at :: "(time \<Rightarrow> time) \<Rightarrow> Event list \<Rightarrow> views \<Rightarrow> bool" where
  "account_rows_at stamp L vs \<longleftrightarrow> (\<forall>i. accounts vs i =
     map_option (stamp_account stamp) (account_row i (stream_events L (AggregateTypeAccount, i))))"

definition inventory_rows_at :: "(time \<Rightarrow> time) \<Rightarrow> Event list \<Rightarrow> views \<Rightarrow> bool" where
  "inventory_rows_at stamp L vs \<longleftrightarrow> (\<forall>i. inventory vs i =
     map_option (stamp_inventory stamp) (inventory_row i (stream_events L (AggregateTypeInventoryItem, i))))"

lemma rows_at_id: "account_rows_at (\<lambda>t. t) = account_rows" "inventory_rows_at (\<lambda>t. t) = inventory_rows"
  by (simp_all add: fun_eq_iff account_rows_at_def account_rows_def inventory_rows_at_def
      inventory_rows_def option.map_ident)

lemma storable_id: "storable (\<lambda>_. True) (\<lambda>_. True) L"
  by (simp add: storable_def)

lemma account_view_step_stamp:
  "AccountView.BalanceCents v = AccountView.BalanceCents w \<Longrightarrow> account_view_step e v = account_view_step e w"
  by (cases v; cases w) (auto simp: account_view_step_def Let_def split: sum.splits)

lemma inventory_view_step_stamp:
  "InventoryView.AvailableQuantity v = InventoryView.AvailableQuantity w \<Longrightarrow>
   InventoryView.ReservedQuantity v = InventoryView.ReservedQuantity w \<Longrightarrow>
   inventory_view_step e v = inventory_view_step e w"
  by (cases v; cases w) (auto simp: inventory_view_step_def Let_def split: sum.splits)

lemma account_rows_apply:
  assumes "event_key e = (AggregateTypeAccount, i)" and "account_rows_at stamp L vs" and "accounts_fold (L @ [e])"
  shows "\<exists>v. account_view_step e (case accounts vs i of None \<Rightarrow> zero_AccountView | Some v \<Rightarrow> v) = Inr v \<and>
    AccountView.AccountID v = i \<and> AccountView.UpdatedAt v = CreatedAt e \<and>
    account_rows_at stamp (L @ [e]) (vs\<lparr>accounts := (accounts vs)(i \<mapsto> stamp_account stamp v)\<rparr>)"
proof -
  let ?h = "stream_events L (AggregateTypeAccount, i)"
  from assms(1,3) obtain st where "FoldAccount i (?h @ [e]) = Inr st"
    unfolding accounts_fold_def stream_events_append by (auto dest: spec [of _ i])
  from account_view_step_row [OF assms(1) this] obtain v where
    v: "account_view_step e (case account_row i ?h of None \<Rightarrow> zero_AccountView | Some v \<Rightarrow> v) = Inr v"
      "account_row i (?h @ [e]) = Some v" "AccountView.AccountID v = i" by blast
  moreover have "account_view_step e (case accounts vs i of None \<Rightarrow> zero_AccountView | Some v \<Rightarrow> v)
    = account_view_step e (case account_row i ?h of None \<Rightarrow> zero_AccountView | Some v \<Rightarrow> v)"
    using assms(2) by (intro account_view_step_stamp) (auto simp: account_rows_at_def split: option.splits)
  moreover have "AccountView.UpdatedAt v = CreatedAt e"
    using v(2) by (auto simp: account_row_def split: sum.splits)
  ultimately show ?thesis using assms(1,2) by (auto simp: account_rows_at_def)
qed

lemma inventory_rows_apply:
  assumes "event_key e = (AggregateTypeInventoryItem, i)" and "inventory_rows_at stamp L vs" and "items_fold (L @ [e])"
  shows "\<exists>v. inventory_view_step e (case inventory vs i of None \<Rightarrow> zero_InventoryView | Some v \<Rightarrow> v) = Inr v \<and>
    InventoryView.ItemID v = i \<and> InventoryView.UpdatedAt v = CreatedAt e \<and>
    inventory_rows_at stamp (L @ [e]) (vs\<lparr>inventory := (inventory vs)(i \<mapsto> stamp_inventory stamp v)\<rparr>)"
proof -
  let ?h = "stream_events L (AggregateTypeInventoryItem, i)"
  from assms(1,3) obtain st where "FoldInventory i (?h @ [e]) = Inr st"
    unfolding items_fold_def stream_events_append by (auto dest: spec [of _ i])
  from inventory_view_step_row [OF assms(1) this] obtain v where
    v: "inventory_view_step e (case inventory_row i ?h of None \<Rightarrow> zero_InventoryView | Some v \<Rightarrow> v) = Inr v"
      "inventory_row i (?h @ [e]) = Some v" "InventoryView.ItemID v = i" by blast
  moreover have "inventory_view_step e (case inventory vs i of None \<Rightarrow> zero_InventoryView | Some v \<Rightarrow> v)
    = inventory_view_step e (case inventory_row i ?h of None \<Rightarrow> zero_InventoryView | Some v \<Rightarrow> v)"
    using assms(2) by (intro inventory_view_step_stamp)
      (auto simp: inventory_rows_at_def split: option.splits)
  moreover have "InventoryView.UpdatedAt v = CreatedAt e"
    using v(2) by (auto simp: inventory_row_def split: sum.splits)
  ultimately show ?thesis using assms(1,2) by (auto simp: inventory_rows_at_def)
qed

text \<open>With either applier, a projector on any store with the contract keeps that of a projection.\<close>

context read_model
begin

lemma account_projection:
  assumes "ok_id n"
  shows "projection R views usable outside stamp ok_id ok_time (NewProjector n R (AccountApplier R))
    (account_rows_at stamp) (\<lambda>L. accounts_fold L \<and> storable ok_id ok_time L) inventory"
proof (unfold_locales, goal_cases)
  case 1
  show ?case by (simp add: NewProjector_def)
next
  case 2
  show ?case using assms by (simp add: NewProjector_def)
next
  case (3 L M)
  then show ?case using fold_append(1) by (auto simp: storable_def)
next
  case (4 L vs cps)
  show ?case by (simp add: account_rows_at_def)
next
  case (5 vs cps)
  show ?case by simp
next
  case (6 e L vs)
  then show ?case
    by (auto simp: account_rows_at_def NewProjector_def AccountApplier_def event_key_def)
next
  case (7 e c s L)
  let ?i = "Event.AggregateID e"
  have key: "event_key e = (AggregateTypeAccount, ?i)"
    using 7(1) by (simp add: NewProjector_def AccountApplier_def event_key_def)
  have ok: "ok_id ?i" "ok_time (CreatedAt e)" using 7(4) by (simp_all add: storable_def)
  from account_rows_apply [OF key 7(3)] 7(4) obtain v where
    v: "account_view_step e (case accounts (views s) ?i of None \<Rightarrow> zero_AccountView | Some v \<Rightarrow> v) = Inr v"
      "AccountView.AccountID v = ?i" "AccountView.UpdatedAt v = CreatedAt e"
      "account_rows_at stamp (L @ [e]) ((views s)\<lparr>accounts := (accounts (views s))(?i \<mapsto> stamp_account stamp v)\<rparr>)"
    by auto
  from upsert_account [OF 7(2), of v] ok v(2,3) obtain s' where
    "UpsertAccount R c v s = Some (Inr (), [], s')" "usable c s'"
    "views s' = (views s)\<lparr>accounts := (accounts (views s))(?i \<mapsto> stamp_account stamp v)\<rparr>"
    by auto
  with v get_account [OF 7(2) ok(1)] show ?case
    by (intro exI [of _ s'])
       (auto simp: NewProjector_def AccountApplier_def AccountApplier_Apply_def and_then_def
         split: option.splits)
qed

lemma inventory_projection:
  assumes "ok_id n"
  shows "projection R views usable outside stamp ok_id ok_time (NewProjector n R (InventoryApplier R))
    (inventory_rows_at stamp) (\<lambda>L. items_fold L \<and> storable ok_id ok_time L) accounts"
proof (unfold_locales, goal_cases)
  case 1
  show ?case by (simp add: NewProjector_def)
next
  case 2
  show ?case using assms by (simp add: NewProjector_def)
next
  case (3 L M)
  then show ?case using fold_append(2) by (auto simp: storable_def)
next
  case (4 L vs cps)
  show ?case by (simp add: inventory_rows_at_def)
next
  case (5 vs cps)
  show ?case by simp
next
  case (6 e L vs)
  then show ?case
    by (auto simp: inventory_rows_at_def NewProjector_def InventoryApplier_def event_key_def)
next
  case (7 e c s L)
  let ?i = "Event.AggregateID e"
  have key: "event_key e = (AggregateTypeInventoryItem, ?i)"
    using 7(1) by (simp add: NewProjector_def InventoryApplier_def event_key_def)
  have ok: "ok_id ?i" "ok_time (CreatedAt e)" using 7(4) by (simp_all add: storable_def)
  from inventory_rows_apply [OF key 7(3)] 7(4) obtain v where
    v: "inventory_view_step e (case inventory (views s) ?i of None \<Rightarrow> zero_InventoryView | Some v \<Rightarrow> v) = Inr v"
      "InventoryView.ItemID v = ?i" "InventoryView.UpdatedAt v = CreatedAt e"
      "inventory_rows_at stamp (L @ [e])
         ((views s)\<lparr>inventory := (inventory (views s))(?i \<mapsto> stamp_inventory stamp v)\<rparr>)"
    by auto
  from upsert_inventory [OF 7(2), of v] ok v(2,3) obtain s' where
    "UpsertInventory R c v s = Some (Inr (), [], s')" "usable c s'"
    "views s' = (views s)\<lparr>inventory := (inventory (views s))(?i \<mapsto> stamp_inventory stamp v)\<rparr>"
    by auto
  with v get_inventory [OF 7(2) ok(1)] show ?case
    by (intro exI [of _ s'])
       (auto simp: NewProjector_def InventoryApplier_def InventoryApplier_Apply_def and_then_def
         split: option.splits)
qed

end

interpretation bal: follower memory_ReadModels views.truncate rm_usable rm_outside
  "\<lambda>t. t" "\<lambda>_. True" "\<lambda>_. True" balances account_rows accounts_fold inventory memory_Store events mem_inv "\<lambda>_. True"
  using rm.account_projection [of balancesProjectionName] mem.durable.event_log_axioms
  by (simp add: follower_def balances_def rows_at_id storable_id)

interpretation stk: follower memory_ReadModels views.truncate rm_usable rm_outside
  "\<lambda>t. t" "\<lambda>_. True" "\<lambda>_. True" stock_levels inventory_rows items_fold accounts memory_Store events mem_inv "\<lambda>_. True"
  using rm.inventory_projection [of inventoryProjectionName] mem.durable.event_log_axioms
  by (simp add: follower_def stock_levels_def rows_at_id storable_id)

section \<open>Redelivery\<close>

lemma projector_names [simp]:
  "Name balances = balancesProjectionName" "Name stock_levels = inventoryProjectionName"
  "Relevant (Applier balances) e \<longleftrightarrow> Event.AggregateType e = AggregateTypeAccount"
  "Relevant (Applier stock_levels) e \<longleftrightarrow> Event.AggregateType e = AggregateTypeInventoryItem"
  by (simp_all add: balances_def stock_levels_def NewProjector_def AccountApplier_def InventoryApplier_def)

text \<open>
  C14: Effectively once.  Whatever events are delivered to the balances projector, in whatever order
  and however often, it folds exactly those that get past its checkpoint into the view, each
  once and in increasing order of their global sequence numbers, and never blocks.
\<close>

theorem deliveries_effectively_once:
  assumes "\<not> mu s" and "account_rows L (views.truncate s)"
    and "accounts_fold (L @ accepted (go_get (checkpoints s) balancesProjectionName) ds)"
  shows "\<exists>n ms s'. apply_batch balances background ds 0 s = Some ((None, n), ms, s') \<and> \<not> mu s' \<and>
    account_rows (L @ accepted (go_get (checkpoints s) balancesProjectionName) ds) (views.truncate s') \<and>
    sorted_wrt (<) (map (\<lambda>e. sint (GlobalSeq e)) (accepted (go_get (checkpoints s) balancesProjectionName) ds))"
  using bal.apply_batch_accepted [of background s L ds 0] assms
    accepted_increasing [of "go_get (checkpoints s) balancesProjectionName" ds]
  by (auto simp: rm_outside_def)

lemma rm_New_simps [simp]:
  "\<not> mu rm_New" "accounts (views.truncate rm_New) = Map.empty" "inventory (views.truncate rm_New) = Map.empty"
  "checkpoints rm_New = Map.empty" "account_rows [] (views.truncate rm_New)"
  "inventory_rows [] (views.truncate rm_New)"
  by (simp_all add: rm_New_def account_rows_def inventory_rows_def account_row_def inventory_row_def
      views.truncate_def)

text \<open>The log of the race of two withdrawals: two events, both of the account \<open>alice\<close>.\<close>

abbreviation race_log :: "Event list" where
  "race_log \<equiv> events (store (play memory_Store race idle))"

lemma race_legal: "legal_log race_log" and race_mem_inv: "mem_inv (store (play memory_Store race idle))"
proof -
  from race_reaches obtain m where
    m: "m \<le> 15" "reaches memory_Store demo_sv (mem_New (\<lambda>_. 0)) m (play memory_Store race idle)" by blast
  from reaches_mem_inv [OF m(2) small_run] m(1)
  show "legal_log race_log" "mem_inv (store (play memory_Store race idle))" by (simp_all add: sys_inv_def)
qed

lemma race_accepted: "accepted 0 (race_log @ rev race_log @ race_log) = race_log"
  by code_simp

theorem deliveries_effectively_once_witness:
  "\<exists>n ms s'. apply_batch balances background (race_log @ rev race_log @ race_log) 0 rm_New
     = Some ((None, n), ms, s') \<and> account_rows race_log (views.truncate s')"
proof -
  have ckpt: "go_get (checkpoints rm_New) balancesProjectionName = 0" by simp
  have "accounts_fold race_log" by (rule legal_log_folds [OF race_legal])
  with deliveries_effectively_once [of rm_New "[]" "race_log @ rev race_log @ race_log"]
  show ?thesis unfolding ckpt race_accepted by auto
qed

section \<open>Catching up\<close>

text \<open>
  C12: The read model catches up with the log.  On an event store in a state whose log the commands
  produced, and from views that hold what the events up to the checkpoint amount to, \<open>CatchUp\<close>
  of the balances projector returns without error, whatever the batch size, and then the row of
  every account is the fold of its stream; no row exists for an account without events.
\<close>

theorem catch_up_balances:
  assumes "mem_inv e" and "legal_log (events e)" and "\<not> mu s"
    and "account_rows (filter (\<lambda>x. GlobalSeq x \<le>s go_get (checkpoints s) balancesProjectionName) (events e))
      (views.truncate s)"
  shows "\<exists>n ms s'. CatchUp balances background memory_Store e batchSize s = Some ((None, n), ms, s') \<and> \<not> mu s' \<and>
    (\<forall>i. accounts s' i = account_row i (stream_events (events e) (AggregateTypeAccount, i)))"
  using bal.CatchUp_spec [OF assms(1), of background s batchSize] assms(3,4)
    legal_log_folds(1) [OF assms(2)]
  by (auto simp: rm_outside_def account_rows_def)

theorem catch_up_balances_witness:
  "\<exists>n ms s'. CatchUp balances background memory_Store (store (play memory_Store race idle)) catchUpBatchSize rm_New
     = Some ((None, n), ms, s') \<and> \<not> mu s' \<and>
   (\<forall>i. accounts s' i = account_row i (stream_events race_log (AggregateTypeAccount, i)))"
proof -
  have none: "filter (\<lambda>x. GlobalSeq x \<le>s 0) race_log = []" by code_simp
  have "account_rows (filter (\<lambda>x. GlobalSeq x \<le>s go_get (checkpoints rm_New) balancesProjectionName) race_log)
      (views.truncate rm_New)" using none by simp
  from catch_up_balances [OF race_mem_inv race_legal _ this] show ?thesis by simp
qed

text \<open>
  C13: The same for the inventory projector: after \<open>CatchUp\<close> the row of every item is the fold of
  its stream.
\<close>

theorem catch_up_inventory:
  assumes "mem_inv e" and "legal_log (events e)" and "\<not> mu s"
    and "inventory_rows (filter (\<lambda>x. GlobalSeq x \<le>s go_get (checkpoints s) inventoryProjectionName) (events e))
      (views.truncate s)"
  shows "\<exists>n ms s'. CatchUp stock_levels background memory_Store e batchSize s = Some ((None, n), ms, s') \<and> \<not> mu s' \<and>
    (\<forall>i. inventory s' i = inventory_row i (stream_events (events e) (AggregateTypeInventoryItem, i)))"
  using stk.CatchUp_spec [OF assms(1), of background s batchSize] assms(3,4)
    legal_log_folds(2) [OF assms(2)]
  by (auto simp: rm_outside_def inventory_rows_def)

theorem catch_up_inventory_witness:
  "\<exists>n ms s'. CatchUp stock_levels background memory_Store (store (play memory_Store race idle)) 1 rm_New
     = Some ((None, n), ms, s') \<and> \<not> mu s' \<and>
   (\<forall>i. inventory s' i = inventory_row i (stream_events race_log (AggregateTypeInventoryItem, i)))"
proof -
  have none: "filter (\<lambda>x. GlobalSeq x \<le>s 0) race_log = []" by code_simp
  have "inventory_rows (filter (\<lambda>x. GlobalSeq x \<le>s go_get (checkpoints rm_New) inventoryProjectionName) race_log)
      (views.truncate rm_New)" using none by simp
  from catch_up_inventory [OF race_mem_inv race_legal _ this] show ?thesis by simp
qed

section \<open>An event that cannot be decoded\<close>

text \<open>
  An account event the applier cannot fold stops the balances projector: the delivery answers
  the error, and neither the view nor the checkpoint moves, so the event is met again.
\<close>

theorem undecodable_event_blocks:
  assumes "\<not> mu s" and "Event.AggregateType e = AggregateTypeAccount"
    and "go_get (checkpoints s) balancesProjectionName <s GlobalSeq e"
    and "account_view_step e (case accounts s (Event.AggregateID e) of None \<Rightarrow> zero_AccountView | Some v \<Rightarrow> v) = Inl err"
  shows "ApplyEvent balances background e s = Some (Inl err, [], s)"
proof -
  let ?s = "s\<lparr>mu := True\<rparr>"
  have s: "\<not> mu s \<Longrightarrow> ?s\<lparr>mu := False\<rparr> = s" by (simp add: mu_False)
  have "apply_tx balances e True ?s = Some (Inl err, [], ?s)"
    using assms(2-4) by (simp add: apply_tx_def bal.read_models and_then_def memory_ReadModels_def rm_ops
        balances_def NewProjector_def AccountApplier_def AccountApplier_Apply_def fail_def split: option.splits)
  with s assms(1) show ?thesis
    by (simp add: ApplyEvent_def bal.read_models memory_ReadModels_def rm_WithTx_def withTxLocked_def)
qed

theorem undecodable_event_blocks_witness:
  "ApplyEvent balances background
     \<lparr>GlobalSeq = 1, AggregateType = AggregateTypeAccount, AggregateID = ''alice'', Version = 1,
      EventType = EventFundsDeposited, Payload = NotJson ''{'',
      Metadata = \<lparr>DedupeKey = [], CorrelationID = []\<rparr>, CreatedAt = 0\<rparr> rm_New
   = Some (Inl (Errorf ''account projection: decode FundsDeposited'' (JsonError SyntaxError)), [], rm_New)"
  by (rule undecodable_event_blocks)
     (simp_all add: account_view_step_def Let_def unmarshal_FundsDeposited_def Unmarshal_def EventFundsDeposited_def
       EventAccountOpened_def rm_New_def balancesProjectionName_def)

section \<open>An event delivered out of order\<close>

text \<open>
  Two deposits whose handlers publish in the other order than they append: the handler of the
  first is overtaken between its \<open>Append\<close> and its \<open>Publish\<close>.
\<close>

definition overtaking :: "move list" where
  "overtaking =
     [Arrive ((AggregateTypeAccount, ''alice''), ''k1'') (OpenAccount demo_sv ''alice'' 100 ''k1''),
      Call 0, Call 0, Call 0, Call 0,
      Arrive ((AggregateTypeAccount, ''alice''), ''k2'') (Deposit demo_sv ''alice'' 10 [] ''k2'' NoVersionCheck),
      Call 1, Call 1, Call 1,
      Arrive ((AggregateTypeAccount, ''alice''), ''k3'') (Deposit demo_sv ''alice'' 20 [] ''k3'' NoVersionCheck),
      Call 2, Call 2, Call 2, Call 2,
      Call 1]"

definition delivered :: "rm_store option" where
  "delivered =
     (case apply_batch balances background (concat (published (play memory_Store overtaking idle))) 0 rm_New of
        None \<Rightarrow> None | Some (_, _, s) \<Rightarrow> Some s)"

definition caught_up :: "rm_store option" where
  "caught_up =
     (case delivered of None \<Rightarrow> None | Some s \<Rightarrow>
        (case CatchUp balances background memory_Store (store (play memory_Store overtaking idle))
                catchUpBatchSize s of
           None \<Rightarrow> None | Some (_, _, s') \<Rightarrow> Some s'))"


end
