(* ===== verification/Delivery.thy ===== *)
theory Delivery imports Bus Projectors begin

text \<open>
  From a command to the views: handlers publish on the in-memory bus, which calls both
  projectors.  Whatever order the bus calls them in and however often it repeats itself, the
  views stay in step with a log that is published in order.
\<close>

section \<open>One delivery\<close>

definition last_seq :: "Event list \<Rightarrow> int64" where
  "last_seq L = (if L = [] then 0 else GlobalSeq (last L))"

text \<open>The events a projector has seen after one more delivery.\<close>

definition accept :: "Event list \<Rightarrow> Event \<Rightarrow> Event list" where
  "accept L e = (if GlobalSeq e \<le>s last_seq L then L else L @ [e])"

definition bal_at :: "Event list \<Rightarrow> rm_store \<Rightarrow> bool" where
  "bal_at L s \<longleftrightarrow> account_rows L (views.truncate s) \<and> go_get (checkpoints s) balancesProjectionName = last_seq L"

definition stk_at :: "Event list \<Rightarrow> rm_store \<Rightarrow> bool" where
  "stk_at L s \<longleftrightarrow> inventory_rows L (views.truncate s) \<and> go_get (checkpoints s) inventoryProjectionName = last_seq L"

text \<open>Both projectors have seen exactly the events \<open>L\<close>, and no transaction is open.\<close>

definition in_step :: "Event list \<Rightarrow> rm_store \<Rightarrow> bool" where
  "in_step L s \<longleftrightarrow> \<not> mu s \<and> bal_at L s \<and> stk_at L s"

lemma names_distinct [simp]:
  "balancesProjectionName \<noteq> inventoryProjectionName" "inventoryProjectionName \<noteq> balancesProjectionName"
  by (simp_all add: balancesProjectionName_def inventoryProjectionName_def)

lemma in_step_New [simp]: "in_step [] rm_New"
  by (simp add: in_step_def bal_at_def stk_at_def last_seq_def)

lemma projector_handler_Some:
  "ApplyEvent p c e s = Some (Inr b, ms, s') \<Longrightarrow> projector_handler p c e s = Some (Inr (), ms, s')"
  by (simp add: projector_handler_def and_then_def ret_def)

lemma balances_delivery:
  assumes "\<not> mu s" and "bal_at L s" and "stk_at M s" and "accounts_fold (accept L e)"
  shows "\<exists>ms s'. projector_handler balances background e s = Some (Inr (), ms, s') \<and> \<not> mu s' \<and>
    bal_at (accept L e) s' \<and> stk_at M s'"
proof (cases "GlobalSeq e \<le>s last_seq L")
  case True
  with bal.ApplyEvent_skip [of background s e] assms obtain s' where
    "ApplyEvent balances background e s = Some (Inr False, [DuplicateSkipped balancesProjectionName], s')"
    "\<not> mu s'" "views.truncate s' = views.truncate s" by (auto simp: rm_outside_def bal_at_def)
  moreover from this have "checkpoints s' = checkpoints s" by (metis truncate_update(4))
  ultimately show ?thesis
    using assms True by (auto simp: bal_at_def stk_at_def accept_def dest: projector_handler_Some)
next
  case False
  with bal.ApplyEvent_next [of background s e L] assms obtain ms b s' where
    s': "ApplyEvent balances background e s = Some (Inr b, ms, s')" "\<not> mu s'"
    "account_rows (L @ [e]) (views.truncate s')"
    "checkpoints s' = (checkpoints s)(balancesProjectionName \<mapsto> GlobalSeq e)"
    "inventory s' = inventory s" by (auto simp: rm_outside_def bal_at_def accept_def)
  then show ?thesis
    using assms False
    by (auto simp: bal_at_def stk_at_def accept_def last_seq_def inventory_rows_def
        dest!: projector_handler_Some)
qed

lemma stock_delivery:
  assumes "\<not> mu s" and "bal_at L s" and "stk_at M s" and "items_fold (accept M e)"
  shows "\<exists>ms s'. projector_handler stock_levels background e s = Some (Inr (), ms, s') \<and> \<not> mu s' \<and>
    bal_at L s' \<and> stk_at (accept M e) s'"
proof (cases "GlobalSeq e \<le>s last_seq M")
  case True
  with stk.ApplyEvent_skip [of background s e] assms obtain s' where
    "ApplyEvent stock_levels background e s = Some (Inr False, [DuplicateSkipped inventoryProjectionName], s')"
    "\<not> mu s'" "views.truncate s' = views.truncate s" by (auto simp: rm_outside_def stk_at_def)
  moreover from this have "checkpoints s' = checkpoints s" by (metis truncate_update(4))
  ultimately show ?thesis
    using assms True by (auto simp: bal_at_def stk_at_def accept_def dest: projector_handler_Some)
next
  case False
  with stk.ApplyEvent_next [of background s e M] assms obtain ms b s' where
    s': "ApplyEvent stock_levels background e s = Some (Inr b, ms, s')" "\<not> mu s'"
    "inventory_rows (M @ [e]) (views.truncate s')"
    "checkpoints s' = (checkpoints s)(inventoryProjectionName \<mapsto> GlobalSeq e)"
    "accounts s' = accounts s" by (auto simp: rm_outside_def stk_at_def accept_def)
  then show ?thesis
    using assms False
    by (auto simp: bal_at_def stk_at_def accept_def last_seq_def account_rows_def
        dest!: projector_handler_Some)
qed

section \<open>The wired bus\<close>

text \<open>The bus of \<open>run\<close> in \<open>main.go\<close> after both projectors have subscribed.\<close>

definition wired_bus :: "rm_store Bus" where
  "wired_bus = snd (bus_Subscribe (projector_handler stock_levels background)
     (snd (bus_Subscribe (projector_handler balances background) bus_New)))"

lemma wired_bus_simps [simp]:
  "handlers wired_bus = [0 \<mapsto> projector_handler balances background,
     1 \<mapsto> projector_handler stock_levels background]" "\<not> closed wired_bus"
  by (simp_all add: wired_bus_def bus_Subscribe_def bus_New_def)

lemma wired_orders:
  assumes "map_order (handlers wired_bus) order"
  shows "order = [0, 1] \<or> order = [1, 0]"
proof -
  from assms have o: "distinct order" "set order = {0, 1 :: int64}" by (auto simp: map_order_def)
  then have "length order = 2" using distinct_card [of order] by simp
  then obtain a b where "order = [a, b]" by (auto simp: length_Suc_conv numeral_2_eq_2)
  with o show ?thesis by auto
qed

lemma accept_next:
  "log_wf (L @ [e]) \<Longrightarrow> accept L e = L @ [e]"
  by (cases L rule: rev_cases) (auto simp: accept_def last_seq_def log_wf_def sorted_wrt_append)

lemma accept_known: "log_wf L \<Longrightarrow> e \<in> set L \<Longrightarrow> accept L e = L"
  by (cases L rule: rev_cases) (auto simp: accept_def last_seq_def log_wf_def sorted_wrt_append less_imp_le)

lemma and_then_both:
  assumes "m s = Some (Inr (), ms, s1)" and "\<exists>ms' s'. f s1 = Some (Inr (), ms', s') \<and> Q s'"
  shows "\<exists>ms' s'. and_then m (\<lambda>_. f) s = Some (Inr (), ms', s') \<and> Q s'"
  using assms by (auto simp: and_then_def)

text \<open>One event, both handlers, in either order.\<close>

lemma both_handlers:
  assumes "map_order (handlers wired_bus) order" and "in_step L s"
    and "accounts_fold (accept L e)" and "items_fold (accept L e)"
  shows "\<exists>ms s'. for_each (\<lambda>h. h e) (map (\<lambda>k. the (handlers wired_bus k)) order) s = Some (Inr (), ms, s') \<and>
    in_step (accept L e) s'"
  using wired_orders [OF assms(1)]
proof
  assume o: "order = [0, 1]"
  from balances_delivery [of s L L e] assms(2,3) obtain ms s1 where
    s1: "projector_handler balances background e s = Some (Inr (), ms, s1)" "\<not> mu s1"
    "bal_at (accept L e) s1" "stk_at L s1" by (auto simp: in_step_def)
  from stock_delivery [OF s1(2-4) assms(4)] obtain ms' s2 where
    "projector_handler stock_levels background e s1 = Some (Inr (), ms', s2)" "in_step (accept L e) s2"
    by (auto simp: in_step_def)
  with o s1(1) show ?thesis by (auto simp: and_then_def ret_def)
next
  assume o: "order = [1, 0]"
  from stock_delivery [of s L L e] assms(2,4) obtain ms s1 where
    s1: "projector_handler stock_levels background e s = Some (Inr (), ms, s1)" "\<not> mu s1"
    "bal_at L s1" "stk_at (accept L e) s1" by (auto simp: in_step_def)
  from balances_delivery [OF s1(2-4) assms(3)] obtain ms' s2 where
    "projector_handler balances background e s1 = Some (Inr (), ms', s2)" "in_step (accept L e) s2"
    by (auto simp: in_step_def)
  with o s1(1) show ?thesis by (auto simp: and_then_def ret_def)
qed

lemma legal_fold: "legal_log (L @ M) \<Longrightarrow> accounts_fold L" "legal_log (L @ M) \<Longrightarrow> items_fold L"
  using fold_append legal_log_folds by blast+

lemma publish_next:
  "map_order (handlers wired_bus) order \<Longrightarrow> in_step L s \<Longrightarrow> legal_log (L @ es) \<Longrightarrow> log_wf (L @ es) \<Longrightarrow>
   \<exists>ms s'. bus_Publish order wired_bus es s = Some (Inr (), ms, s') \<and> in_step (L @ es) s'"
proof (induction es arbitrary: L s)
  case Nil
  then show ?case by (simp add: bus_Publish_def Let_def ret_def)
next
  case (Cons e es)
  have wf: "log_wf (L @ [e])" using Cons.prems(4) log_wf_prefix [of "L @ [e]" es] by simp
  have "accounts_fold (L @ [e])" "items_fold (L @ [e])"
    using Cons.prems(3) legal_fold [of "L @ [e]" es] by simp_all
  from both_handlers [OF Cons.prems(1,2)] this accept_next [OF wf] obtain ms s1 where
    s1: "for_each (\<lambda>h. h e) (map (\<lambda>k. the (handlers wired_bus k)) order) s = Some (Inr (), ms, s1)"
    "in_step (L @ [e]) s1" by metis
  from Cons.IH [OF Cons.prems(1) s1(2)] Cons.prems(3,4) obtain ms' s2 where
    "bus_Publish order wired_bus es s1 = Some (Inr (), ms', s2)" "in_step (L @ e # es) s2" by auto
  with s1(1) show ?case by (auto simp: bus_Publish_def Let_def and_then_def)
qed

text \<open>Events both projectors have seen change nothing.\<close>

lemma publish_again:
  "map_order (handlers wired_bus) order \<Longrightarrow> in_step L s \<Longrightarrow> legal_log L \<Longrightarrow> log_wf L \<Longrightarrow> set es \<subseteq> set L \<Longrightarrow>
   \<exists>ms s'. bus_Publish order wired_bus es s = Some (Inr (), ms, s') \<and> in_step L s'"
proof (induction es arbitrary: s)
  case Nil
  then show ?case by (simp add: bus_Publish_def Let_def ret_def)
next
  case (Cons e es)
  have "accept L e = L" using Cons.prems by (intro accept_known) auto
  with both_handlers [OF Cons.prems(1,2), of e] legal_log_folds [OF Cons.prems(3)] obtain ms s1 where
    s1: "for_each (\<lambda>h. h e) (map (\<lambda>k. the (handlers wired_bus k)) order) s = Some (Inr (), ms, s1)"
    "in_step L s1" by auto
  from Cons.IH [OF Cons.prems(1) s1(2)] Cons.prems(3-5) obtain ms' s2 where
    "bus_Publish order wired_bus es s1 = Some (Inr (), ms', s2)" "in_step L s2" by auto
  with s1(1) show ?case by (auto simp: bus_Publish_def Let_def and_then_def)
qed

section \<open>The views stay in step\<close>

text \<open>
  Duplicate delivery is harmless.  When the bus delivers the next events of the log to both
  projectors, in whatever order it calls them and with every batch repeated any number of
  times, both views are what the log amounts to, exactly as after one delivery.
\<close>

theorem duplicated_publish:
  assumes "map_order (handlers wired_bus) order" and "in_step L s"
    and "legal_log (L @ es)" and "log_wf (L @ es)"
  shows "\<exists>ms s'. publisherAdapter (DuplicatingPublisher (bus_Publish order wired_bus) extra) es s
      = Some (Inr (), ms, s') \<and> in_step (L @ es) s'"
proof -
  from publish_next [OF assms] obtain ms s1 where
    s1: "bus_Publish order wired_bus es s = Some (Inr (), ms, s1)" "in_step (L @ es) s1" by blast
  have "\<exists>ms s'. bus_Publish order wired_bus es t = Some (Inr (), ms, s') \<and> in_step (L @ es) s'"
    if "in_step (L @ es) t" for t
    using publish_again [OF assms(1) that assms(3,4)] by simp
  from dup_loop_Some [of "in_step (L @ es)" "bus_Publish order wired_bus" es, OF this s1(2)] obtain ms' s2 where
    "dup_loop (bus_Publish order wired_bus) extra es 0 s1 = Some (Inr (), ms', s2)" "in_step (L @ es) s2"
    by blast
  with s1(1) show ?thesis
    by (auto simp: publisherAdapter_def DuplicatingPublisher_def and_then_def)
qed

theorem duplicated_publish_witness:
  "\<exists>ms s'. publisherAdapter (DuplicatingPublisher (bus_Publish [1, 0] wired_bus) 3) race_log rm_New
     = Some (Inr (), ms, s') \<and> in_step race_log s'"
proof -
  have "map_order (handlers wired_bus) [1, 0]" by (auto simp: map_order_def)
  from duplicated_publish [OF this in_step_New, of race_log 3] race_legal mem.inv_log [OF race_mem_inv]
  show ?thesis by simp
qed

lemma run_safe:
  "mem_inv s \<Longrightarrow> legal_log (events s) \<Longrightarrow> within p m \<Longrightarrow> length (events s) + 2 * m \<le> log_capacity \<Longrightarrow>
   safe q (events s) p \<Longrightarrow> run memory_Store p s = (r, s', pub) \<Longrightarrow> legal_log (events s') \<and> mem_inv s'"
proof (induction p arbitrary: s m pub)
  case (DoLookupDedupe key f)
  from DoLookupDedupe.IH [OF rangeI DoLookupDedupe.prems(1,2), of _ "m - 1"] DoLookupDedupe.prems
    mem.safe_lookup [OF DoLookupDedupe.prems(1,5)] show ?case by auto
next
  case (DoLoadStream ty aid f)
  from DoLoadStream.IH [OF rangeI DoLoadStream.prems(1,2), of _ "m - 1"] DoLoadStream.prems
    mem.inv_log mem.load_stream show ?case by auto
next
  case (DoAppend key as f)
  obtain r1 s1 where app: "Append memory_Store key as s = (r1, s1)" by fastforce
  have m: "0 < m" "within (f r1) (m - 1)" using DoAppend.prems(3) by auto
  then have "length (events s) + 2 \<le> log_capacity" using DoAppend.prems(4) by linarith
  from mem.safe_append [OF DoAppend.prems(1) this DoAppend.prems(5,2) app] have
    "mem_inv s1" "legal_log (events s1)" "length (events s1) + 2 * (m - 1) \<le> log_capacity" "safe q (events s1) (f r1)"
    using m(1) DoAppend.prems(4) by auto
  with DoAppend.IH [OF rangeI, of s1 r1 "m - 1" pub] m(2) DoAppend.prems(6) app show ?case by simp
next
  case (DoPublish es p)
  from DoPublish.prems(6) obtain pub' where "run memory_Store p s = (r, s', pub')"
    by (auto split: prod.splits)
  with DoPublish.IH [OF DoPublish.prems(1,2), of "m - 1" pub'] DoPublish.prems show ?case by auto
qed auto

lemma command_handler: "command sv (k, key) p \<Longrightarrow> handler sv k key p"
  by (induction "(k, key)" p rule: command.induct) (auto intro: handler.intros)

text \<open>
  C28: Read your writes.  As long as commands run one after the other and each publishes before the
  next starts, the views are in step with the log after every command: the row of every
  account and item is the fold of its stream, without any catch-up.
\<close>

theorem command_keeps_in_step:
  assumes "command sv (k, key) p" and "HasPublisher sv" and "mem_inv e" and "legal_log (events e)"
    and "length (events e) + 2 * (3 * nat (sint (maxRetries sv)) + 5) \<le> log_capacity"
    and "map_order (handlers wired_bus) order" and "in_step (events e) s"
    and "run memory_Store p e = (r, e', pub)"
  shows "\<exists>ms s'. for_each (publisherAdapter (bus_Publish order wired_bus)) pub s = Some (Inr (), ms, s') \<and>
    in_step (events e') s' \<and> mem_inv e' \<and> legal_log (events e')"
proof -
  have h: "handler sv k key p" using assms(1) by (rule command_handler)
  have e': "legal_log (events e')" "mem_inv e'"
    using run_safe [OF assms(3,4) handler_within [OF h] assms(5) safe_command [OF assms(1)] assms(8)] by auto
  have room: "length (events e) + 2 \<le> log_capacity" by (rule order_trans [OF _ assms(5)]) simp
  have "events e' = events e \<and> pub = [] \<or> (\<exists>es. events e' = events e @ es \<and> pub = [es])"
  proof (cases "unused_key (dedupe e) key")
    case True
    from mem.run_handler_alone [OF h assms(3) room True assms(8)] assms(2) show ?thesis
      by (auto simp: alone_def)
  next
    case False
    then obtain es where "key \<noteq> []" "dedupe e key = Some es" by (auto simp: unused_key_def)
    with mem.run_handler_duplicate [OF h] assms(3,8) show ?thesis by force
  qed
  then show ?thesis
  proof
    assume "events e' = events e \<and> pub = []"
    with assms(7) e' show ?thesis by (simp add: ret_def)
  next
    assume "\<exists>es. events e' = events e @ es \<and> pub = [es]"
    then obtain es where es: "events e' = events e @ es" "pub = [es]" by blast
    from publish_next [OF assms(6,7), of es] e' mem.inv_log [OF e'(2)] es(1) obtain ms s' where
      "bus_Publish order wired_bus es s = Some (Inr (), ms, s')" "in_step (events e') s'" by auto
    with es e' show ?thesis by (auto simp: publisherAdapter_def and_then_def ret_def)
  qed
qed

theorem command_keeps_in_step_witness:
  "\<exists>r e' pub ms s'. run memory_Store (OpenAccount demo_sv ''alice'' 100 ''k1'') (mem_New (\<lambda>_. 0)) = (r, e', pub) \<and>
     for_each (publisherAdapter (bus_Publish [0, 1] wired_bus)) pub rm_New = Some (Inr (), ms, s') \<and>
     in_step (events e') s'"
proof -
  obtain r e' pub where
    run: "run memory_Store (OpenAccount demo_sv ''alice'' 100 ''k1'') (mem_New (\<lambda>_. 0)) = (r, e', pub)"
    by (rule prod_cases3)
  have empty: "events (mem_New (\<lambda>_. 0)) = []" by (simp add: mem_New_def)
  have order: "map_order (handlers wired_bus) [0, 1]" by (auto simp: map_order_def)
  have sv: "HasPublisher demo_sv" "maxRetries demo_sv = 8"
    by (simp_all add: demo_sv_def NewService_def maxRetries_def defaultMaxRetries_def)
  have step: "in_step (events (mem_New (\<lambda>_. 0))) rm_New" "legal_log (events (mem_New (\<lambda>_. 0)))"
    using empty_log by (simp_all add: empty)
  have "length (events (mem_New (\<lambda>_. 0))) + 2 * (3 * nat (sint (maxRetries demo_sv)) + 5) \<le> log_capacity"
    by (simp add: empty sv(2) log_capacity_def)
  from command_keeps_in_step [OF cmd_open sv(1) mem_inv_New step(2) this order step(1) run] run
  show ?thesis by blast
qed

end
