(* ===== verification/GrpcServer.thy ===== *)
theory GrpcServer imports Delivery begin

text \<open>
  \<open>internal/grpcserver/server.go\<close>: the gRPC commands and queries.  A command either is refused
  by its validation or becomes a call of the command service, whose answer is translated; a
  query reads the views.
\<close>

section \<open>Status codes\<close>

datatype code = InvalidArgument | AlreadyExists | FailedPrecondition | Aborted | Internal

text \<open>
  \<open>status.Error(code, text)\<close>: the text is a literal of the server or \<open>err.Error()\<close>.
\<close>

datatype status_text = Literal string | TextOf error

datatype status = Status code status_text

text \<open>\<open>mapError\<close> of a non-nil error.\<close>

definition mapError :: "error \<Rightarrow> status" where
  "mapError err =
     (if errors_is err ErrVersionConflict then Status Aborted (TextOf err)
      else if errors_is err ErrInvalidAmount \<or> errors_is err ErrInvalidQuantity \<or>
              errors_is err ErrSameAccountTransfer then Status InvalidArgument (TextOf err)
      else if errors_is err ErrAccountAlreadyOpened then Status AlreadyExists (TextOf err)
      else if errors_is err ErrAccountNotOpen \<or> errors_is err ErrInsufficientFunds \<or>
              errors_is err ErrInsufficientStock then Status FailedPrecondition (TextOf err)
      else Status Internal (TextOf err))"

record CommandResponse =
  Applied :: bool
  Duplicate :: bool
  NewVersion :: int64
  Message :: string

definition toCommandResponse :: "error + Result \<Rightarrow> status + CommandResponse" where
  "toCommandResponse r =
     (case r of
        Inl err \<Rightarrow> Inl (mapError err)
      | Inr res \<Rightarrow> Inr \<lparr>CommandResponse.Applied = Result.Applied res, Duplicate = Result.Duplicate res,
          NewVersion = Result.NewVersion res,
          Message = (if Result.Duplicate res then ''duplicate: replaying cached result'' else ''applied'')\<rparr>)"

section \<open>Commands\<close>

text \<open>
  A request that is refused at once, or the call of the service whose answer goes through
  \<open>toCommandResponse\<close>.
\<close>

datatype rpc = Refuse status | Call_service proc

definition expectedVersionOrAuto :: "int64 \<Rightarrow> int64" where
  "expectedVersionOrAuto v = (if v <s 0 then NoVersionCheck else v)"

record OpenAccountRequest =
  AccountId :: string
  InitialBalanceCents :: int64
  DedupeKey :: string

record AmountRequest =
  AccountId :: string
  AmountCents :: int64
  DedupeKey :: string
  ExpectedVersion :: int64

record TransferRequest =
  FromAccountId :: string
  ToAccountId :: string
  AmountCents :: int64
  DedupeKey :: string

record AdjustInventoryRequest =
  ItemId :: string
  DeltaQuantity :: int64
  Reason :: string
  DedupeKey :: string

record StockRequest =
  ItemId :: string
  Quantity :: int64
  OrderId :: string
  DedupeKey :: string

definition rpc_OpenAccount :: "Service \<Rightarrow> OpenAccountRequest \<Rightarrow> rpc" where
  "rpc_OpenAccount sv req =
     (if OpenAccountRequest.AccountId req = [] then Refuse (Status InvalidArgument (Literal ''account_id is required''))
      else Call_service (OpenAccount sv (OpenAccountRequest.AccountId req)
             (OpenAccountRequest.InitialBalanceCents req) (OpenAccountRequest.DedupeKey req)))"

definition rpc_Deposit :: "Service \<Rightarrow> AmountRequest \<Rightarrow> rpc" where
  "rpc_Deposit sv req =
     (if AmountRequest.AccountId req = [] then Refuse (Status InvalidArgument (Literal ''account_id is required''))
      else Call_service (Deposit sv (AmountRequest.AccountId req) (AmountRequest.AmountCents req) []
             (AmountRequest.DedupeKey req) (expectedVersionOrAuto (AmountRequest.ExpectedVersion req))))"

definition rpc_Withdraw :: "Service \<Rightarrow> AmountRequest \<Rightarrow> rpc" where
  "rpc_Withdraw sv req =
     (if AmountRequest.AccountId req = [] then Refuse (Status InvalidArgument (Literal ''account_id is required''))
      else Call_service (Withdraw sv (AmountRequest.AccountId req) (AmountRequest.AmountCents req) []
             (AmountRequest.DedupeKey req) (expectedVersionOrAuto (AmountRequest.ExpectedVersion req))))"

definition rpc_Transfer :: "Service \<Rightarrow> TransferRequest \<Rightarrow> rpc" where
  "rpc_Transfer sv req =
     (if FromAccountId req = [] \<or> ToAccountId req = []
      then Refuse (Status InvalidArgument (Literal ''from_account_id and to_account_id are required''))
      else Call_service (Transfer sv (FromAccountId req) (ToAccountId req) (TransferRequest.AmountCents req)
             (TransferRequest.DedupeKey req)))"

definition rpc_AdjustInventory :: "Service \<Rightarrow> AdjustInventoryRequest \<Rightarrow> rpc" where
  "rpc_AdjustInventory sv req =
     (if AdjustInventoryRequest.ItemId req = [] then Refuse (Status InvalidArgument (Literal ''item_id is required''))
      else Call_service (AdjustInventory sv (AdjustInventoryRequest.ItemId req)
             (AdjustInventoryRequest.DeltaQuantity req) (AdjustInventoryRequest.Reason req)
             (AdjustInventoryRequest.DedupeKey req) NoVersionCheck))"

definition rpc_ReserveStock :: "Service \<Rightarrow> StockRequest \<Rightarrow> rpc" where
  "rpc_ReserveStock sv req =
     (if StockRequest.ItemId req = [] then Refuse (Status InvalidArgument (Literal ''item_id is required''))
      else Call_service (ReserveStock sv (StockRequest.ItemId req) (StockRequest.Quantity req)
             (OrderId req) (StockRequest.DedupeKey req) NoVersionCheck))"

definition rpc_ReleaseStock :: "Service \<Rightarrow> StockRequest \<Rightarrow> rpc" where
  "rpc_ReleaseStock sv req =
     (if StockRequest.ItemId req = [] then Refuse (Status InvalidArgument (Literal ''item_id is required''))
      else Call_service (ReleaseStock sv (StockRequest.ItemId req) (StockRequest.Quantity req)
             (OrderId req) (StockRequest.DedupeKey req) NoVersionCheck))"

section \<open>Queries\<close>

text \<open>\<open>t.UnixMilli()\<close>.\<close>

definition UnixMilli :: "time \<Rightarrow> int64" where
  "UnixMilli t = word_of_int (t div 10 ^ 6)"

record GetBalanceResponse =
  AccountId :: string
  Found :: bool
  BalanceCents :: int64
  Version :: int64
  UpdatedAtUnixMs :: int64

record GetInventoryResponse =
  ItemId :: string
  Found :: bool
  AvailableQuantity :: int64
  ReservedQuantity :: int64
  Version :: int64
  UpdatedAtUnixMs :: int64

record ProjectionLag =
  ProjectionName :: string
  LatestGlobalSeq :: int64
  AppliedGlobalSeq :: int64
  LagEvents :: int64

text \<open>
  The answer of a query, or its status; \<open>None\<close> when the read model never answers.
\<close>

type_synonym ('s, 'a) query = "'s \<Rightarrow> ((status + 'a) \<times> 's) option"

definition rpc_GetBalance :: "('c, 's) ReadModelStore \<Rightarrow> 'c \<Rightarrow> string \<Rightarrow> ('s, GetBalanceResponse) query" where
  "rpc_GetBalance R ctx accountID s =
     (if accountID = [] then Some (Inl (Status InvalidArgument (Literal ''account_id is required'')), s)
      else case GetAccount R ctx accountID s of
        None \<Rightarrow> None
      | Some (Inl err, _, s') \<Rightarrow> Some (Inl (Status Internal (TextOf err)), s')
      | Some (Inr (view, found), _, s') \<Rightarrow>
          Some (Inr \<lparr>GetBalanceResponse.AccountId = accountID, Found = found,
            BalanceCents = AccountView.BalanceCents view, Version = AccountView.Version view,
            UpdatedAtUnixMs = UnixMilli (AccountView.UpdatedAt view)\<rparr>, s'))"

definition rpc_GetInventory :: "('c, 's) ReadModelStore \<Rightarrow> 'c \<Rightarrow> string \<Rightarrow> ('s, GetInventoryResponse) query" where
  "rpc_GetInventory R ctx itemID s =
     (if itemID = [] then Some (Inl (Status InvalidArgument (Literal ''item_id is required'')), s)
      else case GetInventory R ctx itemID s of
        None \<Rightarrow> None
      | Some (Inl err, _, s') \<Rightarrow> Some (Inl (Status Internal (TextOf err)), s')
      | Some (Inr (view, found), _, s') \<Rightarrow>
          Some (Inr \<lparr>GetInventoryResponse.ItemId = itemID, Found = found,
            AvailableQuantity = InventoryView.AvailableQuantity view,
            ReservedQuantity = InventoryView.ReservedQuantity view, Version = InventoryView.Version view,
            UpdatedAtUnixMs = UnixMilli (InventoryView.UpdatedAt view)\<rparr>, s'))"

text \<open>The loop over the projectors, with the lags so far.\<close>

fun lag_loop ::
  "('c, 's) Projector list \<Rightarrow> 'c \<Rightarrow> int64 \<Rightarrow> ProjectionLag list \<Rightarrow> ('s, ProjectionLag list) query" where
  "lag_loop [] ctx latest lags s = Some (Inr lags, s)"
| "lag_loop (p # ps) ctx latest lags s =
     (case Checkpoint p ctx s of
        None \<Rightarrow> None
      | Some (Inl err, _, s') \<Rightarrow> Some (Inl (Status Internal (TextOf err)), s')
      | Some (Inr checkpoint, _, s') \<Rightarrow>
          (let lag0 = latest - checkpoint; lag = (if lag0 <s 0 then 0 else lag0)
           in lag_loop ps ctx latest (lags @ [\<lparr>ProjectionName = Name p, LatestGlobalSeq = latest,
                AppliedGlobalSeq = checkpoint, LagEvents = lag\<rparr>]) s'))"

definition rpc_GetProjectionLag ::
  "'e Store \<Rightarrow> 'e \<Rightarrow> ('c, 's) Projector \<Rightarrow> ('c, 's) Projector \<Rightarrow> 'c \<Rightarrow> ('s, ProjectionLag list) query" where
  "rpc_GetProjectionLag S log bal items ctx s =
     (case EventStore.LatestGlobalSeq S log of
        Inl err \<Rightarrow> Some (Inl (Status Internal (TextOf err)), s)
      | Inr latest \<Rightarrow> lag_loop [bal, items] ctx latest [] s)"

section \<open>What clients see\<close>

text \<open>Views in step with the log of the race, for the witnesses.\<close>

lemma race_in_step: "\<exists>s. in_step race_log s"
proof -
  have "map_order (handlers wired_bus) [0, 1]" by (auto simp: map_order_def)
  from publish_next [OF this in_step_New, of race_log] race_legal mem.inv_log [OF race_mem_inv]
  show ?thesis by auto
qed

fun status_code :: "status \<Rightarrow> code" where
  "status_code (Status c text) = c"

fun root_cause :: "error \<Rightarrow> error" where
  "root_cause (Errorf c err) = root_cause err"
| "root_cause err = err"

text \<open>
  An error keeps its status code however it is wrapped, and every error of the domain has the
  code that says what the client can do: retry (\<open>Aborted\<close>), correct the request
  (\<open>InvalidArgument\<close>), or change the state first.  Nothing else but an unknown error is
  \<open>Internal\<close>.
\<close>

theorem mapError_codes:
  "status_code (mapError err) =
     (case root_cause err of
        ErrVersionConflict \<Rightarrow> Aborted
      | ErrInvalidAmount \<Rightarrow> InvalidArgument
      | ErrInvalidQuantity \<Rightarrow> InvalidArgument
      | ErrSameAccountTransfer \<Rightarrow> InvalidArgument
      | ErrAccountAlreadyOpened \<Rightarrow> AlreadyExists
      | ErrAccountNotOpen \<Rightarrow> FailedPrecondition
      | ErrInsufficientFunds \<Rightarrow> FailedPrecondition
      | ErrInsufficientStock \<Rightarrow> FailedPrecondition
      | _ \<Rightarrow> Internal)"
  by (induction err rule: root_cause.induct) (simp_all add: mapError_def split: if_splits)

definition rpc_calls :: "Service \<Rightarrow> (request \<times> rpc) set" where
  "rpc_calls sv =
     range (\<lambda>req. (((AggregateTypeAccount, OpenAccountRequest.AccountId req), OpenAccountRequest.DedupeKey req),
       rpc_OpenAccount sv req)) \<union>
     (\<lambda>req. (((AggregateTypeAccount, AmountRequest.AccountId req), AmountRequest.DedupeKey req),
       rpc_Deposit sv req)) ` {req. AmountRequest.ExpectedVersion req <s 0} \<union>
     (\<lambda>req. (((AggregateTypeAccount, AmountRequest.AccountId req), AmountRequest.DedupeKey req),
       rpc_Withdraw sv req)) ` {req. AmountRequest.ExpectedVersion req <s 0} \<union>
     range (\<lambda>req. (((AggregateTypeAccount, FromAccountId req), TransferRequest.DedupeKey req),
       rpc_Transfer sv req)) \<union>
     range (\<lambda>req. (((AggregateTypeInventoryItem, AdjustInventoryRequest.ItemId req),
       AdjustInventoryRequest.DedupeKey req), rpc_AdjustInventory sv req)) \<union>
     range (\<lambda>req. (((AggregateTypeInventoryItem, StockRequest.ItemId req), StockRequest.DedupeKey req),
       rpc_ReserveStock sv req)) \<union>
     range (\<lambda>req. (((AggregateTypeInventoryItem, StockRequest.ItemId req), StockRequest.DedupeKey req),
       rpc_ReleaseStock sv req))"

lemmas rpc_defs = rpc_OpenAccount_def rpc_Deposit_def rpc_Withdraw_def rpc_Transfer_def
  rpc_AdjustInventory_def rpc_ReserveStock_def rpc_ReleaseStock_def



text \<open>
  C30: \<open>GetBalance\<close> serves what the log says: while the views are in step with a legal log, the
  answer for an account is the fold of its stream; for an account without events it is not
  found, at version 0, with the Unix time of Go's zero \<open>time.Time\<close>.
\<close>

theorem GetBalance_serves_the_log:
  assumes "in_step L s" and "legal_log L" and "i \<noteq> []"
  shows "\<exists>st resp. account_at L i = Inr st \<and> rpc_GetBalance memory_ReadModels background i s = Some (Inr resp, s) \<and>
    GetBalanceResponse.Found resp = (stream_events L (AggregateTypeAccount, i) \<noteq> []) \<and>
    GetBalanceResponse.BalanceCents resp = AccountState.BalanceCents st \<and>
    GetBalanceResponse.Version resp = AccountState.Version st \<and>
    GetBalanceResponse.UpdatedAtUnixMs resp =
      (if stream_events L (AggregateTypeAccount, i) = [] then -62135596800000
       else UnixMilli (CreatedAt (last (stream_events L (AggregateTypeAccount, i)))))"
proof -
  obtain st where st: "account_at L i = Inr st"
    using legal_log_folds(1) [OF assms(2)] by (auto simp: accounts_fold_def)
  have row: "accounts s i = account_row i (stream_events L (AggregateTypeAccount, i))"
    using assms(1) by (simp add: in_step_def bal_at_def account_rows_def)
  have get: "GetAccount memory_ReadModels background i s = Some (Inr (case accounts s i of
      None \<Rightarrow> (zero_AccountView, False) | Some v \<Rightarrow> (v, True)), [], s)"
    using rm.get_account [of background s i] assms(1) by (simp add: rm_usable_def in_step_def)
  show ?thesis
  proof (cases "stream_events L (AggregateTypeAccount, i) = []")
    case True
    with st have "st = \<lparr>AccountState.AccountID = i, Version = 0, Opened = False, BalanceCents = 0\<rparr>" by simp
    with st row get assms(3) True show ?thesis
      by (simp add: rpc_GetBalance_def account_row_def zero_AccountView_def UnixMilli_def zero_time_def)
  next
    case False
    with st row get assms(3) show ?thesis by (simp add: rpc_GetBalance_def account_row_def)
  qed
qed

theorem GetBalance_serves_the_log_witness:
  "\<exists>s resp. rpc_GetBalance memory_ReadModels background ''alice'' s = Some (Inr resp, s) \<and>
     GetBalanceResponse.Found resp \<and> GetBalanceResponse.BalanceCents resp = 20"
proof -
  obtain s where s: "in_step race_log s" using race_in_step by blast
  have "stream_events race_log (AggregateTypeAccount, ''alice'') \<noteq> []" using race_outcome(1) by auto
  with GetBalance_serves_the_log [OF s race_legal, of "''alice''"] race_outcome(1) show ?thesis by auto
qed

text \<open>
  While the views are in step with the log of the event store, the lag query reports a lag of 0
  for both projections, at the latest global sequence number.
\<close>

theorem lag_zero_in_step:
  assumes "mem_inv e" and "in_step (events e) s"
  shows "rpc_GetProjectionLag memory_Store e balances stock_levels background s = Some (Inr
    [\<lparr>ProjectionName = balancesProjectionName, LatestGlobalSeq = globalSeq e, AppliedGlobalSeq = globalSeq e, LagEvents = 0\<rparr>,
     \<lparr>ProjectionName = inventoryProjectionName, LatestGlobalSeq = globalSeq e, AppliedGlobalSeq = globalSeq e, LagEvents = 0\<rparr>], s)"
proof -
  have seq: "globalSeq e = last_seq (events e)" using mem_latest [OF assms(1)] by (simp add: last_seq_def)
  have cps: "go_get (checkpoints s) balancesProjectionName = globalSeq e"
    "go_get (checkpoints s) inventoryProjectionName = globalSeq e"
    using assms(2) by (simp_all add: in_step_def bal_at_def stk_at_def seq)
  have get: "GetCheckpoint memory_ReadModels background n s = Some (Inr (go_get (checkpoints s) n), [], s)" for n
    using rm.get_checkpoint [of background s n] assms(2) by (simp add: rm_usable_def in_step_def)
  show ?thesis
    using get [of balancesProjectionName] get [of inventoryProjectionName] cps
    by (simp add: rpc_GetProjectionLag_def mem_LatestGlobalSeq_def Checkpoint_def
        bal.read_models stk.read_models)
qed

theorem lag_zero_in_step_witness:
  "\<exists>s. map_option (\<lambda>r. case fst r of Inl _ \<Rightarrow> [] | Inr lags \<Rightarrow> map LagEvents lags)
     (rpc_GetProjectionLag memory_Store (store (play memory_Store race idle)) balances stock_levels background s)
     = Some [0, 0]"
proof -
  obtain s where s: "in_step race_log s" using race_in_step by blast
  from lag_zero_in_step [OF race_mem_inv s] show ?thesis by (intro exI [of _ s]) simp
qed

end
