(* ===== verification/Answers.thy ===== *)
theory Answers imports GrpcServer begin

text \<open>
  What clients are told, whatever else runs: the errors a command can end with on a store that
  keeps the contract \<open>event_store\<close>, and the status code the gRPC server maps them to.
\<close>

section \<open>Errors of the domain\<close>

fun domain_error :: "error \<Rightarrow> bool" where
  "domain_error ErrVersionConflict \<longleftrightarrow> True"
| "domain_error ErrInvalidAmount \<longleftrightarrow> True"
| "domain_error ErrInvalidQuantity \<longleftrightarrow> True"
| "domain_error ErrAccountAlreadyOpened \<longleftrightarrow> True"
| "domain_error ErrAccountNotOpen \<longleftrightarrow> True"
| "domain_error ErrInsufficientFunds \<longleftrightarrow> True"
| "domain_error ErrInsufficientStock \<longleftrightarrow> True"
| "domain_error ErrSameAccountTransfer \<longleftrightarrow> True"
| "domain_error _ \<longleftrightarrow> False"

lemma domain_error_code: "domain_error err \<Longrightarrow> status_code (mapError err) \<noteq> Internal"
  by (cases err) (simp_all add: mapError_def)

text \<open>A refusal by a decision: an error of the domain, and no version conflict.\<close>

definition refusal :: "error \<Rightarrow> bool" where
  "refusal err \<longleftrightarrow> domain_error err \<and> err \<noteq> ErrVersionConflict"

lemma decide_errors:
  "DecideOpenAccount a i n = Inl err \<Longrightarrow> refusal err"
  "DecideDeposit a n reason = Inl err \<Longrightarrow> refusal err"
  "DecideWithdraw a n reason = Inl err \<Longrightarrow> refusal err"
  "DecideAdjustInventory b i n reason = Inl err \<Longrightarrow> refusal err"
  "DecideReserveStock b i n order = Inl err \<Longrightarrow> refusal err"
  "DecideReleaseStock b i n order = Inl err \<Longrightarrow> refusal err"
  by (auto simp: refusal_def DecideOpenAccount_def DecideDeposit_def DecideWithdraw_def DecideAdjustInventory_def
      DecideReserveStock_def DecideReleaseStock_def split: if_splits)

lemma legal_reads:
  "legal_log L \<Longrightarrow> account_at L i \<noteq> Inl err" "legal_log L \<Longrightarrow> item_at L i \<noteq> Inl err"
  using account_history_folds [OF legal_log_account, of L i]
    inventory_history_folds [OF legal_log_inventory, of L i] by auto

text \<open>A decision that refuses an existing history does so with a refusal.\<close>

definition civil :: "stream_key \<Rightarrow> decision \<Rightarrow> bool" where
  "civil k d \<longleftrightarrow> (\<forall>L err. legal_log L \<longrightarrow> d (stream_events L k) = Inl err \<longrightarrow> refusal err)"

lemma civil_decisions [simp]:
  "civil (AggregateTypeAccount, i) (open_decision i n)"
  "civil (AggregateTypeAccount, i) (deposit_decision i n reason)"
  "civil (AggregateTypeAccount, i) (withdraw_decision i n reason)"
  "civil (AggregateTypeInventoryItem, i) (adjust_decision i d reason)"
  "civil (AggregateTypeInventoryItem, i) (reserve_decision i q order)"
  "civil (AggregateTypeInventoryItem, i) (release_decision i q order)"
  by (auto simp: civil_def decision_defs account_decision_def inventory_decision_def legal_reads
      split: sum.splits intro: decide_errors)

section \<open>Polite handlers\<close>

text \<open>
  \<open>polite p\<close>: as long as the store answers lookups and loads from a legal log and refuses a
  batch with nothing but \<open>ErrVersionConflict\<close>, \<open>p\<close> answers no error but one of the domain.
\<close>

primrec polite :: "proc \<Rightarrow> bool" where
  "polite (Return r) \<longleftrightarrow> (\<forall>err. r = Inl err \<longrightarrow> domain_error err)"
| "polite Panic \<longleftrightarrow> True"
| "polite (DoLookupDedupe key f) \<longleftrightarrow> (\<forall>es found. polite (f (Inr (es, found))))"
| "polite (DoLoadStream ty aid f) \<longleftrightarrow>
     (\<forall>L. legal_log L \<longrightarrow> polite (f (Inr (stream_events L (ty, aid)))))"
| "polite (DoAppend key as f) \<longleftrightarrow>
     polite (f (Inl ErrVersionConflict)) \<and> (\<forall>es dup. polite (f (Inr (es, dup))))"
| "polite (DoPublish es p) \<longleftrightarrow> polite p"

lemma polite_appliedResult [simp]: "polite (appliedResult sv es)"
  by (auto simp: appliedResult_def publish_def split: list.split)

lemma polite_cmd_loop:
  assumes "civil k d"
  shows "polite (cmd_loop sv k d key plan a)"
proof (induction "attempts_left plan a" arbitrary: a rule: less_induct)
  case less
  show ?case
    using assms by (subst cmd_loop.simps)
      (auto simp: less attempts_left_decr civil_def refusal_def split: sum.splits)
qed

lemma polite_cmd: "civil k d \<Longrightarrow> polite (cmd sv k d key plan)"
  by (simp add: cmd_def Let_def polite_cmd_loop)

lemma polite_Transfer_loop: "polite (Transfer_loop sv i j n key reason a)"
proof (induction "nat (sint (maxRetries sv) - sint a)" arbitrary: a rule: less_induct)
  case less
  show ?case
    by (subst Transfer_loop_unfold)
       (auto simp: loadAccount_def less sint_suc_no_overflow legal_reads split: sum.splits
         dest!: decide_errors, simp_all add: refusal_def)
qed

lemma polite_command: "command sv q p \<Longrightarrow> polite p"
  by (induction rule: command.induct)
     (auto simp: one_stream_handlers OpenAccount_cmd Transfer_def Let_def
       intro: polite_cmd polite_Transfer_loop)

context event_store
begin

lemma call_step_polite:
  assumes "call_step S p s = (p', s', pub)" and "inv s" and "legal_log (log s)"
    and "length (log s) + 2 \<le> log_capacity" and "safe q (log s) p" and "polite p"
  shows "polite p'"
proof (cases p)
  case (DoLookupDedupe key f)
  with assms show ?thesis
    by (cases "key = [] \<or> seen s key = None") (auto simp: lookup)
next
  case (DoLoadStream ty aid f)
  with assms show ?thesis by (auto simp: load_stream)
next
  case (DoAppend key as f)
  then obtain r where r: "Append S key as s = (r, s')" "p' = f r"
    using assms(1) by (auto split: prod.splits)
  have room: "length (log s) + length as \<le> log_capacity" using assms(4,5) DoAppend by simp
  from assms(2) room r(1) show ?thesis
    by (cases rule: append_cases) (use assms(6) DoAppend r(2) in auto)
qed (use assms in auto)

lemma reaches_polite:
  assumes "reaches S sv s0 n y" and "inv s0" and "log s0 = []" and "2 * n \<le> log_capacity"
  shows "\<forall>(q, p)\<in>set (threads y). polite p"
  using assms
proof (induction rule: reaches.induct)
  case (further n y z)
  from further.prems have room: "2 * n \<le> log_capacity" by simp
  have inv: "sys_inv log seen inv n y" by (rule reaches_inv [OF further.hyps(1) assms(2,3) room])
  have IH: "\<forall>(q, p)\<in>set (threads y). polite p" using further room by blast
  from further.hyps(2) show ?case
  proof cases
    case (arrive q p)
    with IH polite_command [of sv q p] show ?thesis by auto
  next
    case (call i q p p' s' pub)
    then have mem: "(q, p) \<in> set (threads y)" by (metis nth_mem)
    with inv IH further.prems(3) have "polite p'"
      by (intro call_step_polite [OF call(4), of q]) (auto simp: sys_inv_def)
    with call(1) IH set_update_subset_insert [of "threads y" i "(q, p')"] show ?thesis by fastforce
  qed
qed simp

end

text \<open>
  C20: No client ever sees an internal error from the in-memory store.  Whatever commands run and
  however they interleave, a command that fails answers one of the eight errors of the domain
  or a version conflict, so the gRPC status is never \<open>Internal\<close>: histories always decode, event
  types are always known, and no error of one command leaks into another.
\<close>

theorem never_internal:
  assumes "reaches memory_Store sv (mem_New clock) n y" and "2 * n \<le> log_capacity"
    and "(q, Return (Inl err)) \<in> set (threads y)"
  shows "domain_error err \<and> status_code (mapError err) \<noteq> Internal"
proof -
  have "polite (Return (Inl err))"
    using mem.reaches_polite [OF assms(1) mem_inv_New _ assms(2)] assms(3) by (auto simp: mem_New_def)
  then show ?thesis by (simp add: domain_error_code)
qed

theorem never_internal_witness:
  "domain_error ErrInsufficientFunds \<and> status_code (mapError ErrInsufficientFunds) \<noteq> Internal"
proof -
  from race_reaches obtain m where
    m: "m \<le> 15" "reaches memory_Store demo_sv (mem_New (\<lambda>_. 0)) m (play memory_Store race idle)" by blast
  have "(((AggregateTypeAccount, ''alice''), ''k3''), Return (Inl ErrInsufficientFunds))
      \<in> set (threads (play memory_Store race idle))"
    using answers_set [OF race_outcome(2), of 2] by simp
  from never_internal [OF m(2) small_run this] m(1) show ?thesis by simp
qed

end
