(* ===== verification/Progress.thy ===== *)
theory Progress imports Answers begin

text \<open>
  The retries of a command are only ever used up by the progress of others: a command that gives
  up with a version conflict saw its streams grow once for every attempt it made.
\<close>

section \<open>Contended handlers\<close>

definition touching :: "stream_key set \<Rightarrow> Event list \<Rightarrow> nat" where
  "touching K L = length (filter (\<lambda>e. event_key e \<in> K) L)"

lemma touching_mono: "prefix L L' \<Longrightarrow> touching K L \<le> touching K L'"
  by (auto simp: touching_def prefix_def)

lemma touching_grows:
  assumes "prefix L L'" and "k \<in> K" and "stream_events L' k \<noteq> stream_events L k"
  shows "touching K L < touching K L'"
proof -
  obtain M where M: "L' = L @ M" using assms(1) by (auto simp: prefix_def)
  with assms(3) obtain e where "e \<in> set M" "event_key e = k"
    by (auto simp: stream_events_def filter_empty_conv)
  with assms(2) have "filter (\<lambda>e. event_key e \<in> K) M \<noteq> []" by (auto simp: filter_empty_conv)
  with M show ?thesis by (simp add: touching_def)
qed

text \<open>
  \<open>contended K b L p\<close>: from any log that extends \<open>L\<close>, whatever others append between the calls of
  \<open>p\<close>, the log holds at least \<open>b\<close> events of the streams \<open>K\<close> by the time \<open>p\<close> answers a conflict.
\<close>

primrec contended :: "stream_key set \<Rightarrow> nat \<Rightarrow> Event list \<Rightarrow> proc \<Rightarrow> bool" where
  "contended K b L (Return r) \<longleftrightarrow> (r = Inl ErrVersionConflict \<longrightarrow> b \<le> touching K L)"
| "contended K b L Panic \<longleftrightarrow> True"
| "contended K b L (DoLookupDedupe key f) \<longleftrightarrow>
     (\<forall>L' es found. prefix L L' \<longrightarrow> contended K b L' (f (Inr (es, found))))"
| "contended K b L (DoLoadStream ty aid f) \<longleftrightarrow>
     (\<forall>L'. prefix L L' \<longrightarrow> log_wf L' \<longrightarrow> legal_log L' \<longrightarrow>
        contended K b L' (f (Inr (stream_events L' (ty, aid)))))"
| "contended K b L (DoAppend key as f) \<longleftrightarrow>
     (\<forall>L'. prefix L L' \<longrightarrow> log_wf L' \<longrightarrow> \<not> versions_match (stream_version L') as \<longrightarrow>
        contended K b L' (f (Inl ErrVersionConflict))) \<and>
     (\<forall>L' es dup. prefix L L' \<longrightarrow> contended K b L' (f (Inr (es, dup))))"
| "contended K b L (DoPublish es p) \<longleftrightarrow> contended K b L p"

lemma contended_extends: "contended K b L p \<Longrightarrow> prefix L L' \<Longrightarrow> contended K b L' p"
  by (induction p) (auto intro: prefix_order.trans dest: touching_mono [of _ _ K])

lemma contended_appliedResult [simp]: "contended K b L (appliedResult sv es)"
  by (auto simp: appliedResult_def publish_def split: list.split)

text \<open>\<open>fits\<close>: what a plan sends after a decision is the version of the stream the decision read.\<close>

definition fits :: "versionPlan \<Rightarrow> stream_key \<Rightarrow> decision \<Rightarrow> bool" where
  "fits plan k d \<longleftrightarrow> (\<forall>L et p v. legal_log L \<longrightarrow> log_wf L \<longrightarrow> d (stream_events L k) = Inr (et, p, v) \<longrightarrow>
     expectedVersionFor plan v = stream_version L k)"

lemma fits_auto: "versioned k d \<Longrightarrow> fits (planVersion sv NoVersionCheck) k d"
  by (auto simp: fits_def versioned_def auto_plan_version)

lemma fits_open: "fits open_plan (AggregateTypeAccount, i) (open_decision i n)"
proof -
  have "stream_events L (AggregateTypeAccount, i) = []"
    if "legal_log L" "open_decision i n (stream_events L (AggregateTypeAccount, i)) = Inr r" for L r
    using that account_history_opened [OF legal_log_account [OF that(1)], of i]
    by (auto simp: open_decision_def account_decision_def DecideOpenAccount_def split: sum.splits if_splits)
  then show ?thesis
    by (fastforce simp: fits_def expectedVersionFor_def open_plan_def StreamDoesNotExist_def
        stream_version_def)
qed

lemma contended_cmd_loop:
  assumes "civil k d" and "fits plan k d"
  shows "a <s maxAttempts plan \<Longrightarrow> b \<le> touching {k} L + attempts_left plan a \<Longrightarrow>
    contended {k} b L (cmd_loop sv k d key plan a)"
proof (induction "attempts_left plan a" arbitrary: a L rule: less_induct)
  case less
  have left: "attempts_left plan a = Suc (attempts_left plan (a + 1))"
    using less.prems(1) by (simp add: attempts_left_def sint_suc_no_overflow)
  have grown: "b \<le> touching {k} L2 + attempts_left plan (a + 1)"
    if "prefix L L1" "prefix L1 L2" "legal_log L1" "log_wf L1" "d (stream_events L1 k) = Inr (et, p, v)"
      "\<not> versions_match (stream_version L2) [append_one k et p (expectedVersionFor plan v)]" for L1 L2 et p v
  proof -
    have "expectedVersionFor plan v = stream_version L1 k" using assms(2) that(3-5) by (auto simp: fits_def)
    with that(6) have "stream_events L2 k \<noteq> stream_events L1 k" by (auto simp: stream_version_def)
    with touching_grows [OF that(2), of k "{k}"] touching_mono [OF that(1), of "{k}"] less.prems(2) left
    show ?thesis by simp
  qed
  have "sint (maxAttempts plan - 1) = sint (maxAttempts plan) - 1"
    using less.prems(1) sint64_range [of a] sint64_range [of "maxAttempts plan"]
      sint_sub [of "maxAttempts plan" 1] by (simp add: in64_def)
  then have last: "attempts_left plan (a + 1) = 0" if "\<not> sint a < sint (maxAttempts plan - 1)"
    using that less.prems(1) by (simp add: attempts_left_def sint_suc_no_overflow)
  have again: "contended {k} b L2 (cmd_loop sv k d key plan (a + 1))"
    if "sint a < sint (maxAttempts plan - 1)" "b \<le> touching {k} L2 + attempts_left plan (a + 1)" for L2
    using that less.prems(1) \<open>sint (maxAttempts plan - 1) = _\<close> left
      sint_suc_no_overflow [of a "maxAttempts plan"]
    by (intro less.hyps) simp_all
  have give_up: "b \<le> touching {k} L2"
    if "\<not> sint a < sint (maxAttempts plan - 1)" "prefix L L1" "prefix L1 L2" "legal_log L1" "log_wf L1"
      "d (stream_events L1 k) = Inr (et, p, v)"
      "\<not> versions_match (stream_version L2) [append_one k et p (expectedVersionFor plan v)]" for L1 L2 et p v
    using grown [OF that(2-7)] last [OF that(1)] by simp
  show ?case
    using less.prems(1) assms(1)
    by (subst cmd_loop.simps)
       (auto simp: civil_def refusal_def simp del: versions_match.simps split: sum.splits
         intro: again grown give_up)
qed

lemma contended_cmd:
  assumes "civil k d" and "fits plan k d" and "0 <s maxAttempts plan"
    and "b \<le> touching {k} L + attempts_left plan 0"
  shows "contended {k} b L (cmd sv k d key plan)"
proof -
  have "contended {k} b L' (cmd_loop sv k d key plan 0)" if "prefix L L'" for L'
    using assms touching_mono [OF that, of "{k}"] by (intro contended_cmd_loop) auto
  then show ?thesis by (auto simp: cmd_def Let_def)
qed

lemma contended_Transfer_loop:
  fixes src dst
  defines "K \<equiv> {(AggregateTypeAccount, src), (AggregateTypeAccount, dst)}"
  assumes "src \<noteq> dst"
  shows "sint a \<le> sint (maxRetries sv) \<Longrightarrow>
    b \<le> touching K L + nat (sint (maxRetries sv) - sint a) + 1 \<Longrightarrow>
    contended K b L (Transfer_loop sv src dst n key reason a)"
proof (induction "nat (sint (maxRetries sv) - sint a)" arbitrary: a L rule: less_induct)
  case less
  let ?A = "\<lambda>i. (AggregateTypeAccount, i)"
  have grown: "b \<le> touching K L3 + nat (sint (maxRetries sv) - sint a)"
    if "prefix L L1" "prefix L1 L2" "prefix L2 L3"
      "account_at L1 src = Inr fa" "account_at L2 dst = Inr ta" "log_wf L1" "log_wf L2"
      "\<not> versions_match (stream_version L3)
        (transfer_batch src dst w (AccountState.Version fa) d (AccountState.Version ta))"
    for L1 L2 L3 fa ta w d
  proof -
    have "AccountState.Version fa = stream_version L1 (?A src)"
      "AccountState.Version ta = stream_version L2 (?A dst)"
      using account_version that(4-7) by auto
    with that(8) assms(2) have "stream_events L3 (?A src) \<noteq> stream_events L1 (?A src) \<or>
        stream_events L3 (?A dst) \<noteq> stream_events L2 (?A dst)"
      by (auto simp: transfer_batch_def stream_version_def)
    then have "touching K L1 < touching K L3 \<or> touching K L2 < touching K L3"
      using touching_grows [of L1 L3 "?A src" K] touching_grows [of L2 L3 "?A dst" K]
        prefix_order.trans [OF that(2,3)] that(3) by (auto simp: K_def)
    then have "touching K L < touching K L3"
      using touching_mono [OF that(1), of K] touching_mono [OF that(2), of K] by linarith
    with less.prems(2) show ?thesis by simp
  qed
  have again: "contended K b L3 (Transfer_loop sv src dst n key reason (a + 1))"
    if "sint a < sint (maxRetries sv)" "b \<le> touching K L3 + nat (sint (maxRetries sv) - sint a)" for L3
    using that sint_suc_no_overflow [OF that(1)] by (intro less.hyps) auto
  have give_up: "b \<le> touching K L3"
    if "\<not> sint a < sint (maxRetries sv)" "b \<le> touching K L3 + nat (sint (maxRetries sv) - sint a)" for L3
    using that less.prems(1) by simp
  show ?case
    by (subst Transfer_loop_unfold)
       (auto simp: loadAccount_def legal_reads split: sum.splits
         dest!: decide_errors intro: again give_up grown, simp_all add: refusal_def)
qed

section \<open>The attempts of a command\<close>

text \<open>
  \<open>attempts sv q K b p\<close>: the command \<open>p\<close> for request \<open>q\<close> reads and writes the streams \<open>K\<close>, and makes
  \<open>b\<close> attempts before it gives up.
\<close>

inductive attempts :: "Service \<Rightarrow> request \<Rightarrow> stream_key set \<Rightarrow> nat \<Rightarrow> proc \<Rightarrow> bool" for sv where
  try_open: "attempts sv ((AggregateTypeAccount, i), key) {(AggregateTypeAccount, i)} 1 (OpenAccount sv i n key)"
| try_deposit: "retries_ok sv \<Longrightarrow>
    attempts sv ((AggregateTypeAccount, i), key) {(AggregateTypeAccount, i)} (nat (sint (maxRetries sv)) + 1)
      (Deposit sv i n reason key NoVersionCheck)"
| try_withdraw: "retries_ok sv \<Longrightarrow>
    attempts sv ((AggregateTypeAccount, i), key) {(AggregateTypeAccount, i)} (nat (sint (maxRetries sv)) + 1)
      (Withdraw sv i n reason key NoVersionCheck)"
| try_transfer:
    "attempts sv ((AggregateTypeAccount, i), key) {(AggregateTypeAccount, i), (AggregateTypeAccount, j)}
      (nat (sint (maxRetries sv)) + 1) (Transfer sv i j n key)"
| try_adjust: "retries_ok sv \<Longrightarrow>
    attempts sv ((AggregateTypeInventoryItem, i), key) {(AggregateTypeInventoryItem, i)}
      (nat (sint (maxRetries sv)) + 1) (AdjustInventory sv i n reason key NoVersionCheck)"
| try_reserve: "retries_ok sv \<Longrightarrow>
    attempts sv ((AggregateTypeInventoryItem, i), key) {(AggregateTypeInventoryItem, i)}
      (nat (sint (maxRetries sv)) + 1) (ReserveStock sv i n order key NoVersionCheck)"
| try_release: "retries_ok sv \<Longrightarrow>
    attempts sv ((AggregateTypeInventoryItem, i), key) {(AggregateTypeInventoryItem, i)}
      (nat (sint (maxRetries sv)) + 1) (ReleaseStock sv i n order key NoVersionCheck)"

lemma attempts_command: "attempts sv q K b p \<Longrightarrow> command sv q p"
  by (induction rule: attempts.induct) (rule command.intros)+

lemma auto_attempts_left:
  assumes "retries_ok sv"
  shows "attempts_left (planVersion sv NoVersionCheck) 0 = nat (sint (maxRetries sv)) + 1"
proof -
  have "sint (maxRetries sv + 1) = sint (maxRetries sv) + 1"
    using assms maxRetries_pos [of sv] by (simp add: retries_ok_def sint_add in64_def)
  then show ?thesis using maxRetries_pos [of sv] by (simp add: attempts_left_def planVersion_def)
qed

lemma contended_Transfer:
  "contended {(AggregateTypeAccount, i), (AggregateTypeAccount, j)}
     (touching {(AggregateTypeAccount, i), (AggregateTypeAccount, j)} L + (nat (sint (maxRetries sv)) + 1)) L
     (Transfer sv i j n key)"
proof (cases "i = j")
  case False
  let ?K = "{(AggregateTypeAccount, i), (AggregateTypeAccount, j)}"
  have "contended ?K (touching ?K L + (nat (sint (maxRetries sv)) + 1)) L'
      (Transfer_loop sv i j n key reason 0)" if "prefix L L'" for L' reason
    using touching_mono [OF that, of ?K] maxRetries_pos [of sv]
    by (intro contended_Transfer_loop [OF False]) auto
  with False show ?thesis by (auto simp: Transfer_def Let_def)
qed (simp add: Transfer_def)

lemma attempts_contended:
  assumes "attempts sv q K b p"
  shows "contended K (touching K L + b) L p"
  using assms
proof (induction rule: attempts.induct)
  case (try_open i key n)
  show ?case unfolding OpenAccount_cmd
    by (rule contended_cmd [OF _ fits_open]) (simp_all add: open_plan_def attempts_left_def)
next
  case (try_transfer i key j n)
  show ?case by (rule contended_Transfer)
qed (auto simp: one_stream_handlers auto_attempts_left auto_attempts [simplified]
    intro!: contended_cmd fits_auto)

section \<open>In every schedule\<close>

context event_store
begin

lemma call_step_contended:
  assumes "call_step S p s = (p', s', pub)" and "inv s" and "legal_log (log s)"
    and "length (log s) + 2 \<le> log_capacity" and "safe q (log s) p" and "contended K b (log s) p"
  shows "contended K b (log s') p'"
proof (cases p)
  case (DoLookupDedupe key f)
  with assms show ?thesis
    by (cases "key = [] \<or> seen s key = None") (auto simp: lookup)
next
  case (DoLoadStream ty aid f)
  with assms inv_log show ?thesis by (auto simp: load_stream)
next
  case (DoAppend key as f)
  then obtain r where r: "Append S key as s = (r, s')" "p' = f r"
    using assms(1) by (auto split: prod.splits)
  have room: "length (log s) + length as \<le> log_capacity" using assms(4,5) DoAppend by simp
  from assms(2) room r(1) show ?thesis
    by (cases rule: append_cases) (use assms(2,6) inv_log DoAppend r(2) in auto)
qed (use assms in auto)

text \<open>One step of the system, and a whole schedule.\<close>

lemma sys_step_contended:
  assumes "sys_inv log seen inv n y" and "sys_step S sv y z" and "2 * Suc n \<le> log_capacity"
    and "i < length (threads y)" and "threads y ! i = (q, p)" and "contended K b (log (store y)) p"
  shows "i < length (threads z) \<and> (\<exists>p'. threads z ! i = (q, p') \<and> contended K b (log (store z)) p')"
  using assms(2)
proof cases
  case (arrive q' p')
  with assms(4-6) show ?thesis by (simp add: nth_append)
next
  case (call j q' p0 p' s' pub)
  then have "(q', p0) \<in> set (threads y)" by (metis nth_mem)
  with assms(1,3) have inv: "inv (store y)" "legal_log (log (store y))" "length (log (store y)) + 2 \<le> log_capacity"
    and p0: "safe q' (log (store y)) p0" by (auto simp: sys_inv_def)
  show ?thesis
  proof (cases "i = j")
    case True
    with call assms(4-6) call_step_contended [OF call(4) inv p0] show ?thesis by auto
  next
    case False
    with call assms(4-6) call_step_inv [OF call(4) inv p0] show ?thesis
      by (auto intro: contended_extends)
  qed
qed

lemma play_contended:
  assumes "sys_inv log seen inv n y" and "\<forall>(q, p)\<in>set (arrivals ms). command sv q p"
    and "2 * (n + length ms) \<le> log_capacity"
    and "i < length (threads y)" and "threads y ! i = (q, p)" and "contended K b (log (store y)) p"
  shows "\<exists>p'. threads (play S ms y) ! i = (q, p') \<and> contended K b (log (store (play S ms y))) p'"
  using assms
proof (induction ms arbitrary: n y p)
  case (Cons m ms)
  define z where "z = play S [m] y"
  have play: "play S (m # ms) y = play S ms z" by (cases m) (simp_all add: z_def)
  have "sys_step S sv y z \<or> z = y"
  proof (cases m)
    case (Call j)
    then show ?thesis
      using sys_call_step [of j y S sv] sys_call_idle [of j y S]
      by (cases "j < length (threads y)") (simp_all add: z_def)
  qed (use Cons.prems(2) in \<open>auto simp: z_def intro: arrive\<close>)
  then show ?case
  proof
    assume step: "sys_step S sv y z"
    have room: "2 * Suc n \<le> log_capacity" using Cons.prems(3) by simp
    from sys_step_contended [OF Cons.prems(1) step room Cons.prems(4-6)] obtain p' where
      "i < length (threads z)" "threads z ! i = (q, p')" "contended K b (log (store z)) p'" by blast
    moreover have "\<forall>(q, p)\<in>set (arrivals ms). command sv q p" using Cons.prems(2) by (cases m) auto
    ultimately show ?case
      unfolding play using Cons.prems(3) sys_step_inv [OF Cons.prems(1) step room]
      by (intro Cons.IH [of "Suc n"]) auto
  next
    assume "z = y"
    moreover have "\<forall>(q, p)\<in>set (arrivals ms). command sv q p" using Cons.prems(2) by (cases m) auto
    ultimately show ?case
      unfolding play using Cons.prems by (intro Cons.IH [of n]) auto
  qed
qed auto

end

text \<open>
  C19: Optimistic concurrency is lock-free: a command only gives up when others get on.  Whatever is
  running when a command without an expected version arrives and however it is scheduled
  afterwards, if it is answered \<open>ErrVersionConflict\<close> then its streams have grown by at least as
  many events as it made attempts, \<open>maxRetries + 1\<close> of them (one for \<open>OpenAccount\<close>).
\<close>

theorem conflict_means_progress:
  assumes "reaches memory_Store sv (mem_New clock) n y" and "attempts sv q K b p"
    and "\<forall>(q, p)\<in>set (arrivals ms). command sv q p" and "2 * (n + 1 + length ms) \<le> log_capacity"
    and "z = play memory_Store (Arrive q p # ms) y"
    and "threads z ! length (threads y) = (q, Return (Inl ErrVersionConflict))"
  shows "touching K (events (store y)) + b \<le> touching K (events (store z))"
proof -
  let ?y = "y\<lparr>threads := threads y @ [(q, p)]\<rparr>"
  have "reaches memory_Store sv (mem_New clock) (Suc n) ?y"
    by (rule further [OF assms(1) arrive [OF attempts_command [OF assms(2)]]])
  then have "sys_inv events dedupe mem_inv (Suc n) ?y" using assms(4) by (intro reaches_mem_inv) auto
  moreover have "contended K (touching K (events (store y)) + b) (events (store ?y)) p"
    using attempts_contended [OF assms(2)] by simp
  ultimately obtain p' where "threads z ! length (threads y) = (q, p')"
    "contended K (touching K (events (store y)) + b) (events (store z)) p'"
    using mem.play_contended [of "Suc n" ?y ms sv "length (threads y)" q p K] assms(3-5) by fastforce
  with assms(6) show ?thesis by simp
qed

text \<open>A withdrawal with one retry is overtaken twice.\<close>

definition busy_sv :: Service where "busy_sv = \<lparr>HasPublisher = True, MaxRetries = 1\<rparr>"

definition busy_opening :: "move list" where
  "busy_opening =
     [Arrive ((AggregateTypeAccount, ''alice''), ''k1'') (OpenAccount busy_sv ''alice'' 100 ''k1''),
      Call 0, Call 0, Call 0, Call 0]"

definition busy_schedule :: "move list" where
  "busy_schedule =
     [Call 1,
      Arrive ((AggregateTypeAccount, ''alice''), []) (Deposit busy_sv ''alice'' 5 [] [] NoVersionCheck), Call 2, Call 2,
      Call 1, Call 1,
      Arrive ((AggregateTypeAccount, ''alice''), []) (Deposit busy_sv ''alice'' 5 [] [] NoVersionCheck), Call 3, Call 3,
      Call 1]"

theorem conflict_means_progress_witness:
  "let y = play memory_Store busy_opening idle;
       z = play memory_Store (Arrive ((AggregateTypeAccount, ''alice''), [])
             (Withdraw busy_sv ''alice'' 80 [] [] NoVersionCheck) # busy_schedule) y
   in threads z ! 1 = (((AggregateTypeAccount, ''alice''), []), Return (Inl ErrVersionConflict)) \<and>
      touching {(AggregateTypeAccount, ''alice'')} (events (store y)) + 2
        \<le> touching {(AggregateTypeAccount, ''alice'')} (events (store z))"
proof -
  let ?q = "((AggregateTypeAccount, ''alice''), []) :: request"
  let ?p = "Withdraw busy_sv ''alice'' 80 [] [] NoVersionCheck"
  define y where "y = play memory_Store busy_opening idle"
  define z where "z = play memory_Store (Arrive ?q ?p # busy_schedule) y"
  have "answers (threads z) ! 1 = Some (?q, Inl ErrVersionConflict)" "length (answers (threads z)) = 4"
    unfolding z_def y_def by code_simp+
  with answers_nth [OF refl, of 1 "threads z"] have run: "threads z ! 1 = (?q, Return (Inl ErrVersionConflict))"
    by simp
  have one: "length (threads y) = 1" unfolding y_def by code_simp
  have start: "reaches memory_Store busy_sv (mem_New (\<lambda>_. 0)) 0 idle" unfolding idle_def by (rule start)
  have "\<forall>(q, p)\<in>set (arrivals busy_opening). command busy_sv q p"
    by (auto simp: busy_opening_def intro: command.intros)
  moreover have "length busy_opening = 5" by (simp add: busy_opening_def)
  ultimately obtain m where m: "m \<le> 5" "reaches memory_Store busy_sv (mem_New (\<lambda>_. 0)) m y"
    using play_reaches [OF start, of busy_opening] by (auto simp: y_def)
  have retries: "maxRetries busy_sv = 1" by (simp add: maxRetries_def busy_sv_def)
  have "attempts busy_sv ?q {(AggregateTypeAccount, ''alice'')} (nat (sint (maxRetries busy_sv)) + 1) ?p"
    by (rule try_withdraw) (simp add: retries_ok_def retries)
  then have "attempts busy_sv ?q {(AggregateTypeAccount, ''alice'')} 2 ?p" by (simp add: retries numeral_2_eq_2)
  from conflict_means_progress [OF m(2) this, of busy_schedule z] run one m(1) show ?thesis
    by (auto simp: Let_def z_def y_def busy_schedule_def log_capacity_def intro: command.intros)
qed

end
