(* ===== verification/Sql.thy ===== *)
theory Sql imports EventStore "HOL-Library.Char_ord" "HOL-Library.List_Lexorder" begin

text \<open>
  What the two Postgres stores share.  The driver \<open>pgx\<close> and the database behind it are not part
  of the repository: they are a parameter, the record \<open>driver\<close> of the calls the stores make, over
  a state of any type.  The stores are translated call by call, with the text of each SQL
  statement and its arguments; what the statements mean is a hypothesis of the theorems.
\<close>

section \<open>The driver\<close>

text \<open>A column value, or an argument of a statement.\<close>

datatype sql_value =
    Null
  | Text string
  | BigInt int64
  | Boolean bool
  | TimestampTz time
  | Jsonb payload

type_synonym row = "sql_value list"

text \<open>\<open>querier\<close>: a statement goes through the pool or through an open transaction.\<close>

datatype 'h querier = Pool | Tx 'h

text \<open>
  An action on a database: a result and the database after it.  \<open>QueryRow\<close> answers the columns of
  the first row, or \<open>ErrNoRows\<close>; \<open>Query\<close> the rows and what \<open>rows.Err()\<close> says after the last.
\<close>

type_synonym ('d, 'a) sql = "'d \<Rightarrow> (error + 'a) \<times> 'd"

record ('h, 'd) driver =
  Begin :: "('d, 'h) sql"
  Commit :: "'h \<Rightarrow> ('d, unit) sql"
  Rollback :: "'h \<Rightarrow> ('d, unit) sql"
  Exec :: "'h querier \<Rightarrow> string \<Rightarrow> sql_value list \<Rightarrow> ('d, unit) sql"
  QueryRow :: "'h querier \<Rightarrow> string \<Rightarrow> sql_value list \<Rightarrow> ('d, row) sql"
  Query :: "'h querier \<Rightarrow> string \<Rightarrow> sql_value list \<Rightarrow> ('d, row list \<times> error option) sql"

definition ErrNoRows :: error where
  "ErrNoRows = OtherError ''no rows in result set''"

text \<open>What \<open>Scan\<close> reports when a column does not fit its destination.\<close>

definition ErrScan :: error where
  "ErrScan = OtherError ''cannot scan into dest''"

section \<open>Sequencing\<close>

definition sql_return :: "'a \<Rightarrow> ('d, 'a) sql" where
  "sql_return x d = (Inr x, d)"

definition sql_fail :: "error \<Rightarrow> ('d, 'a) sql" where
  "sql_fail err d = (Inl err, d)"

text \<open>\<open>x, err := m; if err != nil { return err }; f(x)\<close>.\<close>

definition sql_bind :: "('d, 'a) sql \<Rightarrow> ('a \<Rightarrow> ('d, 'b) sql) \<Rightarrow> ('d, 'b) sql" where
  "sql_bind m f d = (case m d of (Inl err, d') \<Rightarrow> (Inl err, d') | (Inr x, d') \<Rightarrow> f x d')"

text \<open>\<open>if err != nil { return fmt.Errorf("msg: %w", err) }\<close>.\<close>

definition wrapping :: "string \<Rightarrow> ('d, 'a) sql \<Rightarrow> ('d, 'a) sql" where
  "wrapping msg m d = (case m d of (Inl err, d') \<Rightarrow> (Inl (Errorf msg err), d') | (Inr x, d') \<Rightarrow> (Inr x, d'))"

text \<open>\<open>row.Scan\<close>: the columns, read by a function that fails where one does not fit.\<close>

definition scanning :: "(row \<Rightarrow> error + 'a) \<Rightarrow> ('d, row) sql \<Rightarrow> ('d, 'a) sql" where
  "scanning scan m d = (case m d of (Inl err, d') \<Rightarrow> (Inl err, d') | (Inr r, d') \<Rightarrow> (scan r, d'))"

lemma sql_return_simps [simp]: "sql_return x d = (Inr x, d)" "sql_fail err d = (Inl err, d)"
  by (simp_all add: sql_return_def sql_fail_def)

lemma sql_bind_simps:
  "m d = (Inl err, d') \<Longrightarrow> sql_bind m f d = (Inl err, d')"
  "m d = (Inr x, d') \<Longrightarrow> sql_bind m f d = f x d'"
  by (simp_all add: sql_bind_def)

lemma wrapping_simps:
  "m d = (Inl err, d') \<Longrightarrow> wrapping msg m d = (Inl (Errorf msg err), d')"
  "m d = (Inr x, d') \<Longrightarrow> wrapping msg m d = (Inr x, d')"
  by (simp_all add: wrapping_def)

lemma scanning_simps:
  "m d = (Inl err, d') \<Longrightarrow> scanning sc m d = (Inl err, d')"
  "m d = (Inr r, d') \<Longrightarrow> scanning sc m d = (sc r, d')"
  by (simp_all add: scanning_def)

named_theorems sql_simps

declare sql_bind_simps [sql_simps] wrapping_simps [sql_simps] scanning_simps [sql_simps]

lemma sql_bind_Inr:
  "sql_bind m f d = (Inr y, d'') \<longleftrightarrow> (\<exists>x d'. m d = (Inr x, d') \<and> f x d' = (Inr y, d''))"
  by (auto simp: sql_bind_def split: prod.splits sum.splits)

lemma wrapping_Inr [simp]: "wrapping msg m d = (Inr x, d') \<longleftrightarrow> m d = (Inr x, d')"
  by (auto simp: wrapping_def split: prod.splits sum.splits)

lemma snd_wrapping [simp]: "snd (wrapping msg m d) = snd (m d)"
  by (auto simp: wrapping_def split: prod.splits sum.splits)

lemma snd_scanning [simp]: "snd (scanning sc m d) = snd (m d)"
  by (auto simp: scanning_def split: prod.splits sum.splits)

section \<open>Scans\<close>

fun scan_int64 :: "row \<Rightarrow> error + int64" where
  "scan_int64 [BigInt i] = Inr i"
| "scan_int64 _ = Inl ErrScan"

fun scan_bool :: "row \<Rightarrow> error + bool" where
  "scan_bool [Boolean b] = Inr b"
| "scan_bool _ = Inl ErrScan"

section \<open>Migrations\<close>

text \<open>
  \<open>Migrate\<close> executes every embedded schema file in the order of the names.  \<open>schemaFS\<close>, the
  embedded directory, is the answer of \<open>ReadDir\<close> and a function for \<open>ReadFile\<close>; both stores have
  the same code with their own prefix of the error messages.
\<close>

record schema_fs =
  ReadDir :: "error + string list"
  ReadFile :: "string \<Rightarrow> error + string"

fun apply_schemas :: "('h, 'd) driver \<Rightarrow> schema_fs \<Rightarrow> string \<Rightarrow> string list \<Rightarrow> ('d, unit) sql" where
  "apply_schemas drv fs pfx [] = sql_return ()"
| "apply_schemas drv fs pfx (name # names) =
     (case ReadFile fs (''schema/'' @ name) of
        Inl err \<Rightarrow> sql_fail (Errorf (pfx @ ''read '' @ name) err)
      | Inr b \<Rightarrow>
          sql_bind (wrapping (pfx @ ''apply '' @ name) (Exec drv Pool b [])) (\<lambda>_.
          apply_schemas drv fs pfx names))"

definition Migrate :: "('h, 'd) driver \<Rightarrow> schema_fs \<Rightarrow> string \<Rightarrow> ('d, unit) sql" where
  "Migrate drv fs pfx =
     (case ReadDir fs of
        Inl err \<Rightarrow> sql_fail (Errorf (pfx @ ''read schema dir'') err)
      | Inr names \<Rightarrow> apply_schemas drv fs pfx (sort names))"

section \<open>What the stores rely on\<close>

text \<open>
  One session at a time: \<open>session d\<close> is the transaction it is in, or the pool; \<open>tables d\<close> the
  tables as the session sees them, \<open>committed d\<close> what a crash would leave.  \<open>up d\<close>: the
  database answers.  \<open>ids_left d\<close>: how many numbers the sequence behind a \<open>BIGSERIAL\<close> column can
  still give, which no rollback gives back.
\<close>

record ('h, 'd, 't) database =
  up :: "'d \<Rightarrow> bool"
  session :: "'d \<Rightarrow> 'h querier"
  tables :: "'d \<Rightarrow> 't"
  committed :: "'d \<Rightarrow> 't"
  ids_left :: "'d \<Rightarrow> nat"

text \<open>Transactions: they begin from what is committed, and commit or roll back as a whole.\<close>

definition tx_laws :: "('h, 'd) driver \<Rightarrow> ('h, 'd, 't) database \<Rightarrow> bool" where
  "tx_laws drv db \<longleftrightarrow>
     (\<forall>d. up db d \<and> session db d = Pool \<longrightarrow> tables db d = committed db d \<and>
        (\<exists>h d'. Begin drv d = (Inr h, d') \<and> up db d' \<and> session db d' = Tx h \<and>
           tables db d' = committed db d \<and> committed db d' = committed db d \<and> ids_left db d' = ids_left db d)) \<and>
     (\<forall>d h. up db d \<and> session db d = Tx h \<longrightarrow>
        (\<exists>d'. Commit drv h d = (Inr (), d') \<and> up db d' \<and> session db d' = Pool \<and>
           committed db d' = tables db d \<and> ids_left db d' = ids_left db d)) \<and>
     (\<forall>d h. up db d \<and> session db d = Tx h \<longrightarrow>
        (\<exists>r d'. Rollback drv h d = (r, d') \<and> up db d' \<and> session db d' = Pool \<and>
           committed db d' = committed db d \<and> ids_left db d' = ids_left db d)) \<and>
     (\<forall>d h. up db d \<and> session db d = Pool \<longrightarrow> (\<exists>r. Rollback drv h d = (r, d)))"

text \<open>A statement that reads one row, one that reads many, and one that writes.\<close>

definition selects ::
  "('h, 'd) driver \<Rightarrow> ('h, 'd, 't) database \<Rightarrow> string \<Rightarrow> ('a \<Rightarrow> sql_value list) \<Rightarrow> ('a \<Rightarrow> bool) \<Rightarrow>
   ('t \<Rightarrow> 'a \<Rightarrow> row option) \<Rightarrow> bool" where
  "selects drv db stmt args ok answer \<longleftrightarrow>
     (\<forall>d a. up db d \<and> ok a \<longrightarrow> QueryRow drv (session db d) stmt (args a) d =
        ((case answer (tables db d) a of None \<Rightarrow> Inl ErrNoRows | Some r \<Rightarrow> Inr r), d))"

definition queries ::
  "('h, 'd) driver \<Rightarrow> ('h, 'd, 't) database \<Rightarrow> string \<Rightarrow> ('a \<Rightarrow> sql_value list) \<Rightarrow> ('a \<Rightarrow> bool) \<Rightarrow>
   ('t \<Rightarrow> 'a \<Rightarrow> row list) \<Rightarrow> bool" where
  "queries drv db stmt args ok answer \<longleftrightarrow>
     (\<forall>d a. up db d \<and> ok a \<longrightarrow>
        Query drv (session db d) stmt (args a) d = (Inr (answer (tables db d) a, None), d))"

definition writes ::
  "('h, 'd) driver \<Rightarrow> ('h, 'd, 't) database \<Rightarrow> string \<Rightarrow> ('a \<Rightarrow> sql_value list) \<Rightarrow> ('t \<Rightarrow> 'a \<Rightarrow> bool) \<Rightarrow>
   ('t \<Rightarrow> 'a \<Rightarrow> 't) \<Rightarrow> bool" where
  "writes drv db stmt args ok effect \<longleftrightarrow>
     (\<forall>d a. up db d \<and> ok (tables db d) a \<longrightarrow>
        (\<exists>d'. Exec drv (session db d) stmt (args a) d = (Inr (), d') \<and> up db d' \<and>
           session db d' = session db d \<and> tables db d' = effect (tables db d) a \<and>
           ids_left db d' = ids_left db d \<and>
           (session db d \<noteq> Pool \<longrightarrow> committed db d' = committed db d)))"

lemma begin_law:
  assumes "tx_laws drv db" and "up db d" and "session db d = Pool"
  obtains h d' where "Begin drv d = (Inr h, d')" and "up db d'" and "session db d' = Tx h"
    and "tables db d' = tables db d" and "committed db d' = committed db d" and "tables db d = committed db d"
    and "ids_left db d' = ids_left db d"
  using assms unfolding tx_laws_def by metis

lemma commit_law:
  assumes "tx_laws drv db" and "up db d" and "session db d = Tx h"
  obtains d' where "Commit drv h d = (Inr (), d')" and "up db d'" and "session db d' = Pool"
    and "tables db d' = tables db d" and "committed db d' = tables db d" and "ids_left db d' = ids_left db d"
  using assms unfolding tx_laws_def by metis

lemma rollback_law:
  assumes "tx_laws drv db" and "up db d" and "session db d = Tx h"
  obtains r d' where "Rollback drv h d = (r, d')" and "up db d'" and "session db d' = Pool"
    and "tables db d' = committed db d" and "committed db d' = committed db d"
    and "ids_left db d' = ids_left db d"
  using assms unfolding tx_laws_def by metis

lemma rollback_closed:
  "tx_laws drv db \<Longrightarrow> up db d \<Longrightarrow> session db d = Pool \<Longrightarrow> snd (Rollback drv h d) = d"
  unfolding tx_laws_def by (metis snd_conv)

lemma pool_committed: "tx_laws drv db \<Longrightarrow> up db d \<Longrightarrow> session db d = Pool \<Longrightarrow> tables db d = committed db d"
  unfolding tx_laws_def by metis

lemma select_law:
  "selects drv db stmt args ok answer \<Longrightarrow> up db d \<Longrightarrow> ok a \<Longrightarrow> session db d = q \<Longrightarrow>
   QueryRow drv q stmt (args a) d =
     ((case answer (tables db d) a of None \<Rightarrow> Inl ErrNoRows | Some r \<Rightarrow> Inr r), d)"
  unfolding selects_def by auto

lemma query_law:
  "queries drv db stmt args ok answer \<Longrightarrow> up db d \<Longrightarrow> ok a \<Longrightarrow> session db d = q \<Longrightarrow>
   Query drv q stmt (args a) d = (Inr (answer (tables db d) a, None), d)"
  unfolding queries_def by auto

lemma write_law:
  assumes "writes drv db stmt args ok effect" and "up db d" and "ok (tables db d) a" and "session db d = q"
  obtains d' where "Exec drv q stmt (args a) d = (Inr (), d')" and "up db d'" and "session db d' = q"
    and "tables db d' = effect (tables db d) a" and "q \<noteq> Pool \<Longrightarrow> committed db d' = committed db d"
    and "ids_left db d' = ids_left db d"
  using assms unfolding writes_def by metis

end
