(* ===== verification/PgStore.thy ===== *)
theory PgStore imports Sql begin

text \<open>
  \<open>internal/eventstore/postgres/store.go\<close>: the event log in Postgres.  Every method is translated
  with its SQL statements (white space collapsed) over the driver of \<open>Sql\<close>;
  \<open>event_store_sql\<close> says what the statements mean over the tables of \<open>schema/0001_events.sql\<close>, and
  from it the store keeps the contract \<open>durable_store\<close>.
\<close>

section \<open>Statements\<close>

definition eventColumns :: string where
  "eventColumns =
     ''global_seq, aggregate_type, aggregate_id, version, event_type, payload, '' @
     ''dedupe_key, correlation_id, created_at''"

definition sql_dedupe_events :: string where
  "sql_dedupe_events =
     ''SELECT e.global_seq, e.aggregate_type, e.aggregate_id, e.version, e.event_type, '' @
     ''e.payload, e.dedupe_key, e.correlation_id, e.created_at FROM idempotency_key_events ike '' @
     ''JOIN events e ON e.global_seq = ike.global_seq WHERE ike.dedupe_key = $1 ORDER BY e.global_seq''"

definition sql_exists_for_update :: string where
  "sql_exists_for_update = ''SELECT EXISTS(SELECT 1 FROM idempotency_keys WHERE dedupe_key = $1 FOR UPDATE)''"

definition sql_exists :: string where
  "sql_exists = ''SELECT EXISTS(SELECT 1 FROM idempotency_keys WHERE dedupe_key = $1)''"

definition sql_reserve :: string where
  "sql_reserve = ''INSERT INTO idempotency_keys (dedupe_key) VALUES ($1)''"

definition sql_ensure_stream :: string where
  "sql_ensure_stream =
     ''INSERT INTO stream_versions (aggregate_type, aggregate_id, version) VALUES ($1, $2, 0) '' @
     ''ON CONFLICT (aggregate_type, aggregate_id) DO NOTHING''"

definition sql_lock_stream :: string where
  "sql_lock_stream =
     ''SELECT version FROM stream_versions WHERE aggregate_type = $1 AND aggregate_id = $2 FOR UPDATE''"

definition sql_insert_event :: string where
  "sql_insert_event =
     ''INSERT INTO events (aggregate_type, aggregate_id, version, event_type, payload, dedupe_key) '' @
     ''VALUES ($1, $2, $3, $4, $5, $6) RETURNING global_seq, created_at''"

definition sql_bump_stream :: string where
  "sql_bump_stream =
     ''UPDATE stream_versions SET version = $1 WHERE aggregate_type = $2 AND aggregate_id = $3''"

definition sql_link_event :: string where
  "sql_link_event = ''INSERT INTO idempotency_key_events (dedupe_key, global_seq) VALUES ($1, $2)''"

definition sql_load_stream :: string where
  "sql_load_stream =
     ''SELECT '' @ eventColumns @ '' FROM events WHERE aggregate_type = $1 AND aggregate_id = $2 ORDER BY version''"

definition sql_load_since :: string where
  "sql_load_since = ''SELECT '' @ eventColumns @ '' FROM events WHERE global_seq > $1 ORDER BY global_seq''"

definition sql_latest :: string where
  "sql_latest = ''SELECT COALESCE(MAX(global_seq), 0) FROM events''"

section \<open>Reading rows\<close>

text \<open>A nullable text column: \<open>NULL\<close> leaves the field empty.\<close>

fun text_or_null :: "sql_value \<Rightarrow> (error + string)" where
  "text_or_null Null = Inr []"
| "text_or_null (Text t) = Inr t"
| "text_or_null _ = Inl ErrScan"

definition scanEvent :: "row \<Rightarrow> error + Event" where
  "scanEvent r =
     (case r of
        [BigInt g, Text ty, Text aid, BigInt v, Text et, Jsonb p, dedupe, correlation, TimestampTz t] \<Rightarrow>
          (case text_or_null dedupe of
             Inl err \<Rightarrow> Inl err
           | Inr k \<Rightarrow>
          (case text_or_null correlation of
             Inl err \<Rightarrow> Inl err
           | Inr c \<Rightarrow>
               Inr \<lparr>GlobalSeq = g, AggregateType = ty, AggregateID = aid, Version = v, EventType = et,
                    Payload = p, Metadata = \<lparr>DedupeKey = k, CorrelationID = c\<rparr>, CreatedAt = t\<rparr>))
      | _ \<Rightarrow> Inl ErrScan)"

text \<open>The loop \<open>for rows.Next()\<close>, then \<open>rows.Err()\<close>.\<close>

fun scan_rows :: "string \<Rightarrow> row list \<Rightarrow> error option \<Rightarrow> Event list \<Rightarrow> error + Event list" where
  "scan_rows msg [] rows_err out = (case rows_err of None \<Rightarrow> Inr out | Some err \<Rightarrow> Inl err)"
| "scan_rows msg (r # rs) rows_err out =
     (case scanEvent r of
        Inl err \<Rightarrow> Inl (Errorf msg err)
      | Inr ev \<Rightarrow> scan_rows msg rs rows_err (out @ [ev]))"

definition collecting :: "string \<Rightarrow> ('d, row list \<times> error option) sql \<Rightarrow> ('d, Event list) sql" where
  "collecting msg m d =
     (case m d of (Inl err, d') \<Rightarrow> (Inl err, d') | (Inr (rs, e), d') \<Rightarrow> (scan_rows msg rs e [], d'))"

definition loadDedupeEvents :: "('h, 'd) driver \<Rightarrow> 'h querier \<Rightarrow> string \<Rightarrow> ('d, Event list) sql" where
  "loadDedupeEvents drv q dedupeKey =
     collecting ''postgres store: scan dedupe event''
       (wrapping ''postgres store: query dedupe events'' (Query drv q sql_dedupe_events [Text dedupeKey]))"

section \<open>Append\<close>

fun scan_seq_time :: "row \<Rightarrow> error + int64 \<times> time" where
  "scan_seq_time [BigInt g, TimestampTz t] = Inr (g, t)"
| "scan_seq_time _ = Inl ErrScan"

fun pg_append_loop ::
  "('h, 'd) driver \<Rightarrow> 'h querier \<Rightarrow> string \<Rightarrow> AppendEvent list \<Rightarrow> Event list \<Rightarrow> ('d, Event list) sql" where
  "pg_append_loop drv tx dedupeKey [] produced = sql_return produced"
| "pg_append_loop drv tx dedupeKey (e # toAppend) produced =
     (let ty = Text (AppendEvent.AggregateType e); aid = Text (AppendEvent.AggregateID e);
          dedupeCol = (if dedupeKey \<noteq> [] then Text dedupeKey else Null)
      in
      sql_bind (wrapping ''postgres store: ensure stream row'' (Exec drv tx sql_ensure_stream [ty, aid])) (\<lambda>_.
      sql_bind (wrapping ''postgres store: lock stream row''
        (scanning scan_int64 (QueryRow drv tx sql_lock_stream [ty, aid]))) (\<lambda>current.
      if ExpectedVersion e \<noteq> NoVersionCheck \<and> ExpectedVersion e \<noteq> current then sql_fail ErrVersionConflict
      else
        let newVersion = current + 1 in
        sql_bind (wrapping ''postgres store: insert event''
          (scanning scan_seq_time (QueryRow drv tx sql_insert_event
            [ty, aid, BigInt newVersion, Text (AppendEvent.EventType e), Jsonb (AppendEvent.Payload e), dedupeCol])))
          (\<lambda>(seqno, createdAt).
        sql_bind (wrapping ''postgres store: bump stream version''
          (Exec drv tx sql_bump_stream [BigInt newVersion, ty, aid])) (\<lambda>_.
        sql_bind (if dedupeKey \<noteq> []
                  then wrapping ''postgres store: link dedupe event''
                         (Exec drv tx sql_link_event [Text dedupeKey, BigInt seqno])
                  else sql_return ()) (\<lambda>_.
        pg_append_loop drv tx dedupeKey toAppend (produced @ [
          \<lparr>GlobalSeq = seqno, AggregateType = AppendEvent.AggregateType e,
           AggregateID = AppendEvent.AggregateID e, Version = newVersion,
           EventType = AppendEvent.EventType e, Payload = AppendEvent.Payload e,
           Metadata = \<lparr>DedupeKey = dedupeKey, CorrelationID = []\<rparr>, CreatedAt = createdAt\<rparr>])))))))"

text \<open>What \<open>Append\<close> does between the \<open>Begin\<close> and the deferred \<open>Rollback\<close>.\<close>

definition pg_append_tx ::
  "('h, 'd) driver \<Rightarrow> 'h \<Rightarrow> string \<Rightarrow> AppendEvent list \<Rightarrow> ('d, Event list \<times> bool) sql" where
  "pg_append_tx drv h dedupeKey toAppend =
     (let tx = Tx h;
          rest = (sql_bind (pg_append_loop drv tx dedupeKey toAppend []) (\<lambda>produced.
                  sql_bind (wrapping ''postgres store: commit'' (Commit drv h)) (\<lambda>_.
                  sql_return (produced, False))))
      in
      if dedupeKey \<noteq> [] then
        sql_bind (wrapping ''postgres store: check dedupe''
          (scanning scan_bool (QueryRow drv tx sql_exists_for_update [Text dedupeKey]))) (\<lambda>exists.
        if exists then
          sql_bind (loadDedupeEvents drv tx dedupeKey) (\<lambda>events.
          sql_bind (wrapping ''postgres store: commit dedupe read'' (Commit drv h)) (\<lambda>_.
          sql_return (events, True)))
        else
          sql_bind (wrapping ''postgres store: reserve dedupe key'' (Exec drv tx sql_reserve [Text dedupeKey])) (\<lambda>_.
          rest))
      else rest)"

definition pg_Append ::
  "('h, 'd) driver \<Rightarrow> string \<Rightarrow> AppendEvent list \<Rightarrow> ('d, Event list \<times> bool) sql" where
  "pg_Append drv dedupeKey toAppend d =
     (case Begin drv d of
        (Inl err, d1) \<Rightarrow> (Inl (Errorf ''postgres store: begin tx'' err), d1)
      | (Inr h, d1) \<Rightarrow>
          (case pg_append_tx drv h dedupeKey toAppend d1 of (r, d2) \<Rightarrow> (r, snd (Rollback drv h d2))))"

section \<open>Reads\<close>

definition pg_LoadStream :: "('h, 'd) driver \<Rightarrow> string \<Rightarrow> string \<Rightarrow> ('d, Event list) sql" where
  "pg_LoadStream drv aggregateType aggregateID =
     collecting ''postgres store: scan event''
       (wrapping ''postgres store: load stream''
         (Query drv Pool sql_load_stream [Text aggregateType, Text aggregateID]))"

definition pg_LoadSince :: "('h, 'd) driver \<Rightarrow> int64 \<Rightarrow> int64 \<Rightarrow> ('d, Event list) sql" where
  "pg_LoadSince drv afterGlobalSeq limit =
     (let stmt = (if 0 <s limit then sql_load_since @ '' LIMIT $2'' else sql_load_since);
          args = (if 0 <s limit then [BigInt afterGlobalSeq, BigInt limit] else [BigInt afterGlobalSeq])
      in collecting ''postgres store: scan event''
           (wrapping ''postgres store: load since'' (Query drv Pool stmt args)))"

definition pg_LatestGlobalSeq :: "('h, 'd) driver \<Rightarrow> ('d, int64) sql" where
  "pg_LatestGlobalSeq drv =
     wrapping ''postgres store: latest global seq'' (scanning scan_int64 (QueryRow drv Pool sql_latest []))"

definition pg_LookupDedupe :: "('h, 'd) driver \<Rightarrow> string \<Rightarrow> ('d, Event list \<times> bool) sql" where
  "pg_LookupDedupe drv dedupeKey =
     (if dedupeKey = [] then sql_return ([], False)
      else
        sql_bind (wrapping ''postgres store: lookup dedupe''
          (scanning scan_bool (QueryRow drv Pool sql_exists [Text dedupeKey]))) (\<lambda>exists.
        if \<not> exists then sql_return ([], False)
        else
          sql_bind (loadDedupeEvents drv Pool dedupeKey) (\<lambda>events.
          sql_return (events, True))))"

text \<open>The methods that only read leave the tables alone; the interface drops the driver's state.\<close>

definition postgres_Store :: "('h, 'd) driver \<Rightarrow> 'd Store" where
  "postgres_Store drv =
     \<lparr>Append = pg_Append drv,
      LoadStream = (\<lambda>ty aid d. fst (pg_LoadStream drv ty aid d)),
      LoadSince = (\<lambda>after limit d. fst (pg_LoadSince drv after limit d)),
      LatestGlobalSeq = (\<lambda>d. fst (pg_LatestGlobalSeq drv d)),
      LookupDedupe = (\<lambda>key d. fst (pg_LookupDedupe drv key d))\<rparr>"

lemma postgres_Store_simps [simp]:
  "Append (postgres_Store drv) = pg_Append drv"
  "LoadStream (postgres_Store drv) = (\<lambda>ty aid d. fst (pg_LoadStream drv ty aid d))"
  "LoadSince (postgres_Store drv) = (\<lambda>after limit d. fst (pg_LoadSince drv after limit d))"
  "LatestGlobalSeq (postgres_Store drv) = (\<lambda>d. fst (pg_LatestGlobalSeq drv d))"
  "LookupDedupe (postgres_Store drv) = (\<lambda>key d. fst (pg_LookupDedupe drv key d))"
  by (simp_all add: postgres_Store_def)

end
