(* ===== verification/PgLog.thy ===== *)
theory PgLog imports PgStore begin

text \<open>
  What the statements of the Postgres event store mean over the tables of
  \<open>schema/0001_events.sql\<close>, the invariant that ties the tables together, and the proof that the
  store keeps the contract \<open>durable_store\<close>.
\<close>

section \<open>The tables\<close>

record event_row =
  global_seq :: int64
  aggregate_type :: string
  aggregate_id :: string
  row_version :: int64
  event_type :: string
  row_payload :: payload
  dedupe_key :: "string option"
  correlation_id :: "string option"
  created_at :: time

record event_tables =
  event_rows :: "event_row list"     \<comment> \<open>in the order of insertion\<close>
  stream_versions :: "stream_key \<rightharpoonup> int64"
  idempotency_keys :: "string set"
  idempotency_key_events :: "(string \<times> int64) list"

definition nullable :: "string option \<Rightarrow> sql_value" where
  "nullable c = (case c of None \<Rightarrow> Null | Some t \<Rightarrow> Text t)"

definition event_columns :: "event_row \<Rightarrow> row" where
  "event_columns r =
     [BigInt (global_seq r), Text (aggregate_type r), Text (aggregate_id r), BigInt (row_version r),
      Text (event_type r), Jsonb (row_payload r), nullable (dedupe_key r), nullable (correlation_id r),
      TimestampTz (created_at r)]"

definition or_empty :: "string option \<Rightarrow> string" where
  "or_empty c = (case c of None \<Rightarrow> [] | Some t \<Rightarrow> t)"

definition row_event :: "event_row \<Rightarrow> Event" where
  "row_event r =
     \<lparr>GlobalSeq = global_seq r, AggregateType = aggregate_type r, AggregateID = aggregate_id r,
      Version = row_version r, EventType = event_type r, Payload = row_payload r,
      Metadata = \<lparr>DedupeKey = or_empty (dedupe_key r), CorrelationID = or_empty (correlation_id r)\<rparr>,
      CreatedAt = created_at r\<rparr>"

lemma row_event_simps [simp]:
  "GlobalSeq (row_event r) = global_seq r" "Event.Version (row_event r) = row_version r"
  "event_key (row_event r) = (aggregate_type r, aggregate_id r)"
  "DedupeKey (Metadata (row_event r)) = or_empty (dedupe_key r)"
  by (simp_all add: row_event_def event_key_def)

lemma text_or_null_nullable [simp]: "text_or_null (nullable c) = Inr (or_empty c)"
  by (simp add: nullable_def or_empty_def split: option.splits)

lemma scanEvent_columns [simp]: "scanEvent (event_columns r) = Inr (row_event r)"
  by (simp add: scanEvent_def event_columns_def row_event_def)

lemma scan_rows_columns: "scan_rows msg (map event_columns rs) None out = Inr (out @ map row_event rs)"
  by (induction rs arbitrary: out) simp_all

section \<open>What the statements mean\<close>

definition by_seq :: "event_row list \<Rightarrow> event_row list" where
  "by_seq = sort_key (\<lambda>r. sint (global_seq r))"

definition by_version :: "event_row list \<Rightarrow> event_row list" where
  "by_version = sort_key (\<lambda>r. sint (row_version r))"

definition rows_of_stream :: "event_tables \<Rightarrow> stream_key \<Rightarrow> event_row list" where
  "rows_of_stream t k = filter (\<lambda>r. (aggregate_type r, aggregate_id r) = k) (event_rows t)"

definition rows_after :: "event_tables \<Rightarrow> int64 \<Rightarrow> event_row list" where
  "rows_after t after = filter (\<lambda>r. after <s global_seq r) (event_rows t)"

definition joined_rows :: "event_tables \<Rightarrow> string \<Rightarrow> event_row list" where
  "joined_rows t key = concat (map (\<lambda>(k, g). if k = key then filter (\<lambda>r. global_seq r = g) (event_rows t) else [])
     (idempotency_key_events t))"

definition max_seq :: "event_tables \<Rightarrow> int64" where
  "max_seq t = (if event_rows t = [] then 0
     else word_of_int (Max (set (map (\<lambda>r. sint (global_seq r)) (event_rows t)))))"

definition insert_row :: "event_tables \<Rightarrow> event_row \<Rightarrow> event_tables" where
  "insert_row t r = t\<lparr>event_rows := event_rows t @ [r]\<rparr>"

text \<open>
  The values the database takes: \<open>text_ok\<close> (no NUL byte) for a \<open>TEXT\<close> column, \<open>json_ok\<close> (a JSON
  text) for a \<open>JSONB\<close> one, whose value comes back as \<open>jsonb p\<close>.  The insertion of an event draws a
  number from the sequence, above every number of the table, and takes the time of the
  transaction.
\<close>

definition insert_event_law ::
  "('h, 'd) driver \<Rightarrow> ('h, 'd, event_tables) database \<Rightarrow> (string \<Rightarrow> bool) \<Rightarrow> (payload \<Rightarrow> bool) \<Rightarrow>
   (payload \<Rightarrow> payload) \<Rightarrow> bool" where
  "insert_event_law drv db text_ok json_ok jsonb \<longleftrightarrow>
     (\<forall>d ty aid v et p key. up db d \<and> text_ok ty \<and> text_ok aid \<and> text_ok et \<and> json_ok p \<and>
        (case key of None \<Rightarrow> True | Some k \<Rightarrow> text_ok k) \<and> 0 < ids_left db d \<and>
        (\<forall>r\<in>set (event_rows (tables db d)).
           (aggregate_type r, aggregate_id r, row_version r) \<noteq> (ty, aid, v)) \<longrightarrow>
        (\<exists>g t d'. QueryRow drv (session db d) sql_insert_event
             [Text ty, Text aid, BigInt v, Text et, Jsonb p, nullable key] d
           = (Inr [BigInt g, TimestampTz t], d') \<and>
           up db d' \<and> session db d' = session db d \<and> ids_left db d' = ids_left db d - 1 \<and>
           (session db d \<noteq> Pool \<longrightarrow> committed db d' = committed db d) \<and>
           0 < sint g \<and> (\<forall>r\<in>set (event_rows (tables db d)). sint (global_seq r) < sint g) \<and>
           tables db d' = insert_row (tables db d)
             \<lparr>global_seq = g, aggregate_type = ty, aggregate_id = aid, row_version = v, event_type = et,
              row_payload = jsonb p, dedupe_key = key, correlation_id = None, created_at = t\<rparr>))"

definition event_reads_sql ::
  "('h, 'd) driver \<Rightarrow> ('h, 'd, event_tables) database \<Rightarrow> (string \<Rightarrow> bool) \<Rightarrow> bool" where
  "event_reads_sql drv db text_ok \<longleftrightarrow>
     queries drv db sql_load_stream (\<lambda>(ty, aid). [Text ty, Text aid]) (\<lambda>(ty, aid). text_ok ty \<and> text_ok aid)
       (\<lambda>t k. map event_columns (by_version (rows_of_stream t k))) \<and>
     queries drv db sql_load_since (\<lambda>after. [BigInt after]) (\<lambda>_. True)
       (\<lambda>t after. map event_columns (by_seq (rows_after t after))) \<and>
     queries drv db (sql_load_since @ '' LIMIT $2'') (\<lambda>(after, limit). [BigInt after, BigInt limit])
       (\<lambda>(after, limit). 0 <s limit)
       (\<lambda>t (after, limit). map event_columns (take (nat (sint limit)) (by_seq (rows_after t after)))) \<and>
     queries drv db sql_dedupe_events (\<lambda>key. [Text key]) text_ok
       (\<lambda>t key. map event_columns (by_seq (joined_rows t key))) \<and>
     selects drv db sql_latest (\<lambda>_ :: unit. []) (\<lambda>_. True) (\<lambda>t _. Some [BigInt (max_seq t)]) \<and>
     selects drv db sql_exists (\<lambda>key. [Text key]) text_ok (\<lambda>t key. Some [Boolean (key \<in> idempotency_keys t)])"

definition event_writes_sql ::
  "('h, 'd) driver \<Rightarrow> ('h, 'd, event_tables) database \<Rightarrow> (string \<Rightarrow> bool) \<Rightarrow> (payload \<Rightarrow> bool) \<Rightarrow>
   (payload \<Rightarrow> payload) \<Rightarrow> bool" where
  "event_writes_sql drv db text_ok json_ok jsonb \<longleftrightarrow>
     selects drv db sql_exists_for_update (\<lambda>key. [Text key]) text_ok
       (\<lambda>t key. Some [Boolean (key \<in> idempotency_keys t)]) \<and>
     selects drv db sql_lock_stream (\<lambda>(ty, aid). [Text ty, Text aid]) (\<lambda>(ty, aid). text_ok ty \<and> text_ok aid)
       (\<lambda>t k. map_option (\<lambda>v. [BigInt v]) (stream_versions t k)) \<and>
     writes drv db sql_reserve (\<lambda>key. [Text key]) (\<lambda>t key. text_ok key \<and> key \<notin> idempotency_keys t)
       (\<lambda>t key. t\<lparr>idempotency_keys := insert key (idempotency_keys t)\<rparr>) \<and>
     writes drv db sql_ensure_stream (\<lambda>(ty, aid). [Text ty, Text aid]) (\<lambda>_ (ty, aid). text_ok ty \<and> text_ok aid)
       (\<lambda>t k. if stream_versions t k = None
              then t\<lparr>stream_versions := (stream_versions t)(k \<mapsto> 0)\<rparr> else t) \<and>
     writes drv db sql_bump_stream (\<lambda>(v, ty, aid). [BigInt v, Text ty, Text aid])
       (\<lambda>_ (v, ty, aid). text_ok ty \<and> text_ok aid)
       (\<lambda>t (v, k). if stream_versions t k = None then t
              else t\<lparr>stream_versions := (stream_versions t)(k \<mapsto> v)\<rparr>) \<and>
     writes drv db sql_link_event (\<lambda>(key, g). [Text key, BigInt g])
       (\<lambda>t (key, g). text_ok key \<and> key \<in> idempotency_keys t \<and> g \<in> global_seq ` set (event_rows t) \<and>
          (key, g) \<notin> set (idempotency_key_events t))
       (\<lambda>t (key, g). t\<lparr>idempotency_key_events := idempotency_key_events t @ [(key, g)]\<rparr>) \<and>
     insert_event_law drv db text_ok json_ok jsonb"

definition event_store_sql ::
  "('h, 'd) driver \<Rightarrow> ('h, 'd, event_tables) database \<Rightarrow> (string \<Rightarrow> bool) \<Rightarrow> (payload \<Rightarrow> bool) \<Rightarrow>
   (payload \<Rightarrow> payload) \<Rightarrow> bool" where
  "event_store_sql drv db text_ok json_ok jsonb \<longleftrightarrow>
     tx_laws drv db \<and> event_reads_sql drv db text_ok \<and> event_writes_sql drv db text_ok json_ok jsonb"

section \<open>The invariant of the tables\<close>

definition log_of :: "event_tables \<Rightarrow> Event list" where
  "log_of t = map row_event (event_rows t)"

definition links_of :: "event_row list \<Rightarrow> (string \<times> int64) list" where
  "links_of rs = concat (map (\<lambda>r. case dedupe_key r of None \<Rightarrow> [] | Some k \<Rightarrow> [(k, global_seq r)]) rs)"

definition tables_wf :: "event_tables \<Rightarrow> bool" where
  "tables_wf t \<longleftrightarrow>
     log_wf (log_of t) \<and>
     go_get (stream_versions t) = stream_version (log_of t) \<and>
     idempotency_key_events t = links_of (event_rows t) \<and>
     [] \<notin> idempotency_keys t \<and>
     (\<forall>r\<in>set (event_rows t). \<forall>k. dedupe_key r = Some k \<longrightarrow> k \<noteq> [] \<and> k \<in> idempotency_keys t)"

definition pg_seen :: "event_tables \<Rightarrow> string \<rightharpoonup> Event list" where
  "pg_seen t key =
     (if key \<in> idempotency_keys t then Some (filter (\<lambda>e. DedupeKey (Metadata e) = key) (log_of t)) else None)"

definition pg_inv :: "('h, 'd, event_tables) database \<Rightarrow> 'd \<Rightarrow> bool" where
  "pg_inv db d \<longleftrightarrow> up db d \<and> session db d = Pool \<and> tables_wf (tables db d)"

definition pg_stored :: "(payload \<Rightarrow> payload) \<Rightarrow> Event \<Rightarrow> Event" where
  "pg_stored jsonb e = e\<lparr>Event.Payload := jsonb (Event.Payload e)\<rparr>"

definition pg_takes :: "(string \<Rightarrow> bool) \<Rightarrow> (payload \<Rightarrow> bool) \<Rightarrow> AppendEvent \<Rightarrow> bool" where
  "pg_takes text_ok json_ok a \<longleftrightarrow>
     text_ok (AppendEvent.AggregateType a) \<and> text_ok (AppendEvent.AggregateID a) \<and>
     text_ok (AppendEvent.EventType a) \<and> json_ok (AppendEvent.Payload a)"

definition pg_accepts ::
  "('h, 'd, event_tables) database \<Rightarrow> (string \<Rightarrow> bool) \<Rightarrow> (payload \<Rightarrow> bool) \<Rightarrow> string \<Rightarrow> AppendEvent list \<Rightarrow> 'd \<Rightarrow> bool" where
  "pg_accepts db text_ok json_ok key as d \<longleftrightarrow>
     text_ok key \<and> (\<forall>a\<in>set as. pg_takes text_ok json_ok a) \<and> length as \<le> ids_left db d \<and>
     length (event_rows (tables db d)) + length as \<le> log_capacity"

text \<open>Sorting rows that are already in order.\<close>

lemma log_wf_sorted_rows:
  assumes "log_wf (log_of t)"
  shows "sorted_wrt (<) (map (\<lambda>r. sint (global_seq r)) (event_rows t))"
  using assms by (simp add: log_wf_def log_of_def comp_def)

lemma by_seq_filter:
  assumes "log_wf (log_of t)"
  shows "by_seq (filter P (event_rows t)) = filter P (event_rows t)"
proof -
  have "sorted (map (\<lambda>r. sint (global_seq r)) (event_rows t))"
    using log_wf_sorted_rows [OF assms] by (rule strict_sorted_imp_sorted)
  then have "sorted (map (\<lambda>r. sint (global_seq r)) (filter P (event_rows t)))"
    by (rule sorted_filter)
  then show ?thesis by (simp add: by_seq_def sort_key_id_if_sorted)
qed

lemma log_of_stream: "map row_event (rows_of_stream t k) = stream_events (log_of t) k"
  by (simp add: rows_of_stream_def stream_events_def log_of_def filter_map comp_def)

lemma by_version_stream:
  assumes "log_wf (log_of t)"
  shows "by_version (rows_of_stream t k) = rows_of_stream t k"
proof -
  let ?es = "stream_events (log_of t) k"
  have len: "length ?es < 2 ^ 63"
    using log_wf_capacity [OF assms] length_stream_events [of "log_of t" k] by simp
  have "map Version ?es = map word_of_nat [1..<Suc (length ?es)]"
    using assms unfolding log_wf_def by blast
  then have "map (\<lambda>e. sint (Event.Version e)) ?es = map (\<lambda>n. sint (word_of_nat n :: int64)) [1..<Suc (length ?es)]"
    by (metis (no_types, lifting) list.map_comp comp_def map_eq_conv)
  also have "\<dots> = map int [1..<Suc (length ?es)]"
    using len by (intro map_cong refl sint_word_of_nat) auto
  finally have "sorted (map (\<lambda>e. sint (Event.Version e)) ?es)"
    by (simp add: sorted_map del: upt_Suc)
  then have "sorted (map (\<lambda>r. sint (row_version r)) (rows_of_stream t k))"
    by (simp add: log_of_stream [symmetric] comp_def)
  then show ?thesis by (simp add: by_version_def sort_key_id_if_sorted)
qed

lemma distinct_seqs: "log_wf (log_of t) \<Longrightarrow> distinct (map global_seq (event_rows t))"
proof -
  assume "log_wf (log_of t)"
  then have "distinct (map (\<lambda>r. sint (global_seq r)) (event_rows t))"
    using log_wf_sorted_rows strict_sorted_iff by blast
  then show ?thesis by (auto simp: distinct_map inj_on_def)
qed

lemma filter_own_seq: "distinct (map global_seq rs) \<Longrightarrow> r \<in> set rs \<Longrightarrow> filter (\<lambda>x. global_seq x = global_seq r) rs = [r]"
proof (induction rs)
  case (Cons a rs)
  show ?case
  proof (cases "r = a")
    case True
    with Cons.prems show ?thesis by (auto simp: filter_empty_conv intro: rev_image_eqI)
  next
    case False
    with Cons.prems Cons.IH show ?thesis by (auto simp: image_iff)
  qed
qed simp

lemma joined_rows_eq:
  assumes "tables_wf t"
  shows "joined_rows t key = filter (\<lambda>r. dedupe_key r = Some key) (event_rows t)"
proof -
  have d: "distinct (map global_seq (event_rows t))"
    using assms distinct_seqs by (simp add: tables_wf_def)
  have "set rs \<subseteq> set (event_rows t) \<Longrightarrow>
      concat (map (\<lambda>(k, g). if k = key then filter (\<lambda>r. global_seq r = g) (event_rows t) else []) (links_of rs))
      = filter (\<lambda>r. dedupe_key r = Some key) rs" for rs
    by (induction rs) (auto simp: links_of_def filter_own_seq [OF d] split: option.splits)
  then show ?thesis using assms by (simp add: joined_rows_def tables_wf_def)
qed

lemma seen_rows:
  assumes "tables_wf t" and "key \<noteq> []"
  shows "map row_event (filter (\<lambda>r. dedupe_key r = Some key) (event_rows t))
    = filter (\<lambda>e. DedupeKey (Metadata e) = key) (log_of t)"
proof -
  have "filter (\<lambda>r. dedupe_key r = Some key) (event_rows t)
      = filter (\<lambda>r. or_empty (dedupe_key r) = key) (event_rows t)"
    using assms by (intro filter_cong) (auto simp: or_empty_def split: option.splits)
  then show ?thesis by (simp add: log_of_def filter_map comp_def)
qed

lemma max_seq_eq:
  assumes "log_wf (log_of t)"
  shows "max_seq t = (if log_of t = [] then 0 else GlobalSeq (last (log_of t)))"
proof (cases "event_rows t" rule: rev_cases)
  case (snoc rs r)
  have "Max (set (map (\<lambda>r. sint (global_seq r)) (event_rows t))) = sint (global_seq r)"
    using log_wf_sorted_rows [OF assms] snoc
    by (intro Max_eqI) (auto simp: sorted_wrt_append intro: less_imp_le)
  with snoc show ?thesis by (simp add: max_seq_def log_of_def)
qed (simp add: max_seq_def log_of_def)

section \<open>The methods that read\<close>

lemma collecting_columns:
  "m d = (Inr (map event_columns rs, None), d') \<Longrightarrow> collecting msg m d = (Inr (map row_event rs), d')"
  by (simp add: collecting_def scan_rows_columns)

lemma loadDedupe_eq:
  assumes "event_store_sql drv db text_ok json_ok jsonb" and "up db d" and "tables_wf (tables db d)"
    and "session db d = q" and "text_ok key" and "key \<noteq> []"
  shows "loadDedupeEvents drv q key d
    = (Inr (filter (\<lambda>e. DedupeKey (Metadata e) = key) (log_of (tables db d))), d)"
proof -
  have "queries drv db sql_dedupe_events (\<lambda>key. [Text key]) text_ok
      (\<lambda>t key. map event_columns (by_seq (joined_rows t key)))"
    using assms(1) by (simp add: event_store_sql_def event_reads_sql_def)
  from query_law [OF this assms(2,5,4)] show ?thesis
    using assms(3) seen_rows [OF assms(3,6)]
    by (simp add: loadDedupeEvents_def wrapping_def joined_rows_eq by_seq_filter tables_wf_def collecting_columns)
qed

lemma pg_LoadStream_eq:
  assumes "event_store_sql drv db text_ok json_ok jsonb" and "pg_inv db d" and "text_ok ty" and "text_ok aid"
  shows "pg_LoadStream drv ty aid d = (Inr (stream_events (log_of (tables db d)) (ty, aid)), d)"
proof -
  have law: "queries drv db sql_load_stream (\<lambda>(ty, aid). [Text ty, Text aid]) (\<lambda>(ty, aid). text_ok ty \<and> text_ok aid)
       (\<lambda>t k. map event_columns (by_version (rows_of_stream t k)))"
    using assms(1) by (simp add: event_store_sql_def event_reads_sql_def)
  from assms(2) have d: "up db d" "session db d = Pool" "log_wf (log_of (tables db d))"
    by (simp_all add: pg_inv_def tables_wf_def)
  from query_law [OF law d(1) _ d(2), of "(ty, aid)"] assms(3,4) show ?thesis
    by (simp add: pg_LoadStream_def wrapping_def by_version_stream [OF d(3)] collecting_columns log_of_stream)
qed

lemma pg_LoadSince_eq:
  assumes "event_store_sql drv db text_ok json_ok jsonb" and "pg_inv db d"
  shows "pg_LoadSince drv after limit d = (Inr (events_since after limit (log_of (tables db d))), d)"
proof -
  have law: "queries drv db sql_load_since (\<lambda>after. [BigInt after]) (\<lambda>_. True)
       (\<lambda>t after. map event_columns (by_seq (rows_after t after)))"
    "queries drv db (sql_load_since @ '' LIMIT $2'') (\<lambda>(after, limit). [BigInt after, BigInt limit])
       (\<lambda>(after, limit). 0 <s limit)
       (\<lambda>t (after, limit). map event_columns (take (nat (sint limit)) (by_seq (rows_after t after))))"
    using assms(1) by (simp_all add: event_store_sql_def event_reads_sql_def)
  from assms(2) have d: "up db d" "session db d = Pool" "log_wf (log_of (tables db d))"
    by (simp_all add: pg_inv_def tables_wf_def)
  have rows: "map row_event (rows_after (tables db d) after)
      = filter (\<lambda>e. sint after < sint (GlobalSeq e)) (log_of (tables db d))"
    by (simp add: rows_after_def log_of_def filter_map comp_def)
  have sorted: "by_seq (rows_after (tables db d) after) = rows_after (tables db d) after"
    by (simp add: rows_after_def by_seq_filter [OF d(3)])
  show ?thesis
  proof (cases "0 <s limit")
    case True
    from query_law [OF law(2) d(1) _ d(2), of "(after, limit)"] True show ?thesis
      by (simp add: pg_LoadSince_def wrapping_def sorted collecting_columns events_since_def rows [symmetric] take_map)
  next
    case False
    from query_law [OF law(1) d(1) _ d(2), of after] False show ?thesis
      by (simp add: pg_LoadSince_def wrapping_def sorted collecting_columns events_since_def rows [symmetric])
  qed
qed

lemma pg_Latest_eq:
  assumes "event_store_sql drv db text_ok json_ok jsonb" and "pg_inv db d"
  shows "pg_LatestGlobalSeq drv d
    = (Inr (if log_of (tables db d) = [] then 0 else GlobalSeq (last (log_of (tables db d)))), d)"
proof -
  have law: "selects drv db sql_latest (\<lambda>_ :: unit. []) (\<lambda>_. True) (\<lambda>t _. Some [BigInt (max_seq t)])"
    using assms(1) by (simp add: event_store_sql_def event_reads_sql_def)
  from assms(2) have d: "up db d" "session db d = Pool" "log_wf (log_of (tables db d))"
    by (simp_all add: pg_inv_def tables_wf_def)
  from select_law [OF law d(1) _ d(2)] max_seq_eq [OF d(3)] show ?thesis
    by (simp add: pg_LatestGlobalSeq_def wrapping_def scanning_def)
qed

lemma pg_Lookup_eq:
  assumes "event_store_sql drv db text_ok json_ok jsonb" and "pg_inv db d" and "text_ok key"
  shows "pg_LookupDedupe drv key d
    = (Inr (case (if key = [] then None else pg_seen (tables db d) key) of
        None \<Rightarrow> ([], False) | Some es \<Rightarrow> (es, True)), d)"
proof -
  have law: "selects drv db sql_exists (\<lambda>key. [Text key]) text_ok (\<lambda>t key. Some [Boolean (key \<in> idempotency_keys t)])"
    using assms(1) by (simp add: event_store_sql_def event_reads_sql_def)
  from assms(2) have d: "up db d" "session db d = Pool" "tables_wf (tables db d)"
    by (simp_all add: pg_inv_def)
  from select_law [OF law d(1) assms(3) d(2)] loadDedupe_eq [OF assms(1) d(1,3,2) assms(3)] show ?thesis
    by (simp add: pg_LookupDedupe_def sql_bind_def wrapping_def scanning_def pg_seen_def)
qed

section \<open>Append\<close>

lemma fresh_version:
  assumes "log_wf L" and "length L < log_capacity" and "e \<in> set L" and "event_key e = k"
  shows "Event.Version e \<noteq> stream_version L k + 1"
proof
  let ?n = "length (stream_events L k)"
  assume eq: "Event.Version e = stream_version L k + 1"
  have n: "Suc ?n < 2 ^ 63" using assms(2) length_stream_events [of L k] by (simp add: log_capacity_def)
  have "Event.Version e \<in> set (map Version (stream_events L k))"
    using assms(3,4) by (auto simp: set_stream_events)
  also have "map Version (stream_events L k) = map word_of_nat [1..<Suc ?n]"
    using assms(1) unfolding log_wf_def by blast
  finally obtain m where m: "m < Suc ?n" "Event.Version e = word_of_nat m" by (auto simp del: upt_Suc)
  have "(word_of_nat m :: int64) = word_of_nat (Suc ?n)"
    using m(2) eq by (simp add: stream_version_def add.commute)
  with m(1) n show False using word_of_nat_inject [of m "Suc ?n"] by simp
qed

text \<open>In a transaction: what the loop keeps, from one event of the batch to the next.\<close>

definition in_tx :: "('h, 'd, event_tables) database \<Rightarrow> 'h \<Rightarrow> event_tables \<Rightarrow> 'd \<Rightarrow> bool" where
  "in_tx db h c d \<longleftrightarrow> up db d \<and> session db d = Tx h \<and> committed db d = c"

lemma in_tx_write:
  assumes "writes drv db stmt args ok effect" and "in_tx db h c d" and "ok (tables db d) a"
  obtains d' where "Exec drv (Tx h) stmt (args a) d = (Inr (), d')" and "in_tx db h c d'"
    and "tables db d' = effect (tables db d) a" and "ids_left db d' = ids_left db d"
proof -
  from assms(2) have d: "up db d" "session db d = Tx h" "committed db d = c" by (simp_all add: in_tx_def)
  from write_law [OF assms(1) d(1) assms(3) d(2)] obtain d' where
    "Exec drv (Tx h) stmt (args a) d = (Inr (), d')" "up db d'" "session db d' = Tx h"
    "tables db d' = effect (tables db d) a" "Tx h \<noteq> Pool \<Longrightarrow> committed db d' = committed db d"
    "ids_left db d' = ids_left db d" by metis
  with d(3) show thesis by (intro that [of d']) (simp_all add: in_tx_def)
qed

lemma in_tx_select:
  "selects drv db stmt args ok answer \<Longrightarrow> in_tx db h c d \<Longrightarrow> ok a \<Longrightarrow>
   QueryRow drv (Tx h) stmt (args a) d =
     ((case answer (tables db d) a of None \<Rightarrow> Inl ErrNoRows | Some r \<Rightarrow> Inr r), d)"
  by (simp add: in_tx_def select_law)

text \<open>The table of stream versions after the row of a stream was ensured.\<close>

definition ensured :: "event_tables \<Rightarrow> stream_key \<Rightarrow> event_tables" where
  "ensured t k = (if stream_versions t k = None
     then t\<lparr>stream_versions := (stream_versions t)(k \<mapsto> 0)\<rparr> else t)"

lemma ensured_simps [simp]:
  "event_rows (ensured t k) = event_rows t" "log_of (ensured t k) = log_of t"
  "idempotency_keys (ensured t k) = idempotency_keys t"
  "idempotency_key_events (ensured t k) = idempotency_key_events t"
  "go_get (stream_versions (ensured t k)) = go_get (stream_versions t)"
  "stream_versions (ensured t k) k = Some (go_get (stream_versions t) k)"
  by (auto simp: ensured_def log_of_def go_get_def fun_eq_iff split: option.splits)

lemma tables_wf_ensured [simp]: "tables_wf (ensured t k) = tables_wf t"
  by (simp add: tables_wf_def)

text \<open>The tables after one event: its row, the bumped version, and the link to the dedupe key.\<close>

definition appended :: "event_tables \<Rightarrow> string \<Rightarrow> event_row \<Rightarrow> event_tables" where
  "appended t key r =
     t\<lparr>event_rows := event_rows t @ [r],
       stream_versions := (stream_versions t)((aggregate_type r, aggregate_id r) \<mapsto> row_version r),
       idempotency_key_events := idempotency_key_events t @ (if key = [] then [] else [(key, global_seq r)])\<rparr>"

lemma appended_wf:
  assumes "tables_wf t" and "records key (log_of t) a (row_event r)" and "length (log_of t) < log_capacity"
    and "dedupe_key r = (if key = [] then None else Some key)" and "key = [] \<or> key \<in> idempotency_keys t"
  shows "tables_wf (appended t key r) \<and> log_of (appended t key r) = log_of t @ [row_event r]"
proof -
  have log: "log_of (appended t key r) = log_of t @ [row_event r]"
    by (simp add: appended_def log_of_def)
  have wf: "log_wf (log_of t @ [row_event r])"
    using assms(1) log_wf_snoc [OF _ assms(2,3)] by (simp add: tables_wf_def)
  have "go_get (stream_versions (appended t key r)) = stream_version (log_of t @ [row_event r])"
    using assms(1,2) by (simp add: appended_def tables_wf_def stream_version_snoc records_def)
  moreover have "idempotency_key_events (appended t key r) = links_of (event_rows (appended t key r))"
    using assms(1,4) by (simp add: appended_def tables_wf_def links_of_def)
  moreover have "\<forall>x\<in>set (event_rows (appended t key r)). \<forall>k. dedupe_key x = Some k \<longrightarrow>
      k \<noteq> [] \<and> k \<in> idempotency_keys (appended t key r)"
    using assms(1,4,5) by (auto simp: appended_def tables_wf_def)
  moreover have "[] \<notin> idempotency_keys (appended t key r)"
    using assms(1) by (simp add: appended_def tables_wf_def)
  ultimately show ?thesis using log wf by (simp add: tables_wf_def)
qed

text \<open>Equations of the loop for one event, from the answers of its statements.\<close>

lemma pg_append_loop_conflict:
  assumes "Exec drv tx sql_ensure_stream [Text (AppendEvent.AggregateType a), Text (AppendEvent.AggregateID a)] d
      = (Inr (), d1)"
    and "QueryRow drv tx sql_lock_stream [Text (AppendEvent.AggregateType a), Text (AppendEvent.AggregateID a)] d1
      = (Inr [BigInt cur], d1)"
    and "ExpectedVersion a \<noteq> NoVersionCheck" and "ExpectedVersion a \<noteq> cur"
  shows "pg_append_loop drv tx key (a # as) produced d = (Inl ErrVersionConflict, d1)"
  using assms by (simp add: Let_def sql_bind_def wrapping_def scanning_def)

lemma pg_append_loop_next:
  assumes "Exec drv tx sql_ensure_stream [Text (AppendEvent.AggregateType a), Text (AppendEvent.AggregateID a)] d
      = (Inr (), d1)"
    and "QueryRow drv tx sql_lock_stream [Text (AppendEvent.AggregateType a), Text (AppendEvent.AggregateID a)] d1
      = (Inr [BigInt cur], d1)"
    and "ExpectedVersion a = NoVersionCheck \<or> ExpectedVersion a = cur"
    and "QueryRow drv tx sql_insert_event
       [Text (AppendEvent.AggregateType a), Text (AppendEvent.AggregateID a), BigInt (cur + 1),
        Text (AppendEvent.EventType a), Jsonb (AppendEvent.Payload a), nullable (if key = [] then None else Some key)] d1
      = (Inr [BigInt g, TimestampTz t], d2)"
    and "Exec drv tx sql_bump_stream
       [BigInt (cur + 1), Text (AppendEvent.AggregateType a), Text (AppendEvent.AggregateID a)] d2 = (Inr (), d3)"
    and "(if key = [] then (Inr (), d3) else Exec drv tx sql_link_event [Text key, BigInt g] d3) = (Inr (), d4)"
  shows "pg_append_loop drv tx key (a # as) produced d
    = pg_append_loop drv tx key as (produced @ [
        \<lparr>GlobalSeq = g, AggregateType = AppendEvent.AggregateType a, AggregateID = AppendEvent.AggregateID a,
         Version = cur + 1, EventType = AppendEvent.EventType a, Payload = AppendEvent.Payload a,
         Metadata = \<lparr>DedupeKey = key, CorrelationID = []\<rparr>, CreatedAt = t\<rparr>]) d4"
  using assms by (cases "key = []") (auto simp: Let_def sql_bind_def wrapping_def scanning_def nullable_def)

text \<open>The statements of the loop, one by one.\<close>

lemma ensure_step:
  assumes "event_store_sql drv db text_ok json_ok jsonb" and "in_tx db h c d" and "text_ok ty" and "text_ok aid"
  obtains d' where "Exec drv (Tx h) sql_ensure_stream [Text ty, Text aid] d = (Inr (), d')" and "in_tx db h c d'"
    and "tables db d' = ensured (tables db d) (ty, aid)" and "ids_left db d' = ids_left db d"
proof -
  have "writes drv db sql_ensure_stream (\<lambda>(ty, aid). [Text ty, Text aid])
      (\<lambda>_ (ty, aid). text_ok ty \<and> text_ok aid) ensured"
    using assms(1) unfolding event_store_sql_def event_writes_sql_def ensured_def [abs_def] by blast
  from in_tx_write [OF this assms(2), of "(ty, aid)"] assms(3,4) show thesis
    using that by auto
qed

lemma lock_step:
  assumes "event_store_sql drv db text_ok json_ok jsonb" and "in_tx db h c d" and "text_ok ty" and "text_ok aid"
    and "stream_versions (tables db d) (ty, aid) = Some v"
  shows "QueryRow drv (Tx h) sql_lock_stream [Text ty, Text aid] d = (Inr [BigInt v], d)"
proof -
  have "selects drv db sql_lock_stream (\<lambda>(ty, aid). [Text ty, Text aid])
      (\<lambda>(ty, aid). text_ok ty \<and> text_ok aid) (\<lambda>t k. map_option (\<lambda>v. [BigInt v]) (stream_versions t k))"
    using assms(1) unfolding event_store_sql_def event_writes_sql_def by blast
  from in_tx_select [OF this assms(2), of "(ty, aid)"] assms(3-5) show ?thesis by simp
qed

lemma insert_step:
  assumes "event_store_sql drv db text_ok json_ok jsonb" and "in_tx db h c d"
    and "text_ok ty" and "text_ok aid" and "text_ok et" and "json_ok p" and "\<forall>k. key = Some k \<longrightarrow> text_ok k"
    and "0 < ids_left db d"
    and "\<forall>r\<in>set (event_rows (tables db d)). (aggregate_type r, aggregate_id r, row_version r) \<noteq> (ty, aid, v)"
  obtains g t d' where "QueryRow drv (Tx h) sql_insert_event
       [Text ty, Text aid, BigInt v, Text et, Jsonb p, nullable key] d = (Inr [BigInt g, TimestampTz t], d')"
    and "in_tx db h c d'" and "ids_left db d' = ids_left db d - 1"
    and "0 < sint g" and "\<forall>r\<in>set (event_rows (tables db d)). sint (global_seq r) < sint g"
    and "tables db d' = insert_row (tables db d)
      \<lparr>global_seq = g, aggregate_type = ty, aggregate_id = aid, row_version = v, event_type = et,
       row_payload = jsonb p, dedupe_key = key, correlation_id = None, created_at = t\<rparr>"
proof -
  have law: "insert_event_law drv db text_ok json_ok jsonb"
    using assms(1) unfolding event_store_sql_def event_writes_sql_def by blast
  have d: "up db d" "session db d = Tx h" "committed db d = c" using assms(2) by (simp_all add: in_tx_def)
  have key: "case key of None \<Rightarrow> True | Some k \<Rightarrow> text_ok k" using assms(7) by (simp split: option.split)
  from law [unfolded insert_event_law_def, rule_format, of d ty aid et p key v] d(1) key assms(3-6,8,9)
  obtain g t d' where r: "QueryRow drv (session db d) sql_insert_event
       [Text ty, Text aid, BigInt v, Text et, Jsonb p, nullable key] d = (Inr [BigInt g, TimestampTz t], d')"
     "up db d'" "session db d' = session db d" "ids_left db d' = ids_left db d - 1"
     "session db d \<noteq> Pool \<longrightarrow> committed db d' = committed db d" "0 < sint g"
     "\<forall>r\<in>set (event_rows (tables db d)). sint (global_seq r) < sint g"
     "tables db d' = insert_row (tables db d)
      \<lparr>global_seq = g, aggregate_type = ty, aggregate_id = aid, row_version = v, event_type = et,
       row_payload = jsonb p, dedupe_key = key, correlation_id = None, created_at = t\<rparr>"
    by blast
  show thesis
    by (rule that [OF _ _ r(4,6,7,8)]) (use r d in \<open>simp_all add: in_tx_def\<close>)
qed

lemma bump_step:
  assumes "event_store_sql drv db text_ok json_ok jsonb" and "in_tx db h c d" and "text_ok ty" and "text_ok aid"
    and "stream_versions (tables db d) (ty, aid) = Some w"
  obtains d' where "Exec drv (Tx h) sql_bump_stream [BigInt v, Text ty, Text aid] d = (Inr (), d')"
    and "in_tx db h c d'" and "ids_left db d' = ids_left db d"
    and "tables db d' = (tables db d)\<lparr>stream_versions := (stream_versions (tables db d))((ty, aid) \<mapsto> v)\<rparr>"
proof -
  have "writes drv db sql_bump_stream (\<lambda>(v, ty, aid). [BigInt v, Text ty, Text aid])
       (\<lambda>_ (v, ty, aid). text_ok ty \<and> text_ok aid)
       (\<lambda>t (v, k). if stream_versions t k = None then t
              else t\<lparr>stream_versions := (stream_versions t)(k \<mapsto> v)\<rparr>)"
    using assms(1) unfolding event_store_sql_def event_writes_sql_def by blast
  from in_tx_write [OF this assms(2), of "(v, ty, aid)"] assms(3-5) show thesis
    using that by auto
qed

lemma link_step:
  assumes "event_store_sql drv db text_ok json_ok jsonb" and "in_tx db h c d" and "text_ok key"
    and "key = [] \<or> key \<in> idempotency_keys (tables db d)" and "g \<in> global_seq ` set (event_rows (tables db d))"
    and "(key, g) \<notin> set (idempotency_key_events (tables db d))"
  obtains d' where "(if key = [] then (Inr (), d) else Exec drv (Tx h) sql_link_event [Text key, BigInt g] d) = (Inr (), d')"
    and "in_tx db h c d'" and "ids_left db d' = ids_left db d"
    and "tables db d' = (tables db d)\<lparr>idempotency_key_events :=
      idempotency_key_events (tables db d) @ (if key = [] then [] else [(key, g)])\<rparr>"
proof (cases "key = []")
  case True
  with assms(2) show thesis by (intro that [of d]) simp_all
next
  case False
  have "writes drv db sql_link_event (\<lambda>(key, g). [Text key, BigInt g])
       (\<lambda>t (key, g). text_ok key \<and> key \<in> idempotency_keys t \<and> g \<in> global_seq ` set (event_rows t) \<and>
          (key, g) \<notin> set (idempotency_key_events t))
       (\<lambda>t (key, g). t\<lparr>idempotency_key_events := idempotency_key_events t @ [(key, g)]\<rparr>)"
    using assms(1) unfolding event_store_sql_def event_writes_sql_def by blast
  from in_tx_write [OF this assms(2), of "(key, g)"] assms(3-6) False show thesis
    using that by auto
qed

lemma pg_append_step:
  assumes sql: "event_store_sql drv db text_ok json_ok jsonb" and "in_tx db h c d" and "tables_wf (tables db d)"
    and "pg_takes text_ok json_ok a" and "0 < ids_left db d" and "length (event_rows (tables db d)) < log_capacity"
    and "text_ok key" and "key = [] \<or> key \<in> idempotency_keys (tables db d)"
    and "ExpectedVersion a = NoVersionCheck \<or>
      ExpectedVersion a = stream_version (log_of (tables db d)) (append_key a)"
  shows "\<exists>ev d'. pg_append_loop drv (Tx h) key (a # as) produced d
      = pg_append_loop drv (Tx h) key as (produced @ [ev]) d' \<and>
    in_tx db h c d' \<and> tables_wf (tables db d') \<and> ids_left db d' = ids_left db d - 1 \<and>
    records key (log_of (tables db d)) a ev \<and>
    log_of (tables db d') = log_of (tables db d) @ [pg_stored jsonb ev] \<and>
    idempotency_keys (tables db d') = idempotency_keys (tables db d)"
proof -
  let ?ty = "AppendEvent.AggregateType a" and ?aid = "AppendEvent.AggregateID a" and ?t = "tables db d"
  let ?key = "if key = [] then None else Some key"
  have ok: "text_ok ?ty" "text_ok ?aid" "text_ok (AppendEvent.EventType a)" "json_ok (AppendEvent.Payload a)"
    using assms(4) by (simp_all add: pg_takes_def)
  have k: "append_key a = (?ty, ?aid)" by (simp add: append_key_def)
  define cur where "cur = stream_version (log_of ?t) (?ty, ?aid)"
  have wf: "log_wf (log_of ?t)" "go_get (stream_versions ?t) = stream_version (log_of ?t)"
    "idempotency_key_events ?t = links_of (event_rows ?t)"
    using assms(3) by (simp_all add: tables_wf_def)
  have room: "length (log_of ?t) < log_capacity" using assms(6) by (simp add: log_of_def)
  from ensure_step [OF sql assms(2) ok(1,2)] obtain d1 where
    d1: "Exec drv (Tx h) sql_ensure_stream [Text ?ty, Text ?aid] d = (Inr (), d1)" "in_tx db h c d1"
      "tables db d1 = ensured ?t (?ty, ?aid)" "ids_left db d1 = ids_left db d" .
  have locked: "QueryRow drv (Tx h) sql_lock_stream [Text ?ty, Text ?aid] d1 = (Inr [BigInt cur], d1)"
    using lock_step [OF sql d1(2) ok(1,2)] by (simp add: d1(3) wf(2) cur_def)
  have unique: "\<forall>r\<in>set (event_rows (tables db d1)).
      (aggregate_type r, aggregate_id r, row_version r) \<noteq> (?ty, ?aid, cur + 1)"
  proof
    fix r assume "r \<in> set (event_rows (tables db d1))"
    then have "row_event r \<in> set (log_of ?t)" by (simp add: d1(3) log_of_def)
    from fresh_version [OF wf(1) room this, of "(?ty, ?aid)"]
    show "(aggregate_type r, aggregate_id r, row_version r) \<noteq> (?ty, ?aid, cur + 1)"
      by (auto simp: cur_def)
  qed
  have left: "0 < ids_left db d1" and keys: "\<forall>k. ?key = Some k \<longrightarrow> text_ok k"
    using assms(5,7) d1(4) by simp_all
  from insert_step [OF sql d1(2) ok keys left unique] obtain g t d2 where
    d2: "QueryRow drv (Tx h) sql_insert_event [Text ?ty, Text ?aid, BigInt (cur + 1),
        Text (AppendEvent.EventType a), Jsonb (AppendEvent.Payload a), nullable ?key] d1
      = (Inr [BigInt g, TimestampTz t], d2)" "in_tx db h c d2" "ids_left db d2 = ids_left db d1 - 1"
     "0 < sint g" "\<forall>r\<in>set (event_rows (tables db d1)). sint (global_seq r) < sint g"
     "tables db d2 = insert_row (tables db d1) \<lparr>global_seq = g, aggregate_type = ?ty, aggregate_id = ?aid,
        row_version = cur + 1, event_type = AppendEvent.EventType a, row_payload = jsonb (AppendEvent.Payload a),
        dedupe_key = ?key, correlation_id = None, created_at = t\<rparr>" .
  define r where "r = \<lparr>global_seq = g, aggregate_type = ?ty, aggregate_id = ?aid,
        row_version = cur + 1, event_type = AppendEvent.EventType a, row_payload = jsonb (AppendEvent.Payload a),
        dedupe_key = ?key, correlation_id = None, created_at = t\<rparr>"
  have t2: "tables db d2 = (ensured ?t (?ty, ?aid))\<lparr>event_rows := event_rows ?t @ [r]\<rparr>"
    by (simp add: d2(6) d1(3) insert_row_def r_def)
  have "stream_versions (tables db d2) (?ty, ?aid) = Some (go_get (stream_versions ?t) (?ty, ?aid))"
    by (simp add: t2)
  from bump_step [OF sql d2(2) ok(1,2) this, of "cur + 1"] obtain d3 where
    d3: "Exec drv (Tx h) sql_bump_stream [BigInt (cur + 1), Text ?ty, Text ?aid] d2 = (Inr (), d3)" "in_tx db h c d3"
      "ids_left db d3 = ids_left db d2"
      "tables db d3 = (tables db d2)\<lparr>stream_versions := (stream_versions (tables db d2))((?ty, ?aid) \<mapsto> cur + 1)\<rparr>" .
  have "key = [] \<or> key \<in> idempotency_keys (tables db d3)" "g \<in> global_seq ` set (event_rows (tables db d3))"
    using assms(8) by (simp_all add: d3(4) t2 r_def)
  moreover have "(key, g) \<notin> set (idempotency_key_events (tables db d3))"
    using d2(5) by (auto simp: d3(4) t2 wf(3) d1(3) links_of_def split: option.splits)
  ultimately obtain d4 where
    d4: "(if key = [] then (Inr (), d3) else Exec drv (Tx h) sql_link_event [Text key, BigInt g] d3) = (Inr (), d4)"
      "in_tx db h c d4" "ids_left db d4 = ids_left db d3" "tables db d4 = (tables db d3)\<lparr>idempotency_key_events :=
      idempotency_key_events (tables db d3) @ (if key = [] then [] else [(key, g)])\<rparr>"
    using link_step [OF sql d3(2) assms(7)] by metis
  have t4: "tables db d4 = appended (ensured ?t (?ty, ?aid)) key r"
    by (simp add: d4(4) d3(4) t2 appended_def r_def)
  let ?ev = "\<lparr>GlobalSeq = g, AggregateType = ?ty, AggregateID = ?aid,
         Version = cur + 1, EventType = AppendEvent.EventType a, Payload = AppendEvent.Payload a,
         Metadata = \<lparr>DedupeKey = key, CorrelationID = []\<rparr>, CreatedAt = t\<rparr>"
  have row: "row_event r = pg_stored jsonb ?ev"
    by (simp add: row_event_def r_def pg_stored_def or_empty_def)
  have rec: "records key (log_of ?t) a ?ev"
    using d2(4,5) by (auto simp: records_def event_key_def append_key_def cur_def log_of_def d1(3))
  have "records key (log_of (ensured ?t (?ty, ?aid)))
      (a\<lparr>AppendEvent.Payload := jsonb (AppendEvent.Payload a)\<rparr>) (row_event r)"
    using rec by (simp add: row pg_stored_def records_def event_key_def append_key_def)
  from appended_wf [OF _ this] room assms(3,8) have
    "tables_wf (tables db d4)" "log_of (tables db d4) = log_of ?t @ [row_event r]"
    by (simp_all add: t4 r_def)
  moreover have "idempotency_keys (tables db d4) = idempotency_keys ?t" by (simp add: t4 appended_def)
  moreover have "ids_left db d4 = ids_left db d - 1" by (simp add: d4(3) d3(3) d2(3) d1(4))
  moreover have "ExpectedVersion a = NoVersionCheck \<or> ExpectedVersion a = cur"
    using assms(9) by (simp add: k cur_def)
  ultimately show ?thesis
    using pg_append_loop_next [OF d1(1) locked _ d2(1) d3(1) d4(1)] d4(2) rec row by metis
qed

text \<open>What \<open>recorded_as\<close> reads of the log is not changed by the form the payloads are kept in.\<close>

lemma stored_simps [simp]:
  "event_key (pg_stored jsonb e) = event_key e" "GlobalSeq (pg_stored jsonb e) = GlobalSeq e"
  by (simp_all add: pg_stored_def event_key_def)

lemma records_cong:
  assumes "map event_key L = map event_key M" and "map GlobalSeq L = map GlobalSeq M"
  shows "records key L a e = records key M a e"
proof -
  have "length (stream_events L k) = length (filter (\<lambda>x. x = k) (map event_key L))" for k
    by (simp add: stream_events_def filter_map comp_def)
  moreover have "length (stream_events M k) = length (filter (\<lambda>x. x = k) (map event_key M))" for k
    by (simp add: stream_events_def filter_map comp_def)
  ultimately have "stream_version L = stream_version M"
    using assms(1) by (simp add: stream_version_def fun_eq_iff)
  moreover have "(\<forall>x\<in>set L. sint (GlobalSeq x) < sint (GlobalSeq e))
      = (\<forall>x\<in>set M. sint (GlobalSeq x) < sint (GlobalSeq e))"
  proof -
    have "(\<forall>x\<in>set N. sint (GlobalSeq x) < sint (GlobalSeq e)) = (\<forall>g\<in>set (map GlobalSeq N). sint g < sint (GlobalSeq e))"
      for N by simp
    then show ?thesis using assms(2) by metis
  qed
  ultimately show ?thesis by (simp add: records_def)
qed

lemma recorded_as_cong:
  "map event_key L = map event_key M \<Longrightarrow> map GlobalSeq L = map GlobalSeq M \<Longrightarrow>
   recorded_as key L as es = recorded_as key M as es"
proof (induction key L as es arbitrary: M rule: recorded_as.induct)
  case (3 key L a as e es)
  then show ?case using records_cong [of L M key a e] "3.IH" [of "M @ [e]"] by simp
qed simp_all

declare pg_append_loop.simps(2) [simp del]

lemma pg_append_loop_spec:
  assumes sql: "event_store_sql drv db text_ok json_ok jsonb" and key: "text_ok key"
  shows "in_tx db h c d \<Longrightarrow> tables_wf (tables db d) \<Longrightarrow> \<forall>a\<in>set as. pg_takes text_ok json_ok a \<Longrightarrow>
    length as \<le> ids_left db d \<Longrightarrow> length (log_of (tables db d)) + length as \<le> log_capacity \<Longrightarrow>
    key = [] \<or> key \<in> idempotency_keys (tables db d) \<Longrightarrow>
    if versions_match (stream_version (log_of (tables db d))) as
    then \<exists>es d'. pg_append_loop drv (Tx h) key as produced d = (Inr (produced @ es), d') \<and> in_tx db h c d' \<and>
      tables_wf (tables db d') \<and> recorded_as key (log_of (tables db d)) as es \<and>
      log_of (tables db d') = log_of (tables db d) @ map (pg_stored jsonb) es \<and>
      idempotency_keys (tables db d') = idempotency_keys (tables db d)
    else \<exists>d'. pg_append_loop drv (Tx h) key as produced d = (Inl ErrVersionConflict, d') \<and> in_tx db h c d'"
proof (induction as arbitrary: d produced)
  case Nil
  then show ?case by simp
next
  case (Cons a as)
  let ?L = "log_of (tables db d)"
  have ok: "text_ok (AppendEvent.AggregateType a)" "text_ok (AppendEvent.AggregateID a)"
    using Cons.prems(3) by (simp_all add: pg_takes_def)
  show ?case
  proof (cases "ExpectedVersion a = NoVersionCheck \<or> ExpectedVersion a = stream_version ?L (append_key a)")
    case True
    have "pg_takes text_ok json_ok a" "0 < ids_left db d" "length (event_rows (tables db d)) < log_capacity"
      using Cons.prems(3-5) by (simp_all add: log_of_def)
    from pg_append_step [OF sql Cons.prems(1,2) this key Cons.prems(6) True, of as produced] obtain ev d' where
      d': "pg_append_loop drv (Tx h) key (a # as) produced d
        = pg_append_loop drv (Tx h) key as (produced @ [ev]) d'" "in_tx db h c d'" "tables_wf (tables db d')"
        "ids_left db d' = ids_left db d - 1" "records key ?L a ev"
        "log_of (tables db d') = ?L @ [pg_stored jsonb ev]"
        "idempotency_keys (tables db d') = idempotency_keys (tables db d)"
      by blast
    have "stream_version (log_of (tables db d')) = (stream_version ?L)(append_key a := stream_version ?L (append_key a) + 1)"
      using d'(5) by (simp add: d'(6) stream_version_snoc records_def)
    moreover have "recorded_as key (log_of (tables db d')) as es = recorded_as key (?L @ [ev]) as es" for es
      by (rule recorded_as_cong) (simp_all add: d'(6))
    moreover have "versions_match (stream_version ?L) (a # as)
        = versions_match (stream_version (log_of (tables db d'))) as"
      using True calculation(1) by simp
    moreover have "key = [] \<or> key \<in> idempotency_keys (tables db d')"
      "\<forall>a\<in>set as. pg_takes text_ok json_ok a" "length as \<le> ids_left db d'"
      "length (log_of (tables db d')) + length as \<le> log_capacity"
      using Cons.prems(3-6) d'(4,6,7) by simp_all
    note IH = Cons.IH [OF d'(2,3) this(2-4,1), of "produced @ [ev]"]
    show ?thesis
    proof (cases "versions_match (stream_version ?L) (a # as)")
      case True
      with IH calculation(3) obtain es d2 where
        "pg_append_loop drv (Tx h) key as (produced @ [ev]) d' = (Inr ((produced @ [ev]) @ es), d2)" "in_tx db h c d2"
        "tables_wf (tables db d2)" "recorded_as key (log_of (tables db d')) as es"
        "log_of (tables db d2) = log_of (tables db d') @ map (pg_stored jsonb) es"
        "idempotency_keys (tables db d2) = idempotency_keys (tables db d')" by auto
      with True d'(1,5-7) calculation(2) show ?thesis
        by (simp del: versions_match.simps)
    next
      case False
      with IH calculation(3) d'(1) show ?thesis by (simp del: versions_match.simps)
    qed
  next
    case False
    from ensure_step [OF sql Cons.prems(1) ok] obtain d1 where
      d1: "Exec drv (Tx h) sql_ensure_stream [Text (AppendEvent.AggregateType a), Text (AppendEvent.AggregateID a)] d
        = (Inr (), d1)" "in_tx db h c d1" "tables db d1 = ensured (tables db d) (append_key a)"
      by (auto simp: append_key_def)
    have "go_get (stream_versions (tables db d)) = stream_version ?L"
      using Cons.prems(2) by (simp add: tables_wf_def)
    then have "QueryRow drv (Tx h) sql_lock_stream
        [Text (AppendEvent.AggregateType a), Text (AppendEvent.AggregateID a)] d1
        = (Inr [BigInt (stream_version ?L (append_key a))], d1)"
      using lock_step [OF sql d1(2) ok] d1(3) by (simp add: append_key_def)
    from pg_append_loop_conflict [OF d1(1) this] False d1(2) show ?thesis by auto
  qed
qed

section \<open>The store keeps its contract\<close>

text \<open>The tables after a batch: what was committed.\<close>

lemma pg_Append_run:
  assumes "event_store_sql drv db text_ok json_ok jsonb" and "pg_inv db d"
  shows "\<exists>h d1. in_tx db h (tables db d) d1 \<and> tables db d1 = tables db d \<and> ids_left db d1 = ids_left db d \<and>
    (\<forall>r d2. pg_append_tx drv h key as d1 = (r, d2) \<longrightarrow> in_tx db h (tables db d) d2 \<longrightarrow>
      (\<exists>d'. pg_Append drv key as d = (r, d') \<and> up db d' \<and> session db d' = Pool \<and> tables db d' = tables db d)) \<and>
    (\<forall>r d2. pg_append_tx drv h key as d1 = (r, d2) \<longrightarrow> up db d2 \<longrightarrow> session db d2 = Pool \<longrightarrow>
      pg_Append drv key as d = (r, d2))"
proof -
  have tx: "tx_laws drv db" using assms(1) by (simp add: event_store_sql_def)
  have d: "up db d" "session db d = Pool" using assms(2) by (simp_all add: pg_inv_def)
  from begin_law [OF tx d] obtain h d1 where
    d1: "Begin drv d = (Inr h, d1)" "up db d1" "session db d1 = Tx h" "tables db d1 = tables db d"
      "committed db d1 = committed db d" "tables db d = committed db d" "ids_left db d1 = ids_left db d" .
  show ?thesis
  proof (rule exI [of _ h], rule exI [of _ d1], intro conjI allI impI)
    show "in_tx db h (tables db d) d1" using d1 by (simp add: in_tx_def)
    show "tables db d1 = tables db d" "ids_left db d1 = ids_left db d" by (rule d1)+
  next
    fix r d2 assume r: "pg_append_tx drv h key as d1 = (r, d2)" and d2: "in_tx db h (tables db d) d2"
    from rollback_law [OF tx, of d2 h] d2 obtain q d' where
      "Rollback drv h d2 = (q, d')" "up db d'" "session db d' = Pool" "tables db d' = committed db d2"
      unfolding in_tx_def by metis
    with r d1(1) d2 show "\<exists>d'. pg_Append drv key as d = (r, d') \<and> up db d' \<and> session db d' = Pool \<and>
        tables db d' = tables db d"
      by (simp add: pg_Append_def in_tx_def)
  next
    fix r d2 assume "pg_append_tx drv h key as d1 = (r, d2)" "up db d2" "session db d2 = Pool"
    with d1(1) rollback_closed [OF tx] show "pg_Append drv key as d = (r, d2)"
      by (simp add: pg_Append_def)
  qed
qed

text \<open>The three outcomes of what runs in the transaction.\<close>

lemma pg_append_tx_duplicate:
  assumes sql: "event_store_sql drv db text_ok json_ok jsonb" and "in_tx db h (tables db d) d" and "tables_wf (tables db d)"
    and "text_ok key" and "key \<noteq> []" and "pg_seen (tables db d) key = Some es"
  shows "\<exists>d'. pg_append_tx drv h key as d = (Inr (es, True), d') \<and> up db d' \<and> session db d' = Pool \<and>
    tables db d' = tables db d"
proof -
  have d: "up db d" "session db d = Tx h" using assms(2) by (simp_all add: in_tx_def)
  have "selects drv db sql_exists_for_update (\<lambda>key. [Text key]) text_ok
       (\<lambda>t key. Some [Boolean (key \<in> idempotency_keys t)])"
    using sql unfolding event_store_sql_def event_writes_sql_def by blast
  note exists = in_tx_select [OF this assms(2,4)]
  have "tx_laws drv db" using sql by (simp add: event_store_sql_def)
  from commit_law [OF this d] obtain d' where
    "Commit drv h d = (Inr (), d')" "up db d'" "session db d' = Pool" "tables db d' = tables db d" .
  then show ?thesis
    using exists loadDedupe_eq [OF sql d(1) assms(3) d(2) assms(4,5)] assms(5,6)
    by (simp add: pg_append_tx_def Let_def sql_bind_def wrapping_def scanning_def pg_seen_def split: if_splits)
qed

text \<open>A fresh key, or none: the key is reserved, and then the loop runs and its work is committed.\<close>

definition reserved :: "event_tables \<Rightarrow> string \<Rightarrow> event_tables" where
  "reserved t key = (if key = [] then t else t\<lparr>idempotency_keys := insert key (idempotency_keys t)\<rparr>)"

lemma reserved_simps [simp]:
  "log_of (reserved t key) = log_of t" "tables_wf t \<Longrightarrow> tables_wf (reserved t key)"
  "key = [] \<or> key \<in> idempotency_keys (reserved t key)"
  "idempotency_keys (reserved t key) = (if key = [] then idempotency_keys t else insert key (idempotency_keys t))"
  by (auto simp: reserved_def log_of_def tables_wf_def)

lemma pg_append_tx_fresh:
  assumes sql: "event_store_sql drv db text_ok json_ok jsonb" and "in_tx db h c d"
    and "text_ok key" and "key = [] \<or> pg_seen (tables db d) key = None"
  obtains d1 where "in_tx db h c d1" and "tables db d1 = reserved (tables db d) key" and "ids_left db d1 = ids_left db d"
    and "pg_append_tx drv h key as d =
      sql_bind (pg_append_loop drv (Tx h) key as []) (\<lambda>produced.
      sql_bind (wrapping ''postgres store: commit'' (Commit drv h)) (\<lambda>_. sql_return (produced, False))) d1"
proof (cases "key = []")
  case True
  with assms(2) show thesis by (intro that [of d]) (simp_all add: reserved_def pg_append_tx_def)
next
  case False
  have laws: "selects drv db sql_exists_for_update (\<lambda>key. [Text key]) text_ok
       (\<lambda>t key. Some [Boolean (key \<in> idempotency_keys t)])"
    "writes drv db sql_reserve (\<lambda>key. [Text key]) (\<lambda>t key. text_ok key \<and> key \<notin> idempotency_keys t)
       (\<lambda>t key. t\<lparr>idempotency_keys := insert key (idempotency_keys t)\<rparr>)"
    using sql unfolding event_store_sql_def event_writes_sql_def by blast+
  have new: "key \<notin> idempotency_keys (tables db d)"
    using assms(4) False by (auto simp: pg_seen_def split: if_splits)
  from in_tx_write [OF laws(2) assms(2), of key] new assms(3) obtain d1 where
    "Exec drv (Tx h) sql_reserve [Text key] d = (Inr (), d1)" "in_tx db h c d1"
    "tables db d1 = (tables db d)\<lparr>idempotency_keys := insert key (idempotency_keys (tables db d))\<rparr>"
    "ids_left db d1 = ids_left db d" by auto
  with False new in_tx_select [OF laws(1) assms(2,3)] show thesis
    by (intro that [of d1]) (simp_all add: reserved_def pg_append_tx_def Let_def sql_bind_def wrapping_def scanning_def)
qed

lemma pg_append_fresh:
  assumes sql: "event_store_sql drv db text_ok json_ok jsonb" and "pg_inv db d"
    and "key = [] \<or> pg_seen (tables db d) key = None" and "pg_accepts db text_ok json_ok key as d"
  shows "if versions_match (stream_version (log_of (tables db d))) as
    then \<exists>es d'. pg_Append drv key as d = (Inr (es, False), d') \<and>
      recorded_as key (log_of (tables db d)) as es \<and> pg_inv db d' \<and>
      log_of (tables db d') = log_of (tables db d) @ map (pg_stored jsonb) es \<and>
      idempotency_keys (tables db d') = idempotency_keys (reserved (tables db d) key)
    else \<exists>d'. pg_Append drv key as d = (Inl ErrVersionConflict, d') \<and> pg_inv db d' \<and> tables db d' = tables db d"
proof -
  have wf: "tables_wf (tables db d)" using assms(2) by (simp add: pg_inv_def)
  have tx: "tx_laws drv db" using sql by (simp add: event_store_sql_def)
  from pg_Append_run [OF sql assms(2), of key as] obtain h d1 where
    d1: "in_tx db h (tables db d) d1" "tables db d1 = tables db d" "ids_left db d1 = ids_left db d"
    and failed: "\<forall>r d2. pg_append_tx drv h key as d1 = (r, d2) \<longrightarrow> in_tx db h (tables db d) d2 \<longrightarrow>
      (\<exists>d'. pg_Append drv key as d = (r, d') \<and> up db d' \<and> session db d' = Pool \<and> tables db d' = tables db d)"
    and fin: "\<forall>r d2. pg_append_tx drv h key as d1 = (r, d2) \<longrightarrow> up db d2 \<longrightarrow> session db d2 = Pool \<longrightarrow>
      pg_Append drv key as d = (r, d2)" by (elim exE conjE)
  have acc: "text_ok key" "\<forall>a\<in>set as. pg_takes text_ok json_ok a" "length as \<le> ids_left db d"
    "length (log_of (tables db d)) + length as \<le> log_capacity"
    using assms(4) by (simp_all add: pg_accepts_def log_of_def)
  from pg_append_tx_fresh [OF sql d1(1) acc(1), of as] assms(3) d1(2) obtain d2 where
    d2: "in_tx db h (tables db d) d2" "tables db d2 = reserved (tables db d) key" "ids_left db d2 = ids_left db d"
      "pg_append_tx drv h key as d1 =
      sql_bind (pg_append_loop drv (Tx h) key as []) (\<lambda>produced.
      sql_bind (wrapping ''postgres store: commit'' (Commit drv h)) (\<lambda>_. sql_return (produced, False))) d2"
    using d1(3) by auto
  have "tables_wf (tables db d2)" "length as \<le> ids_left db d2"
    "length (log_of (tables db d2)) + length as \<le> log_capacity" "key = [] \<or> key \<in> idempotency_keys (tables db d2)"
    using wf acc d2(2,3) by simp_all
  note loop = pg_append_loop_spec [OF sql acc(1) d2(1) this(1) acc(2) this(2-4), of "[]"]
  show ?thesis
  proof (cases "versions_match (stream_version (log_of (tables db d))) as")
    case True
    with loop d2(2) obtain es d3 where
      d3: "pg_append_loop drv (Tx h) key as [] d2 = (Inr es, d3)" "in_tx db h (tables db d) d3" "tables_wf (tables db d3)"
        "recorded_as key (log_of (tables db d)) as es"
        "log_of (tables db d3) = log_of (tables db d) @ map (pg_stored jsonb) es"
        "idempotency_keys (tables db d3) = idempotency_keys (reserved (tables db d) key)" by auto
    from commit_law [OF tx, of d3 h] d3(2) obtain d4 where
      d4: "Commit drv h d3 = (Inr (), d4)" "up db d4" "session db d4 = Pool" "tables db d4 = tables db d3"
      unfolding in_tx_def by metis
    have "pg_append_tx drv h key as d1 = (Inr (es, False), d4)"
      using d2(4) d3(1) d4(1) by (simp add: sql_bind_def wrapping_def)
    with fin d4(2,3) have "pg_Append drv key as d = (Inr (es, False), d4)" by blast
    with True d3 d4 show ?thesis by (auto simp: pg_inv_def)
  next
    case False
    with loop d2(2) obtain d3 where
      "pg_append_loop drv (Tx h) key as [] d2 = (Inl ErrVersionConflict, d3)" "in_tx db h (tables db d) d3" by auto
    moreover from this d2(4) have "pg_append_tx drv h key as d1 = (Inl ErrVersionConflict, d3)"
      by (simp add: sql_bind_def)
    ultimately obtain d' where "pg_Append drv key as d = (Inl ErrVersionConflict, d')" "up db d'"
      "session db d' = Pool" "tables db d' = tables db d" using failed by blast
    with False wf show ?thesis by (auto simp: pg_inv_def)
  qed
qed

text \<open>What the store has seen, after a batch.\<close>

lemma pg_seen_none: "tables_wf t \<Longrightarrow> key \<noteq> [] \<Longrightarrow> pg_seen t key = None \<Longrightarrow>
  filter (\<lambda>e. DedupeKey (Metadata e) = key) (log_of t) = []"
  by (force simp: pg_seen_def log_of_def filter_empty_conv tables_wf_def or_empty_def split: option.splits if_splits)

lemma pg_seen_append:
  assumes "tables_wf t" and "tables_wf t'" and "key = [] \<or> pg_seen t key = None"
    and "log_of t' = log_of t @ es" and "\<forall>e\<in>set es. DedupeKey (Metadata e) = key"
    and "idempotency_keys t' = idempotency_keys (reserved t key)"
  shows "pg_seen t' = (if key = [] then pg_seen t else (pg_seen t)(key \<mapsto> es))"
proof
  fix k
  have "filter (\<lambda>e. DedupeKey (Metadata e) = k) es = (if k = key then es else [])"
    using assms(5) by (auto simp: filter_empty_conv filter_id_conv)
  moreover have "[] \<notin> idempotency_keys t" "[] \<notin> idempotency_keys t'"
    using assms(1,2) by (simp_all add: tables_wf_def)
  ultimately show "pg_seen t' k = (if key = [] then pg_seen t else (pg_seen t)(key \<mapsto> es)) k"
    using pg_seen_none [OF assms(1), of key] assms(3,4,6)
    by (auto simp: pg_seen_def)
qed

text \<open>The reading side of the contract.\<close>

lemma pg_event_log:
  assumes "event_store_sql drv db text_ok json_ok jsonb"
  shows "event_log (postgres_Store drv) (\<lambda>d. log_of (tables db d)) (pg_inv db) text_ok"
  by unfold_locales
    (simp_all add: pg_inv_def tables_wf_def pg_LoadStream_eq [OF assms, unfolded pg_inv_def tables_wf_def]
      pg_LoadSince_eq [OF assms, unfolded pg_inv_def tables_wf_def] pg_Latest_eq [OF assms, unfolded pg_inv_def tables_wf_def])

lemma pg_durable_store:
  assumes "event_store_sql drv db text_ok json_ok jsonb"
  shows "durable_store (postgres_Store drv) (\<lambda>d. log_of (tables db d)) (pg_inv db) text_ok
    (\<lambda>d. pg_seen (tables db d)) (pg_stored jsonb) (pg_accepts db text_ok json_ok)"
proof (intro durable_store.intro durable_store_axioms.intro pg_event_log [OF assms], goal_cases)
  case (1 e)
  show ?case by (intro exI [of _ "jsonb (Event.Payload e)"]) (simp add: pg_stored_def)
next
  case (2 d key)
  have "DedupeKey (Metadata (row_event r)) \<noteq> key" if "r \<in> set (event_rows (tables db d))"
    "key \<notin> idempotency_keys (tables db d)" for r
    using 2 that by (auto simp: pg_inv_def tables_wf_def or_empty_def split: option.splits)
  then show ?case by (auto simp: pg_seen_def log_of_def filter_empty_conv)
next
  case (4 d key es as r d')
  have wf: "tables_wf (tables db d)" using 4(1) by (simp add: pg_inv_def)
  from pg_Append_run [OF assms 4(1), of key as] obtain h d1 where
    d1: "in_tx db h (tables db d) d1" "tables db d1 = tables db d"
    and fin: "\<forall>r d2. pg_append_tx drv h key as d1 = (r, d2) \<longrightarrow> up db d2 \<longrightarrow> session db d2 = Pool \<longrightarrow>
      pg_Append drv key as d = (r, d2)" by (elim exE conjE)
  from pg_append_tx_duplicate [OF assms, of h d1 key es as] d1 wf 4(2-4) obtain d2 where
    "pg_append_tx drv h key as d1 = (Inr (es, True), d2)" "up db d2" "session db d2 = Pool" "tables db d2 = tables db d"
    by auto
  moreover from this fin have "pg_Append drv key as d = (Inr (es, True), d2)" by blast
  ultimately show ?case using 4(5) wf by (simp add: pg_inv_def)
next
  case (5 d key as r d')
  with pg_append_fresh [OF assms 5(1-3)] show ?case by auto
next
  case (6 d key as r d')
  from pg_append_fresh [OF assms 6(1-3)] 6(4,5) obtain es where
    es: "r = Inr (es, False)" "recorded_as key (log_of (tables db d)) as es" "pg_inv db d'"
      "log_of (tables db d') = log_of (tables db d) @ map (pg_stored jsonb) es"
      "idempotency_keys (tables db d') = idempotency_keys (reserved (tables db d) key)" by auto
  have "pg_seen (tables db d') = (if key = [] then pg_seen (tables db d)
      else (pg_seen (tables db d))(key \<mapsto> map (pg_stored jsonb) es))"
  proof (rule pg_seen_append [OF _ _ 6(2) es(4) _ es(5)])
    show "tables_wf (tables db d)" "tables_wf (tables db d')" using 6(1) es(3) by (simp_all add: pg_inv_def)
    show "\<forall>e\<in>set (map (pg_stored jsonb) es). DedupeKey (Metadata e) = key"
      using recorded_as_key [OF es(2)] by (auto simp: pg_stored_def)
  qed
  with es show ?case by auto
qed (simp add: pg_Lookup_eq [OF assms])

text \<open>
  C16: The Postgres event store keeps the contract of the interface: whatever driver and database
  execute the statements as \<open>event_store_sql\<close> says, one transaction at a time, the store is a
  \<open>durable_store\<close>: \<open>Append\<close> checks every expected version, appends the whole batch or nothing, answers
  a key it has seen with the events it recorded then, and the reads serve the log in order.
\<close>

theorem postgres_event_store:
  assumes "event_store_sql drv db text_ok json_ok jsonb"
  shows "durable_store (postgres_Store drv) (\<lambda>d. log_of (tables db d)) (pg_inv db) text_ok
    (\<lambda>d. pg_seen (tables db d)) (pg_stored jsonb) (pg_accepts db text_ok json_ok)"
  by (rule pg_durable_store [OF assms])

end
