(* ===== verification/PgReadModels.thy ===== *)
theory PgReadModels imports Sql Projectors begin

text \<open>
  \<open>internal/projections/postgres/store.go\<close>: the read models in three Postgres tables.  Every
  method is translated with its SQL statement (white space collapsed); \<open>read_model_sql\<close> says what
  the statements mean over the tables of \<open>schema/0001_views.sql\<close>, and from it the store keeps the
  contract \<open>read_model\<close>, so both projectors work on it as they do in memory.
\<close>

section \<open>Context and transaction\<close>

text \<open>The context carries the querier that \<open>withTx\<close> put there, if any.\<close>

type_synonym 'h pg_ctx = "'h querier option"

definition withTx :: "'h pg_ctx \<Rightarrow> 'h querier \<Rightarrow> 'h pg_ctx" where
  "withTx ctx tx = Some tx"

definition ctx_querier :: "'h pg_ctx \<Rightarrow> 'h querier" where
  "ctx_querier ctx = (case ctx of Some tx \<Rightarrow> tx | None \<Rightarrow> Pool)"

text \<open>A database action as an action of the read side.\<close>

definition reading :: "('d, 'a) sql \<Rightarrow> ('d, 'a) act" where
  "reading m d = (case m d of (r, d') \<Rightarrow> Some (r, [], d'))"

text \<open>The deferred rollback runs on every path, after a commit too, and its error is dropped.\<close>

definition pg_WithTx ::
  "('h, 'd) driver \<Rightarrow> 'h pg_ctx \<Rightarrow> ('h pg_ctx \<Rightarrow> ('d, bool) act) \<Rightarrow> ('d, bool) act" where
  "pg_WithTx drv ctx fn d =
     (case Begin drv d of
        (Inl err, d1) \<Rightarrow> Some (Inl (Errorf ''projections/postgres: begin tx'' err), [], d1)
      | (Inr h, d1) \<Rightarrow>
          map_option (\<lambda>(r, ms, d2). (r, ms, snd (Rollback drv h d2)))
            (and_then (fn (withTx ctx (Tx h))) (\<lambda>x.
             and_then (reading (wrapping ''projections/postgres: commit'' (Commit drv h))) (\<lambda>_.
             ret x)) d1))"

text \<open>The same code as in the event store, with this package's prefix.\<close>

definition read_models_Migrate :: "('h, 'd) driver \<Rightarrow> schema_fs \<Rightarrow> ('d, unit) sql" where
  "read_models_Migrate drv fs = Migrate drv fs ''projections/postgres: ''"

section \<open>Accounts\<close>

definition sql_get_account :: string where
  "sql_get_account = ''SELECT balance_cents, version, updated_at FROM accounts_view WHERE account_id = $1''"

definition sql_upsert_account :: string where
  "sql_upsert_account =
     ''INSERT INTO accounts_view (account_id, balance_cents, version, updated_at) VALUES ($1, $2, $3, $4) '' @
     ''ON CONFLICT (account_id) DO UPDATE SET balance_cents = EXCLUDED.balance_cents, '' @
     ''version = EXCLUDED.version, updated_at = EXCLUDED.updated_at''"

fun scan_account :: "string \<Rightarrow> row \<Rightarrow> error + AccountView" where
  "scan_account accountID [BigInt balance, BigInt version, TimestampTz updated] =
     Inr \<lparr>AccountView.AccountID = accountID, BalanceCents = balance, Version = version, UpdatedAt = updated\<rparr>"
| "scan_account accountID _ = Inl ErrScan"

definition pg_GetAccount :: "('h, 'd) driver \<Rightarrow> 'h pg_ctx \<Rightarrow> string \<Rightarrow> ('d, AccountView \<times> bool) act" where
  "pg_GetAccount drv ctx accountID =
     reading (\<lambda>d.
       case scanning (scan_account accountID)
              (QueryRow drv (ctx_querier ctx) sql_get_account [Text accountID]) d of
         (Inl err, d') \<Rightarrow>
           (if err = ErrNoRows then Inr (zero_AccountView, False)
            else Inl (Errorf ''projections/postgres: get account'' err), d')
       | (Inr v, d') \<Rightarrow> (Inr (v, True), d'))"

definition pg_UpsertAccount :: "('h, 'd) driver \<Rightarrow> 'h pg_ctx \<Rightarrow> AccountView \<Rightarrow> ('d, unit) act" where
  "pg_UpsertAccount drv ctx view =
     reading (wrapping ''projections/postgres: upsert account''
       (Exec drv (ctx_querier ctx) sql_upsert_account
         [Text (AccountView.AccountID view), BigInt (AccountView.BalanceCents view),
          BigInt (AccountView.Version view), TimestampTz (AccountView.UpdatedAt view)]))"

section \<open>Inventory\<close>

definition sql_get_inventory :: string where
  "sql_get_inventory =
     ''SELECT available_quantity, reserved_quantity, version, updated_at FROM inventory_view WHERE item_id = $1''"

definition sql_upsert_inventory :: string where
  "sql_upsert_inventory =
     ''INSERT INTO inventory_view (item_id, available_quantity, reserved_quantity, version, updated_at) '' @
     ''VALUES ($1, $2, $3, $4, $5) ON CONFLICT (item_id) DO UPDATE '' @
     ''SET available_quantity = EXCLUDED.available_quantity, reserved_quantity = EXCLUDED.reserved_quantity, '' @
     ''version = EXCLUDED.version, updated_at = EXCLUDED.updated_at''"

fun scan_inventory :: "string \<Rightarrow> row \<Rightarrow> error + InventoryView" where
  "scan_inventory itemID [BigInt available, BigInt reserved, BigInt version, TimestampTz updated] =
     Inr \<lparr>InventoryView.ItemID = itemID, AvailableQuantity = available, ReservedQuantity = reserved,
          Version = version, UpdatedAt = updated\<rparr>"
| "scan_inventory itemID _ = Inl ErrScan"

definition pg_GetInventory :: "('h, 'd) driver \<Rightarrow> 'h pg_ctx \<Rightarrow> string \<Rightarrow> ('d, InventoryView \<times> bool) act" where
  "pg_GetInventory drv ctx itemID =
     reading (\<lambda>d.
       case scanning (scan_inventory itemID)
              (QueryRow drv (ctx_querier ctx) sql_get_inventory [Text itemID]) d of
         (Inl err, d') \<Rightarrow>
           (if err = ErrNoRows then Inr (zero_InventoryView, False)
            else Inl (Errorf ''projections/postgres: get inventory'' err), d')
       | (Inr v, d') \<Rightarrow> (Inr (v, True), d'))"

definition pg_UpsertInventory :: "('h, 'd) driver \<Rightarrow> 'h pg_ctx \<Rightarrow> InventoryView \<Rightarrow> ('d, unit) act" where
  "pg_UpsertInventory drv ctx view =
     reading (wrapping ''projections/postgres: upsert inventory''
       (Exec drv (ctx_querier ctx) sql_upsert_inventory
         [Text (InventoryView.ItemID view), BigInt (InventoryView.AvailableQuantity view),
          BigInt (InventoryView.ReservedQuantity view), BigInt (InventoryView.Version view),
          TimestampTz (InventoryView.UpdatedAt view)]))"

section \<open>Checkpoints\<close>

definition sql_get_checkpoint :: string where
  "sql_get_checkpoint = ''SELECT global_seq FROM projection_checkpoints WHERE projection_name = $1''"

definition sql_set_checkpoint :: string where
  "sql_set_checkpoint =
     ''INSERT INTO projection_checkpoints (projection_name, global_seq) VALUES ($1, $2) '' @
     ''ON CONFLICT (projection_name) DO UPDATE '' @
     ''SET global_seq = GREATEST(projection_checkpoints.global_seq, EXCLUDED.global_seq)''"

definition pg_GetCheckpoint :: "('h, 'd) driver \<Rightarrow> 'h pg_ctx \<Rightarrow> string \<Rightarrow> ('d, int64) act" where
  "pg_GetCheckpoint drv ctx projectionName =
     reading (\<lambda>d.
       case scanning scan_int64 (QueryRow drv (ctx_querier ctx) sql_get_checkpoint [Text projectionName]) d of
         (Inl err, d') \<Rightarrow>
           (if err = ErrNoRows then Inr 0 else Inl (Errorf ''projections/postgres: get checkpoint'' err), d')
       | (Inr v, d') \<Rightarrow> (Inr v, d'))"

definition pg_SetCheckpoint :: "('h, 'd) driver \<Rightarrow> 'h pg_ctx \<Rightarrow> string \<Rightarrow> int64 \<Rightarrow> ('d, unit) act" where
  "pg_SetCheckpoint drv ctx projectionName seq =
     reading (wrapping ''projections/postgres: set checkpoint''
       (Exec drv (ctx_querier ctx) sql_set_checkpoint [Text projectionName, BigInt seq]))"

definition postgres_ReadModels :: "('h, 'd) driver \<Rightarrow> ('h pg_ctx, 'd) ReadModelStore" where
  "postgres_ReadModels drv =
     \<lparr>GetAccount = pg_GetAccount drv, UpsertAccount = pg_UpsertAccount drv,
      GetInventory = pg_GetInventory drv, UpsertInventory = pg_UpsertInventory drv,
      GetCheckpoint = pg_GetCheckpoint drv, SetCheckpoint = pg_SetCheckpoint drv,
      WithTx = pg_WithTx drv\<rparr>"

lemma postgres_ReadModels_simps [simp]:
  "GetAccount (postgres_ReadModels drv) = pg_GetAccount drv"
  "UpsertAccount (postgres_ReadModels drv) = pg_UpsertAccount drv"
  "GetInventory (postgres_ReadModels drv) = pg_GetInventory drv"
  "UpsertInventory (postgres_ReadModels drv) = pg_UpsertInventory drv"
  "GetCheckpoint (postgres_ReadModels drv) = pg_GetCheckpoint drv"
  "SetCheckpoint (postgres_ReadModels drv) = pg_SetCheckpoint drv"
  "WithTx (postgres_ReadModels drv) = pg_WithTx drv"
  by (simp_all add: postgres_ReadModels_def)

section \<open>What the statements mean\<close>

text \<open>
  The three tables are \<open>views\<close>, a row under its key.  A time stamp is kept as \<open>stamp\<close> rounds it
  (Postgres keeps microseconds); a key that is no text Postgres takes (one with a NUL byte) makes
  a statement fail, as does a time out of range: \<open>ok_id\<close> and \<open>ok_time\<close>.
\<close>

definition account_columns :: "views \<Rightarrow> string \<Rightarrow> row option" where
  "account_columns t i = map_option (\<lambda>v. [BigInt (AccountView.BalanceCents v),
     BigInt (AccountView.Version v), TimestampTz (AccountView.UpdatedAt v)]) (accounts t i)"

definition inventory_columns :: "views \<Rightarrow> string \<Rightarrow> row option" where
  "inventory_columns t i = map_option (\<lambda>v. [BigInt (InventoryView.AvailableQuantity v),
     BigInt (InventoryView.ReservedQuantity v), BigInt (InventoryView.Version v),
     TimestampTz (InventoryView.UpdatedAt v)]) (inventory t i)"

definition greatest :: "(string \<rightharpoonup> int64) \<Rightarrow> string \<Rightarrow> int64 \<Rightarrow> int64" where
  "greatest cps n g = (case cps n of None \<Rightarrow> g | Some c \<Rightarrow> if c <s g then g else c)"

definition account_upserted :: "(time \<Rightarrow> time) \<Rightarrow> views \<Rightarrow> string \<times> int64 \<times> int64 \<times> time \<Rightarrow> views" where
  "account_upserted stamp t = (\<lambda>(i, b, v, u). t\<lparr>accounts := (accounts t)(i \<mapsto>
     \<lparr>AccountView.AccountID = i, BalanceCents = b, Version = v, UpdatedAt = stamp u\<rparr>)\<rparr>)"

definition inventory_upserted ::
  "(time \<Rightarrow> time) \<Rightarrow> views \<Rightarrow> string \<times> int64 \<times> int64 \<times> int64 \<times> time \<Rightarrow> views" where
  "inventory_upserted stamp t = (\<lambda>(i, a, q, v, u). t\<lparr>inventory := (inventory t)(i \<mapsto>
     \<lparr>InventoryView.ItemID = i, AvailableQuantity = a, ReservedQuantity = q, Version = v,
      UpdatedAt = stamp u\<rparr>)\<rparr>)"

definition checkpoint_advanced :: "views \<Rightarrow> string \<times> int64 \<Rightarrow> views" where
  "checkpoint_advanced t = (\<lambda>(n, g). t\<lparr>checkpoints := (checkpoints t)(n \<mapsto> greatest (checkpoints t) n g)\<rparr>)"

definition read_model_sql ::
  "('h, 'd) driver \<Rightarrow> ('h, 'd, views) database \<Rightarrow> (time \<Rightarrow> time) \<Rightarrow> (string \<Rightarrow> bool) \<Rightarrow> (time \<Rightarrow> bool) \<Rightarrow> bool" where
  "read_model_sql drv db stamp ok_id ok_time \<longleftrightarrow>
     tx_laws drv db \<and>
     selects drv db sql_get_account (\<lambda>i. [Text i]) ok_id account_columns \<and>
     selects drv db sql_get_inventory (\<lambda>i. [Text i]) ok_id inventory_columns \<and>
     selects drv db sql_get_checkpoint (\<lambda>n. [Text n]) ok_id (\<lambda>t n. map_option (\<lambda>g. [BigInt g]) (checkpoints t n)) \<and>
     writes drv db sql_upsert_account
       (\<lambda>(i, b, v, u). [Text i, BigInt b, BigInt v, TimestampTz u])
       (\<lambda>_ (i, b, v, u). ok_id i \<and> ok_time u) (account_upserted stamp) \<and>
     writes drv db sql_upsert_inventory
       (\<lambda>(i, a, q, v, u). [Text i, BigInt a, BigInt q, BigInt v, TimestampTz u])
       (\<lambda>_ (i, a, q, v, u). ok_id i \<and> ok_time u) (inventory_upserted stamp) \<and>
     writes drv db sql_set_checkpoint (\<lambda>(n, g). [Text n, BigInt g]) (\<lambda>_ (n, g). ok_id n) checkpoint_advanced"

section \<open>The store keeps the contract\<close>

text \<open>The rows are kept under their own keys.\<close>

definition keyed :: "views \<Rightarrow> bool" where
  "keyed t \<longleftrightarrow> (\<forall>i v. accounts t i = Some v \<longrightarrow> AccountView.AccountID v = i) \<and>
     (\<forall>i v. inventory t i = Some v \<longrightarrow> InventoryView.ItemID v = i)"

definition pg_usable :: "('h, 'd, views) database \<Rightarrow> 'h pg_ctx \<Rightarrow> 'd \<Rightarrow> bool" where
  "pg_usable db ctx d \<longleftrightarrow> up db d \<and> session db d = ctx_querier ctx \<and>
     keyed (tables db d) \<and> keyed (committed db d)"

definition pg_outside :: "('h, 'd, views) database \<Rightarrow> 'h pg_ctx \<Rightarrow> 'd \<Rightarrow> bool" where
  "pg_outside db ctx d \<longleftrightarrow> pg_usable db ctx d \<and> session db d = Pool"

lemma reading_simps: "m d = (r, d') \<Longrightarrow> reading m d = Some (r, [], d')"
  by (simp add: reading_def)

lemma pg_write:
  assumes "tx_laws drv db" and "writes drv db stmt args ok effect" and "pg_usable db ctx d"
    and "ok (tables db d) a" and "keyed (effect (tables db d) a)"
  shows "\<exists>d'. reading (wrapping msg (Exec drv (ctx_querier ctx) stmt (args a))) d = Some (Inr (), [], d') \<and>
    pg_usable db ctx d' \<and> tables db d' = effect (tables db d) a"
proof -
  from assms(3) have d: "up db d" "session db d = ctx_querier ctx" "keyed (committed db d)"
    by (simp_all add: pg_usable_def)
  from write_law [OF assms(2) d(1) assms(4) d(2)] obtain d' where
    d': "Exec drv (ctx_querier ctx) stmt (args a) d = (Inr (), d')" "up db d'"
      "session db d' = ctx_querier ctx" "tables db d' = effect (tables db d) a"
      "ctx_querier ctx \<noteq> Pool \<Longrightarrow> committed db d' = committed db d" by metis
  have "keyed (committed db d')"
    using d'(5) d(3) pool_committed [OF assms(1) d'(2)] d'(3,4) assms(5) by (cases "ctx_querier ctx") auto
  with d' assms(5) show ?thesis
    by (intro exI [of _ d']) (simp add: reading_def wrapping_def pg_usable_def)
qed

lemma pg_with_tx:
  assumes "tx_laws drv db" and "pg_outside db c d"
  shows "\<exists>c' d1. pg_usable db c' d1 \<and> tables db d1 = tables db d \<and>
    (\<forall>r ms d2. fn c' d1 = Some (r, ms, d2) \<longrightarrow> pg_usable db c' d2 \<longrightarrow>
       (\<exists>d'. pg_WithTx drv c fn d = Some (r, ms, d') \<and> pg_outside db c d' \<and>
          (\<forall>x. r = Inr x \<longrightarrow> tables db d' = tables db d2)))"
proof -
  from assms(2) have d: "up db d" "session db d = Pool" "ctx_querier c = Pool" "keyed (tables db d)"
    by (auto simp: pg_outside_def pg_usable_def)
  from begin_law [OF assms(1) d(1,2)] obtain h d1 where
    d1: "Begin drv d = (Inr h, d1)" "up db d1" "session db d1 = Tx h" "tables db d1 = tables db d"
      "committed db d1 = committed db d" "tables db d = committed db d" by metis
  let ?c = "withTx c (Tx h)"
  have c: "ctx_querier ?c = Tx h" by (simp add: withTx_def ctx_querier_def)
  have "\<exists>d'. pg_WithTx drv c fn d = Some (r, ms, d') \<and> pg_outside db c d' \<and>
      (\<forall>x. r = Inr x \<longrightarrow> tables db d' = tables db d2)"
    if fn: "fn ?c d1 = Some (r, ms, d2)" and d2: "pg_usable db ?c d2" for r ms d2
  proof (cases r)
    case (Inl err)
    from d2 have u: "up db d2" "session db d2 = Tx h" "keyed (committed db d2)"
      by (simp_all add: pg_usable_def c)
    from rollback_law [OF assms(1) u(1,2)] obtain q d' where
      "Rollback drv h d2 = (q, d')" "up db d'" "session db d' = Pool"
      "tables db d' = committed db d2" "committed db d' = committed db d2" by metis
    with Inl fn d1(1) u(3) d(3) show ?thesis
      by (simp add: pg_WithTx_def and_then_def pg_outside_def pg_usable_def)
  next
    case (Inr x)
    from d2 have u: "up db d2" "session db d2 = Tx h" "keyed (tables db d2)"
      by (simp_all add: pg_usable_def c)
    from commit_law [OF assms(1) u(1,2)] obtain d' where
      d': "Commit drv h d2 = (Inr (), d')" "up db d'" "session db d' = Pool"
      "tables db d' = tables db d2" "committed db d' = tables db d2" by metis
    with Inr fn d1(1) u(3) d(3) rollback_closed [OF assms(1) d'(2,3)] show ?thesis
      by (simp add: pg_WithTx_def and_then_def pg_outside_def pg_usable_def reading_def wrapping_def ret_def)
  qed
  with d1 d(4) c show ?thesis
    by (intro exI [of _ ?c] exI [of _ d1]) (simp add: pg_usable_def)
qed

lemma keyed_upserted:
  "keyed t \<Longrightarrow> keyed (account_upserted stamp t x)" "keyed t \<Longrightarrow> keyed (inventory_upserted stamp t y)"
  "keyed t \<Longrightarrow> keyed (checkpoint_advanced t z)"
  by (auto simp: keyed_def account_upserted_def inventory_upserted_def checkpoint_advanced_def
      split: prod.splits)

lemma pg_reads:
  assumes "read_model_sql drv db stamp ok_id ok_time" and "pg_usable db c d" and "ok_id i"
  shows "pg_GetAccount drv c i d = Some (Inr (case accounts (tables db d) i of
      None \<Rightarrow> (zero_AccountView, False) | Some v \<Rightarrow> (v, True)), [], d)"
    and "pg_GetInventory drv c i d = Some (Inr (case inventory (tables db d) i of
      None \<Rightarrow> (zero_InventoryView, False) | Some v \<Rightarrow> (v, True)), [], d)"
    and "pg_GetCheckpoint drv c i d = Some (Inr (go_get (checkpoints (tables db d)) i), [], d)"
proof -
  have laws: "selects drv db sql_get_account (\<lambda>i. [Text i]) ok_id account_columns"
    "selects drv db sql_get_inventory (\<lambda>i. [Text i]) ok_id inventory_columns"
    "selects drv db sql_get_checkpoint (\<lambda>n. [Text n]) ok_id (\<lambda>t n. map_option (\<lambda>g. [BigInt g]) (checkpoints t n))"
    using assms(1) unfolding read_model_sql_def by blast+
  have d: "up db d" "session db d = ctx_querier c" "keyed (tables db d)"
    using assms(2) by (simp_all add: pg_usable_def)
  note row = select_law [OF laws(1) d(1) assms(3) d(2)] select_law [OF laws(2) d(1) assms(3) d(2)]
    select_law [OF laws(3) d(1) assms(3) d(2)]
  show "pg_GetAccount drv c i d = Some (Inr (case accounts (tables db d) i of
      None \<Rightarrow> (zero_AccountView, False) | Some v \<Rightarrow> (v, True)), [], d)"
    using row(1) d(3)
    by (auto simp: pg_GetAccount_def reading_def scanning_def account_columns_def keyed_def split: option.splits)
  show "pg_GetInventory drv c i d = Some (Inr (case inventory (tables db d) i of
      None \<Rightarrow> (zero_InventoryView, False) | Some v \<Rightarrow> (v, True)), [], d)"
    using row(2) d(3)
    by (auto simp: pg_GetInventory_def reading_def scanning_def inventory_columns_def keyed_def split: option.splits)
  show "pg_GetCheckpoint drv c i d = Some (Inr (go_get (checkpoints (tables db d)) i), [], d)"
    using row(3) by (simp add: pg_GetCheckpoint_def reading_def scanning_def go_get_def split: option.splits)
qed

lemma pg_writes:
  assumes "read_model_sql drv db stamp ok_id ok_time" and "pg_usable db c d"
  shows "ok_id (AccountView.AccountID av) \<Longrightarrow> ok_time (AccountView.UpdatedAt av) \<Longrightarrow>
      \<exists>d'. pg_UpsertAccount drv c av d = Some (Inr (), [], d') \<and> pg_usable db c d' \<and>
        tables db d' = (tables db d)\<lparr>accounts :=
          (accounts (tables db d))(AccountView.AccountID av \<mapsto> stamp_account stamp av)\<rparr>"
    and "ok_id (InventoryView.ItemID iv) \<Longrightarrow> ok_time (InventoryView.UpdatedAt iv) \<Longrightarrow>
      \<exists>d'. pg_UpsertInventory drv c iv d = Some (Inr (), [], d') \<and> pg_usable db c d' \<and>
        tables db d' = (tables db d)\<lparr>inventory :=
          (inventory (tables db d))(InventoryView.ItemID iv \<mapsto> stamp_inventory stamp iv)\<rparr>"
    and "ok_id n \<Longrightarrow> \<exists>d'. pg_SetCheckpoint drv c n g d = Some (Inr (), [], d') \<and> pg_usable db c d' \<and>
        tables db d' = checkpoint_advanced (tables db d) (n, g)"
proof -
  have tx: "tx_laws drv db" and laws: "writes drv db sql_upsert_account
       (\<lambda>(i, b, v, u). [Text i, BigInt b, BigInt v, TimestampTz u])
       (\<lambda>_ (i, b, v, u). ok_id i \<and> ok_time u) (account_upserted stamp)"
    "writes drv db sql_upsert_inventory
       (\<lambda>(i, a, q, v, u). [Text i, BigInt a, BigInt q, BigInt v, TimestampTz u])
       (\<lambda>_ (i, a, q, v, u). ok_id i \<and> ok_time u) (inventory_upserted stamp)"
    "writes drv db sql_set_checkpoint (\<lambda>(n, g). [Text n, BigInt g]) (\<lambda>_ (n, g). ok_id n) checkpoint_advanced"
    using assms(1) unfolding read_model_sql_def by blast+
  have keyed: "keyed (tables db d)" using assms(2) by (simp add: pg_usable_def)
  note upserted = keyed_upserted(1) [OF keyed, of stamp] keyed_upserted(2) [OF keyed, of stamp]
  note w = pg_write [OF tx laws(1) assms(2) _ upserted(1), of "(AccountView.AccountID av,
        AccountView.BalanceCents av, AccountView.Version av, AccountView.UpdatedAt av)"]
    pg_write [OF tx laws(2) assms(2) _ upserted(2), of "(InventoryView.ItemID iv,
        InventoryView.AvailableQuantity iv, InventoryView.ReservedQuantity iv, InventoryView.Version iv,
        InventoryView.UpdatedAt iv)"]
    pg_write [OF tx laws(3) assms(2) _ keyed_upserted(3) [OF keyed], of "(n, g)"]
  show "ok_id (AccountView.AccountID av) \<Longrightarrow> ok_time (AccountView.UpdatedAt av) \<Longrightarrow>
      \<exists>d'. pg_UpsertAccount drv c av d = Some (Inr (), [], d') \<and> pg_usable db c d' \<and>
        tables db d' = (tables db d)\<lparr>accounts :=
          (accounts (tables db d))(AccountView.AccountID av \<mapsto> stamp_account stamp av)\<rparr>"
    using w(1) by (cases av) (simp add: pg_UpsertAccount_def account_upserted_def stamp_account_def)
  show "ok_id (InventoryView.ItemID iv) \<Longrightarrow> ok_time (InventoryView.UpdatedAt iv) \<Longrightarrow>
      \<exists>d'. pg_UpsertInventory drv c iv d = Some (Inr (), [], d') \<and> pg_usable db c d' \<and>
        tables db d' = (tables db d)\<lparr>inventory :=
          (inventory (tables db d))(InventoryView.ItemID iv \<mapsto> stamp_inventory stamp iv)\<rparr>"
    using w(2) by (cases iv) (simp add: pg_UpsertInventory_def inventory_upserted_def stamp_inventory_def)
  show "ok_id n \<Longrightarrow> \<exists>d'. pg_SetCheckpoint drv c n g d = Some (Inr (), [], d') \<and> pg_usable db c d' \<and>
        tables db d' = checkpoint_advanced (tables db d) (n, g)"
    using w(3) by (simp add: pg_SetCheckpoint_def)
qed

text \<open>
  Whatever driver and database execute the statements as \<open>read_model_sql\<close> says, the store is a
  \<open>read_model\<close>, so everything proved of the projectors for such a store holds on Postgres.
\<close>

lemma postgres_read_model:
  assumes "read_model_sql drv db stamp ok_id ok_time"
  shows "read_model (postgres_ReadModels drv) (tables db) (pg_usable db) (pg_outside db) stamp ok_id ok_time"
proof (unfold_locales, goal_cases)
  case (1 c s)
  then show ?case by (simp add: pg_outside_def)
next
  case (7 c s n g)
  then show ?case
    using pg_writes(3) [OF assms 7(1,2), of g]
    by (auto simp: checkpoint_advanced_def greatest_def go_get_def split: option.splits)
next
  case (8 c s n g)
  then show ?case
    using pg_writes(3) [OF assms 8(1,2), of g]
    by (auto simp: checkpoint_advanced_def greatest_def go_get_def fun_eq_iff signed_eq_0_iff split: option.splits)
next
  case (9 c s fn)
  then show ?case using pg_with_tx [of drv db c s fn] assms by (simp add: read_model_sql_def)
qed (simp_all add: pg_reads [OF assms] pg_writes [OF assms])

end
