(* ===== verification/TableDb.thy ===== *)
theory TableDb imports PgLog PgReadModels begin

text \<open>
  A small database that executes the statements of both Postgres stores on tables in memory, with
  one open transaction at most.  It shows that the hypotheses on the driver and the database,
  \<open>read_model_sql\<close> and \<open>event_store_sql\<close>, can be met, and runs the stores in the witnesses.
\<close>

section \<open>A database of tables\<close>

text \<open>\<open>saved\<close> holds the tables as they were when the open transaction began.\<close>

record 't table_db =
  work :: 't
  saved :: "'t option"
  drawn :: nat                     \<comment> \<open>numbers drawn from the sequence\<close>

definition db_session :: "'t table_db \<Rightarrow> unit querier" where
  "db_session d = (case saved d of None \<Rightarrow> Pool | Some _ \<Rightarrow> Tx ())"

definition db_committed :: "'t table_db \<Rightarrow> 't" where
  "db_committed d = (case saved d of None \<Rightarrow> work d | Some c \<Rightarrow> c)"

definition db_rollback :: "'t table_db \<Rightarrow> 't table_db" where
  "db_rollback d = (case saved d of None \<Rightarrow> d | Some c \<Rightarrow> d\<lparr>work := c, saved := None\<rparr>)"

text \<open>
  The driver: \<open>row\<close> and \<open>rows\<close> answer a statement that reads, \<open>upd\<close> one that writes, \<open>ins\<close> one
  that inserts and returns a row, given the next number of the sequence.
\<close>

definition table_driver ::
  "(string \<Rightarrow> sql_value list \<Rightarrow> 't \<Rightarrow> row option) \<Rightarrow> (string \<Rightarrow> sql_value list \<Rightarrow> 't \<Rightarrow> row list) \<Rightarrow>
   (string \<Rightarrow> sql_value list \<Rightarrow> 't \<Rightarrow> 't) \<Rightarrow> (string \<Rightarrow> sql_value list \<Rightarrow> int64 \<Rightarrow> 't \<Rightarrow> (row \<times> 't) option) \<Rightarrow>
   (unit, 't table_db) driver" where
  "table_driver row_of rows_of upd ins =
     \<lparr>Begin = (\<lambda>d. (Inr (), d\<lparr>saved := Some (work d)\<rparr>)),
      Commit = (\<lambda>_ d. (Inr (), d\<lparr>saved := None\<rparr>)),
      Rollback = (\<lambda>_ d. (Inr (), db_rollback d)),
      Exec = (\<lambda>_ stmt args d. (Inr (), d\<lparr>work := upd stmt args (work d)\<rparr>)),
      QueryRow = (\<lambda>_ stmt args d.
        (case ins stmt args (word_of_nat (Suc (drawn d))) (work d) of
           Some (r, t) \<Rightarrow> (Inr r, d\<lparr>work := t, drawn := Suc (drawn d)\<rparr>)
         | None \<Rightarrow> ((case row_of stmt args (work d) of None \<Rightarrow> Inl ErrNoRows | Some r \<Rightarrow> Inr r), d))),
      Query = (\<lambda>_ stmt args d. (Inr (rows_of stmt args (work d), None), d))\<rparr>"

definition table_database :: "(nat \<Rightarrow> 't \<Rightarrow> bool) \<Rightarrow> (unit, 't table_db, 't) database" where
  "table_database ok =
     \<lparr>up = (\<lambda>d. ok (drawn d) (work d) \<and> ok (drawn d) (db_committed d)), session = db_session, tables = work,
      committed = db_committed, ids_left = (\<lambda>d. log_capacity - drawn d)\<rparr>"

lemma table_database_simps [simp]:
  "up (table_database ok) d \<longleftrightarrow> ok (drawn d) (work d) \<and> ok (drawn d) (db_committed d)"
  "session (table_database ok) = db_session" "tables (table_database ok) = work"
  "committed (table_database ok) = db_committed" "ids_left (table_database ok) d = log_capacity - drawn d"
  by (simp_all add: table_database_def)

lemma table_tx_laws: "tx_laws (table_driver row_of rows_of upd ins) (table_database ok)"
  by (auto simp: tx_laws_def table_driver_def db_session_def db_committed_def db_rollback_def
      split: option.splits)

lemma table_selects:
  "(\<And>t a g. good a \<Longrightarrow> ins stmt (args a) g t = None \<and> row_of stmt (args a) t = answer t a) \<Longrightarrow>
   selects (table_driver row_of rows_of upd ins) (table_database ok) stmt args good answer"
  by (simp add: selects_def table_driver_def)

lemma table_queries:
  "(\<And>t a. good a \<Longrightarrow> rows_of stmt (args a) t = answer t a) \<Longrightarrow>
   queries (table_driver row_of rows_of upd ins) (table_database ok) stmt args good answer"
  by (simp add: queries_def table_driver_def)

lemma table_writes:
  "(\<And>t a. good t a \<Longrightarrow> upd stmt (args a) t = effect t a) \<Longrightarrow> (\<And>n t a. ok n t \<Longrightarrow> ok n (effect t a)) \<Longrightarrow>
   writes (table_driver row_of rows_of upd ins) (table_database ok) stmt args good effect"
  by (auto simp: writes_def table_driver_def db_session_def db_committed_def split: option.splits)

section \<open>The read-model tables\<close>

text \<open>Postgres keeps microseconds.\<close>

definition micros :: "time \<Rightarrow> time" where
  "micros t = t - t mod 1000"

definition view_rows :: "string \<Rightarrow> sql_value list \<Rightarrow> views \<Rightarrow> row option" where
  "view_rows stmt args t =
     (case args of
        [Text i] \<Rightarrow>
          if stmt = sql_get_account then account_columns t i
          else if stmt = sql_get_inventory then inventory_columns t i
          else if stmt = sql_get_checkpoint then map_option (\<lambda>g. [BigInt g]) (checkpoints t i)
          else None
      | _ \<Rightarrow> None)"

definition view_writes :: "string \<Rightarrow> sql_value list \<Rightarrow> views \<Rightarrow> views" where
  "view_writes stmt args t =
     (case args of
        [Text n, BigInt g] \<Rightarrow> checkpoint_advanced t (n, g)
      | [Text i, BigInt b, BigInt v, TimestampTz u] \<Rightarrow> account_upserted micros t (i, b, v, u)
      | [Text i, BigInt a, BigInt q, BigInt v, TimestampTz u] \<Rightarrow> inventory_upserted micros t (i, a, q, v, u)
      | _ \<Rightarrow> t)"

definition view_driver :: "(unit, views table_db) driver" where
  "view_driver = table_driver view_rows (\<lambda>_ _ _. []) view_writes (\<lambda>_ _ _ _. None)"

lemma view_driver_sql: "read_model_sql view_driver (table_database (\<lambda>_ _. True)) micros (\<lambda>_. True) (\<lambda>_. True)"
  unfolding read_model_sql_def view_driver_def
proof (intro conjI)
  show "tx_laws (table_driver view_rows (\<lambda>_ _ _. []) view_writes (\<lambda>_ _ _ _. None)) (table_database (\<lambda>_ _. True))"
    by (rule table_tx_laws)
qed (rule table_selects table_writes; auto simp: view_rows_def view_writes_def sql_get_account_def
  sql_get_inventory_def sql_get_checkpoint_def)+

definition no_views :: "views table_db" where
  "no_views = \<lparr>work = \<lparr>accounts = Map.empty, inventory = Map.empty, checkpoints = Map.empty\<rparr>, saved = None, drawn = 0\<rparr>"

lemma no_views_outside: "pg_outside (table_database (\<lambda>_ _. True)) None no_views"
  by (simp add: pg_outside_def pg_usable_def no_views_def db_session_def ctx_querier_def keyed_def db_committed_def)

section \<open>The tables of the event log\<close>

definition no_nul :: "string \<Rightarrow> bool" where
  "no_nul t \<longleftrightarrow> CHR 0x00 \<notin> set t"

definition is_json :: "payload \<Rightarrow> bool" where
  "is_json p \<longleftrightarrow> (case p of JsonText _ \<Rightarrow> True | NotJson _ \<Rightarrow> False)"

text \<open>\<open>JSONB\<close> does not keep the order of the members: shorter keys come first.\<close>

definition jsonb_form :: "payload \<Rightarrow> payload" where
  "jsonb_form p = (case p of JsonText (JObj ms) \<Rightarrow> JsonText (JObj (sort_key (\<lambda>(k, _). length k) ms)) | _ \<Rightarrow> p)"

definition log_rows :: "string \<Rightarrow> sql_value list \<Rightarrow> event_tables \<Rightarrow> row list" where
  "log_rows stmt args t =
     (case args of
        [Text ty, Text aid] \<Rightarrow> map event_columns (by_version (rows_of_stream t (ty, aid)))
      | [BigInt after] \<Rightarrow> map event_columns (by_seq (rows_after t after))
      | [BigInt after, BigInt limit] \<Rightarrow> map event_columns (take (nat (sint limit)) (by_seq (rows_after t after)))
      | [Text key] \<Rightarrow> map event_columns (by_seq (joined_rows t key))
      | _ \<Rightarrow> [])"

definition log_row :: "string \<Rightarrow> sql_value list \<Rightarrow> event_tables \<Rightarrow> row option" where
  "log_row stmt args t =
     (case args of
        [] \<Rightarrow> Some [BigInt (max_seq t)]
      | [Text key] \<Rightarrow> Some [Boolean (key \<in> idempotency_keys t)]
      | [Text ty, Text aid] \<Rightarrow> map_option (\<lambda>v. [BigInt v]) (stream_versions t (ty, aid))
      | _ \<Rightarrow> None)"

definition log_writes :: "string \<Rightarrow> sql_value list \<Rightarrow> event_tables \<Rightarrow> event_tables" where
  "log_writes stmt args t =
     (case args of
        [Text key] \<Rightarrow> t\<lparr>idempotency_keys := insert key (idempotency_keys t)\<rparr>
      | [Text ty, Text aid] \<Rightarrow> ensured t (ty, aid)
      | [BigInt v, Text ty, Text aid] \<Rightarrow>
          if stream_versions t (ty, aid) = None then t
          else t\<lparr>stream_versions := (stream_versions t)((ty, aid) \<mapsto> v)\<rparr>
      | [Text key, BigInt g] \<Rightarrow> t\<lparr>idempotency_key_events := idempotency_key_events t @ [(key, g)]\<rparr>
      | _ \<Rightarrow> t)"

definition log_insert :: "string \<Rightarrow> sql_value list \<Rightarrow> int64 \<Rightarrow> event_tables \<Rightarrow> (row \<times> event_tables) option" where
  "log_insert stmt args g t =
     (case args of
        [Text ty, Text aid, BigInt v, Text et, Jsonb p, key] \<Rightarrow>
          Some ([BigInt g, TimestampTz 0], insert_row t
            \<lparr>global_seq = g, aggregate_type = ty, aggregate_id = aid, row_version = v, event_type = et,
             row_payload = jsonb_form p, dedupe_key = (case key of Text k \<Rightarrow> Some k | _ \<Rightarrow> None),
             correlation_id = None, created_at = 0\<rparr>)
      | _ \<Rightarrow> None)"

definition log_driver :: "(unit, event_tables table_db) driver" where
  "log_driver = table_driver log_row log_rows log_writes log_insert"

text \<open>No number in the tables is above what was drawn.\<close>

definition numbered :: "nat \<Rightarrow> event_tables \<Rightarrow> bool" where
  "numbered n t \<longleftrightarrow> (\<forall>r\<in>set (event_rows t). sint (global_seq r) \<le> int n)"

abbreviation log_database :: "(unit, event_tables table_db, event_tables) database" where
  "log_database \<equiv> table_database numbered"

lemma numbered_writes [simp]:
  "numbered n (t\<lparr>idempotency_keys := ks\<rparr>) = numbered n t" "numbered n (t\<lparr>stream_versions := vs\<rparr>) = numbered n t"
  "numbered n (t\<lparr>idempotency_key_events := ls\<rparr>) = numbered n t" "numbered n (ensured t k) = numbered n t"
  by (simp_all add: numbered_def)

lemma log_insert_law: "insert_event_law log_driver log_database no_nul is_json jsonb_form"
  unfolding insert_event_law_def
proof (intro allI impI, elim conjE)
  fix d ty aid v et p key
  assume up: "up log_database d" and left: "0 < ids_left log_database d"
  let ?g = "word_of_nat (Suc (drawn d)) :: int64"
  have g: "sint ?g = int (Suc (drawn d))"
    using left by (intro sint_word_of_nat) (simp add: log_capacity_def)
  have key: "(case nullable key of Text k \<Rightarrow> Some k | _ \<Rightarrow> None) = key"
    by (simp add: nullable_def split: option.splits)
  let ?r = "\<lparr>global_seq = ?g, aggregate_type = ty, aggregate_id = aid, row_version = v, event_type = et,
       row_payload = jsonb_form p, dedupe_key = key, correlation_id = None, created_at = 0\<rparr>"
  let ?d = "d\<lparr>work := insert_row (work d) ?r, drawn := Suc (drawn d)\<rparr>"
  have run: "QueryRow log_driver (session log_database d) sql_insert_event
      [Text ty, Text aid, BigInt v, Text et, Jsonb p, nullable key] d = (Inr [BigInt ?g, TimestampTz 0], ?d)"
    by (simp add: log_driver_def table_driver_def log_insert_def key)
  have "numbered (Suc (drawn d)) (insert_row (work d) ?r)" "numbered (Suc (drawn d)) (db_committed ?d)"
    using up g by (auto simp: numbered_def insert_row_def db_committed_def split: option.splits)
  with run up g show "\<exists>g t d'. QueryRow log_driver (session log_database d) sql_insert_event
        [Text ty, Text aid, BigInt v, Text et, Jsonb p, nullable key] d = (Inr [BigInt g, TimestampTz t], d') \<and>
      up log_database d' \<and> session log_database d' = session log_database d \<and>
      ids_left log_database d' = ids_left log_database d - 1 \<and>
      (session log_database d \<noteq> Pool \<longrightarrow> committed log_database d' = committed log_database d) \<and>
      0 < sint g \<and> (\<forall>r\<in>set (event_rows (tables log_database d)). sint (global_seq r) < sint g) \<and>
      tables log_database d' = insert_row (tables log_database d)
        \<lparr>global_seq = g, aggregate_type = ty, aggregate_id = aid, row_version = v, event_type = et,
         row_payload = jsonb_form p, dedupe_key = key, correlation_id = None, created_at = t\<rparr>"
    by (intro exI [of _ ?g] exI [of _ 0] exI [of _ ?d])
       (auto simp: numbered_def db_session_def db_committed_def split: option.splits)
qed

lemma log_driver_sql: "event_store_sql log_driver log_database no_nul is_json jsonb_form"
  unfolding event_store_sql_def event_reads_sql_def event_writes_sql_def
proof (intro conjI)
  show "tx_laws log_driver log_database" unfolding log_driver_def by (rule table_tx_laws)
  show "insert_event_law log_driver log_database no_nul is_json jsonb_form" by (rule log_insert_law)
qed (unfold log_driver_def, (rule table_selects table_writes table_queries;
  auto simp: log_row_def log_rows_def log_writes_def log_insert_def ensured_def split: prod.splits)+)

definition empty_log :: "event_tables table_db" where
  "empty_log =
     \<lparr>work = \<lparr>event_rows = [], stream_versions = Map.empty, idempotency_keys = {}, idempotency_key_events = []\<rparr>,
      saved = None, drawn = 0\<rparr>"

lemma empty_log_inv: "pg_inv log_database empty_log"
  by (simp add: pg_inv_def empty_log_def db_session_def db_committed_def numbered_def tables_wf_def log_of_def
      links_of_def fun_eq_iff)

end
