(* ===== verification/Postgres.thy ===== *)
theory Postgres imports TableDb begin

text \<open>
  The program on Postgres: the projectors on the Postgres read models follow the Postgres event
  log, and a failure in the middle of an application undoes it.
\<close>

section \<open>The event store\<close>

definition open_and_deposit :: "AppendEvent list" where
  "open_and_deposit =
     [\<lparr>AppendEvent.AggregateType = AggregateTypeAccount, AggregateID = ''alice'', EventType = EventAccountOpened,
       Payload = marshal_AccountOpened \<lparr>AccountOpened.AccountID = ''alice'', InitialBalanceCents = 100\<rparr>,
       ExpectedVersion = 0\<rparr>,
      \<lparr>AppendEvent.AggregateType = AggregateTypeAccount, AggregateID = ''alice'', EventType = EventFundsDeposited,
       Payload = marshal_FundsDeposited \<lparr>FundsDeposited.AccountID = ''alice'', AmountCents = 10, Reason = []\<rparr>,
       ExpectedVersion = 1\<rparr>]"

lemma open_and_deposit_accepted:
  "pg_accepts log_database no_nul is_json ''k1'' open_and_deposit empty_log"
  by (simp add: pg_accepts_def open_and_deposit_def pg_takes_def no_nul_def is_json_def marshal_defs
      AggregateTypeAccount_def event_type_defs empty_log_def log_capacity_def)

lemma open_and_deposit_match: "versions_match (stream_version []) open_and_deposit"
  by (simp add: open_and_deposit_def append_key_def NoVersionCheck_def)

lemma empty_log_simps [simp]:
  "log_of (work empty_log) = []" "pg_seen (work empty_log) key = None"
  by (simp_all add: empty_log_def log_of_def pg_seen_def)

theorem postgres_event_store_witness:
  "\<exists>es d'. Append (postgres_Store log_driver) ''k1'' open_and_deposit empty_log = (Inr (es, False), d') \<and>
     recorded_as ''k1'' [] open_and_deposit es \<and>
     log_of (tables log_database d') = map (pg_stored jsonb_form) es \<and> pg_inv log_database d'"
proof -
  obtain r d' where run: "Append (postgres_Store log_driver) ''k1'' open_and_deposit empty_log = (r, d')"
    by fastforce
  from durable_store.append_fresh [OF postgres_event_store [OF log_driver_sql] empty_log_inv _
      open_and_deposit_accepted _ run] open_and_deposit_match run
  show ?thesis by auto
qed

section \<open>Catching up\<close>

definition pg_balances :: "('h, 'd) driver \<Rightarrow> ('h pg_ctx, 'd) Projector" where
  "pg_balances drv =
     NewProjector balancesProjectionName (postgres_ReadModels drv) (AccountApplier (postgres_ReadModels drv))"

text \<open>
  C17: The read model catches up with the log on Postgres too.  On databases that execute the
  statements of both stores as they mean to, and from rows that hold what the events up to the
  checkpoint amount to, \<open>CatchUp\<close> of the balances projector returns without error, whatever the
  batch size, and then the row of every account is the fold of its stream in the log, with the time
  stamp as the database rounds it.
\<close>

theorem postgres_catch_up:
  assumes "read_model_sql drv db stamp ok_id ok_time" and "event_store_sql drv' db' text_ok json_ok jsonb"
    and "pg_inv db' e" and "accounts_fold (log_of (tables db' e))" and "storable ok_id ok_time (log_of (tables db' e))"
    and "ok_id balancesProjectionName" and "pg_outside db c d"
    and "account_rows_at stamp (filter (\<lambda>x. GlobalSeq x \<le>s go_get (checkpoints (tables db d)) balancesProjectionName)
      (log_of (tables db' e))) (tables db d)"
  shows "\<exists>n ms d'. CatchUp (pg_balances drv) c (postgres_Store drv') e batchSize d = Some ((None, n), ms, d') \<and>
    pg_outside db c d' \<and>
    (\<forall>i. accounts (tables db d') i = map_option (stamp_account stamp)
       (account_row i (stream_events (log_of (tables db' e)) (AggregateTypeAccount, i))))"
proof -
  have "follower (postgres_ReadModels drv) (tables db) (pg_usable db) (pg_outside db) stamp ok_id ok_time
      (pg_balances drv) (account_rows_at stamp) (\<lambda>L. accounts_fold L \<and> storable ok_id ok_time L) inventory
      (postgres_Store drv') (\<lambda>d. log_of (tables db' d)) (pg_inv db') text_ok"
    using read_model.account_projection [OF postgres_read_model [OF assms(1)] assms(6)] pg_event_log [OF assms(2)]
    by (simp add: follower_def pg_balances_def)
  from follower.CatchUp_spec [OF this assms(3) _ assms(7), of batchSize] assms(4,5,8) show ?thesis
    by (auto simp: pg_balances_def NewProjector_def account_rows_at_def)
qed

text \<open>The database after the two events, on which the projector catches up.\<close>

definition opened_db :: "event_tables table_db" where
  "opened_db = snd (pg_Append log_driver ''k1'' open_and_deposit empty_log)"

lemma opened_inv: "pg_inv log_database opened_db"
  using pg_append_fresh [OF log_driver_sql empty_log_inv _ open_and_deposit_accepted] open_and_deposit_match
  by (auto simp: opened_db_def)

lemma opened_log:
  "log_of (work opened_db) = map (pg_stored jsonb_form)
     [\<lparr>GlobalSeq = 1, AggregateType = AggregateTypeAccount, AggregateID = ''alice'', Version = 1,
       EventType = EventAccountOpened,
       Payload = marshal_AccountOpened \<lparr>AccountOpened.AccountID = ''alice'', InitialBalanceCents = 100\<rparr>,
       Metadata = \<lparr>DedupeKey = ''k1'', CorrelationID = []\<rparr>, CreatedAt = 0\<rparr>,
      \<lparr>GlobalSeq = 2, AggregateType = AggregateTypeAccount, AggregateID = ''alice'', Version = 2,
       EventType = EventFundsDeposited,
       Payload = marshal_FundsDeposited \<lparr>FundsDeposited.AccountID = ''alice'', AmountCents = 10, Reason = []\<rparr>,
       Metadata = \<lparr>DedupeKey = ''k1'', CorrelationID = []\<rparr>, CreatedAt = 0\<rparr>]"
  by code_simp

lemma opened_alice:
  "account_row ''alice'' (stream_events (log_of (work opened_db)) (AggregateTypeAccount, ''alice''))
   = Some \<lparr>AccountView.AccountID = ''alice'', BalanceCents = 110, Version = 2, UpdatedAt = 0\<rparr>"
  unfolding opened_log by code_simp

lemma opened_folds: "accounts_fold (log_of (work opened_db))"
  unfolding accounts_fold_def
proof
  fix i
  show "\<exists>st. account_at (log_of (work opened_db)) i = Inr st"
  proof (cases "i = ''alice''")
    case True
    with opened_alice show ?thesis
      by (auto simp: account_row_def split: if_splits sum.splits)
  next
    case False
    then have "stream_events (log_of (work opened_db)) (AggregateTypeAccount, i) = []"
      by (simp add: opened_log pg_stored_def event_key_def)
    then show ?thesis by (simp add: FoldAccount_def)
  qed
qed

theorem postgres_catch_up_witness:
  "\<exists>n ms d'. CatchUp (pg_balances view_driver) None (postgres_Store log_driver) opened_db catchUpBatchSize no_views
     = Some ((None, n), ms, d') \<and>
   accounts (work d') ''alice'' = Some \<lparr>AccountView.AccountID = ''alice'', BalanceCents = 110, Version = 2, UpdatedAt = 0\<rparr>"
proof -
  have "filter (\<lambda>x. GlobalSeq x \<le>s 0) (log_of (work opened_db)) = []"
    unfolding opened_log by code_simp
  then have "account_rows_at micros (filter (\<lambda>x. GlobalSeq x \<le>s
      go_get (checkpoints (tables (table_database (\<lambda>_ _. True)) no_views)) balancesProjectionName)
      (log_of (tables log_database opened_db))) (tables (table_database (\<lambda>_ _. True)) no_views)"
    by (simp add: no_views_def account_rows_at_def account_row_def)
  with postgres_catch_up [OF view_driver_sql log_driver_sql opened_inv _ _ _ no_views_outside, of catchUpBatchSize]
    opened_folds opened_alice show ?thesis
    by (fastforce simp: storable_def stamp_account_def micros_def)
qed

section \<open>A failure in the middle\<close>

text \<open>
  Whatever statements fail: inside a transaction nothing is committed, a failed commit commits
  nothing, and a rollback restores what was committed.
\<close>

definition tx_isolated :: "('h, 'd) driver \<Rightarrow> ('h, 'd, 't) database \<Rightarrow> bool" where
  "tx_isolated drv db \<longleftrightarrow>
     (\<forall>d. session db d = Pool \<longrightarrow>
        committed db (snd (Begin drv d)) = committed db d \<and>
        (\<forall>h. fst (Begin drv d) = Inr h \<longrightarrow> session db (snd (Begin drv d)) = Tx h)) \<and>
     (\<forall>d h stmt args. session db d = Tx h \<longrightarrow>
        session db (snd (Exec drv (Tx h) stmt args d)) = Tx h \<and>
        committed db (snd (Exec drv (Tx h) stmt args d)) = committed db d \<and>
        session db (snd (QueryRow drv (Tx h) stmt args d)) = Tx h \<and>
        committed db (snd (QueryRow drv (Tx h) stmt args d)) = committed db d) \<and>
     (\<forall>d h err. session db d = Tx h \<longrightarrow> fst (Commit drv h d) = Inl err \<longrightarrow>
        committed db (snd (Commit drv h d)) = committed db d) \<and>
     (\<forall>d h. committed db (snd (Rollback drv h d)) = committed db d)"

text \<open>An action inside the transaction \<open>h\<close> that leaves what is committed alone.\<close>

definition stays_in :: "('h, 'd, 't) database \<Rightarrow> 'h \<Rightarrow> ('d, 'a) act \<Rightarrow> bool" where
  "stays_in db h m \<longleftrightarrow> (\<forall>d r ms d'. session db d = Tx h \<longrightarrow> m d = Some (r, ms, d') \<longrightarrow>
     session db d' = Tx h \<and> committed db d' = committed db d)"

lemma stays_in_simple [intro]: "stays_in db h (ret x)" "stays_in db h (fail err)" "stays_in db h (report m)"
  by (simp_all add: stays_in_def ret_def fail_def report_def)

lemma stays_in_and_then [intro]:
  "stays_in db h m \<Longrightarrow> (\<And>x. stays_in db h (f x)) \<Longrightarrow> stays_in db h (and_then m f)"
proof (unfold stays_in_def, intro allI impI)
  fix d r ms d'
  assume m: "\<forall>d r ms d'. session db d = Tx h \<longrightarrow> m d = Some (r, ms, d') \<longrightarrow>
      session db d' = Tx h \<and> committed db d' = committed db d"
    and f: "\<And>x. \<forall>d r ms d'. session db d = Tx h \<longrightarrow> f x d = Some (r, ms, d') \<longrightarrow>
      session db d' = Tx h \<and> committed db d' = committed db d"
    and d: "session db d = Tx h" and run: "and_then m f d = Some (r, ms, d')"
  from run obtain q ms1 d1 where m1: "m d = Some (q, ms1, d1)"
    by (auto simp: and_then_def split: option.splits)
  with m d have d1: "session db d1 = Tx h" "committed db d1 = committed db d" by blast+
  show "session db d' = Tx h \<and> committed db d' = committed db d"
  proof (cases q)
    case (Inl e)
    with run m1 d1 show ?thesis by (simp add: and_then_def)
  next
    case (Inr x)
    with run m1 obtain r' ms' where "f x d1 = Some (r', ms', d')"
      by (auto simp: and_then_def split: option.splits)
    with f d1 show ?thesis by metis
  qed
qed

lemma stays_in_statements:
  assumes "tx_isolated drv db" and "ctx_querier c = Tx h"
  shows "stays_in db h (pg_GetAccount drv c i)" "stays_in db h (pg_UpsertAccount drv c av)"
    "stays_in db h (pg_GetInventory drv c i)" "stays_in db h (pg_UpsertInventory drv c iv)"
    "stays_in db h (pg_GetCheckpoint drv c n)" "stays_in db h (pg_SetCheckpoint drv c n g)"
proof -
  have e: "session db (snd (Exec drv (Tx h) stmt args d)) = Tx h"
      "committed db (snd (Exec drv (Tx h) stmt args d)) = committed db d"
      "session db (snd (QueryRow drv (Tx h) stmt args d)) = Tx h"
      "committed db (snd (QueryRow drv (Tx h) stmt args d)) = committed db d" if "session db d = Tx h" for d stmt args
    using assms(1) that unfolding tx_isolated_def by blast+
  have read: "stays_in db h (reading (\<lambda>d. case scanning sc (QueryRow drv (Tx h) stmt args) d of
      (Inl err, d') \<Rightarrow> (f err, d') | (Inr v, d') \<Rightarrow> (g v, d')))" for sc stmt args f g
    unfolding stays_in_def reading_def scanning_def using e(3,4) [of _ stmt args]
    by (fastforce split: prod.splits sum.splits)
  have exec: "stays_in db h (reading (wrapping msg (Exec drv (Tx h) stmt args)))" for msg stmt args
    unfolding stays_in_def reading_def wrapping_def using e(1,2) [of _ stmt args]
    by (fastforce split: prod.splits sum.splits)
  show "stays_in db h (pg_GetAccount drv c i)" "stays_in db h (pg_GetInventory drv c i)"
    "stays_in db h (pg_GetCheckpoint drv c n)"
    unfolding pg_GetAccount_def pg_GetInventory_def pg_GetCheckpoint_def assms(2) by (rule read)+
  show "stays_in db h (pg_UpsertAccount drv c av)" "stays_in db h (pg_UpsertInventory drv c iv)"
    "stays_in db h (pg_SetCheckpoint drv c n g)"
    unfolding pg_UpsertAccount_def pg_UpsertInventory_def pg_SetCheckpoint_def assms(2) by (rule exec)+
qed

lemma stays_in_if [intro]: "(b \<Longrightarrow> stays_in db h m) \<Longrightarrow> (\<not> b \<Longrightarrow> stays_in db h m') \<Longrightarrow> stays_in db h (if b then m else m')"
  by simp

lemma stays_in_Apply:
  assumes "tx_isolated drv db" and "ctx_querier c = Tx h"
  shows "stays_in db h (AccountApplier_Apply (postgres_ReadModels drv) c e)"
    and "stays_in db h (InventoryApplier_Apply (postgres_ReadModels drv) c e)"
  unfolding AccountApplier_Apply_def InventoryApplier_Apply_def
  by (rule stays_in_and_then; auto simp: stays_in_statements [OF assms] split: sum.split)+

lemma stays_in_apply_tx:
  assumes "tx_isolated drv db" and "ctx_querier c = Tx h" and "ReadModels p = postgres_ReadModels drv"
    and "stays_in db h (Apply (Applier p) c e)"
  shows "stays_in db h (apply_tx p e c)"
  unfolding apply_tx_def assms(3) postgres_ReadModels_simps
  by (intro stays_in_and_then stays_in_if stays_in_simple stays_in_statements [OF assms(1,2)] assms(4))

lemma pg_WithTx_failed:
  assumes "tx_isolated drv db" and "session db d = Pool" and "\<And>h. stays_in db h (fn (withTx c (Tx h)))"
    and "pg_WithTx drv c fn d = Some (Inl err, ms, d')"
  shows "committed db d' = committed db d"
proof (cases "Begin drv d")
  case (Pair r d1)
  have start: "committed db d1 = committed db d" "\<And>h. r = Inr h \<Longrightarrow> session db d1 = Tx h"
    using assms(1,2) Pair unfolding tx_isolated_def by (metis fst_conv snd_conv)+
  show ?thesis
  proof (cases r)
    case (Inl e)
    with Pair assms(4) start show ?thesis by (simp add: pg_WithTx_def)
  next
    case (Inr h)
    let ?m = "and_then (fn (withTx c (Tx h))) (\<lambda>x.
        and_then (reading (wrapping ''projections/postgres: commit'' (Commit drv h))) (\<lambda>_. ret x))"
    from assms(4) Pair Inr obtain d2 where
      d2: "?m d1 = Some (Inl err, ms, d2)" "d' = snd (Rollback drv h d2)"
      by (auto simp: pg_WithTx_def)
    have "committed db d2 = committed db d1"
    proof (cases "fn (withTx c (Tx h)) d1")
      case None
      with d2(1) show ?thesis by (simp add: and_then_def)
    next
      case (Some x)
      obtain q ms1 d3 where x: "x = (q, ms1, d3)" by (cases x) auto
      have d3: "session db d3 = Tx h" "committed db d3 = committed db d1"
        using assms(3) [of h] start(2) [OF Inr] Some unfolding stays_in_def x by blast+
      show ?thesis
      proof (cases q)
        case (Inl e)
        with d2(1) Some x d3 show ?thesis by (simp add: and_then_def)
      next
        case (Inr v)
        obtain k d4 where k: "Commit drv h d3 = (k, d4)" by fastforce
        with Inr d2(1) Some x obtain e where "k = Inl e" "d4 = d2"
          by (cases k) (auto simp: and_then_def reading_def wrapping_def ret_def)
        with k d3 assms(1) show ?thesis unfolding tx_isolated_def by (metis fst_conv snd_conv)
      qed
    qed
    with assms(1) d2(2) start(1) show ?thesis unfolding tx_isolated_def by metis
  qed
qed

text \<open>
  C18: A failed application of an event leaves no trace on Postgres.  Whichever statement fails, the
  first or the last, the commit included, and whatever else the driver does: when \<open>ApplyEvent\<close> of
  either projector answers an error, the committed tables (views and checkpoint) are what they were, so a
  retry starts from a clean state.
\<close>

theorem postgres_failed_apply:
  assumes "tx_isolated drv db" and "session db d = Pool" and "ReadModels p = postgres_ReadModels drv"
    and "Applier p = AccountApplier (postgres_ReadModels drv) \<or> Applier p = InventoryApplier (postgres_ReadModels drv)"
    and "ApplyEvent p c e d = Some (Inl err, ms, d')"
  shows "committed db d' = committed db d"
proof (rule pg_WithTx_failed [OF assms(1,2)])
  show "stays_in db h (apply_tx p e (withTx c (Tx h)))" for h
    using stays_in_Apply [OF assms(1), of "withTx c (Tx h)" h e] assms(4)
    by (intro stays_in_apply_tx [OF assms(1) _ assms(3)])
       (auto simp: withTx_def ctx_querier_def AccountApplier_def InventoryApplier_def)
  show "pg_WithTx drv c (apply_tx p e) d = Some (Inl err, ms, d')"
    using assms(5) by (simp add: ApplyEvent_def assms(3))
qed

text \<open>A driver whose connection is lost just before the checkpoint is advanced.\<close>

definition broken_driver :: "(unit, views table_db) driver" where
  "broken_driver = view_driver\<lparr>Exec := (\<lambda>q stmt args d.
     if stmt = sql_set_checkpoint then (Inl (OtherError ''conn closed''), d) else Exec view_driver q stmt args d)\<rparr>"

lemma broken_isolated: "tx_isolated broken_driver (table_database (\<lambda>_ _. True))"
  by (auto simp: tx_isolated_def broken_driver_def view_driver_def table_driver_def db_session_def
      db_committed_def db_rollback_def split: option.splits)

definition opened_event :: Event where
  "opened_event =
     \<lparr>GlobalSeq = 1, AggregateType = AggregateTypeAccount, AggregateID = ''alice'', Version = 1,
      EventType = EventAccountOpened,
      Payload = marshal_AccountOpened \<lparr>AccountOpened.AccountID = ''alice'', InitialBalanceCents = 100\<rparr>,
      Metadata = \<lparr>DedupeKey = ''k1'', CorrelationID = []\<rparr>, CreatedAt = 0\<rparr>"

theorem postgres_failed_apply_witness:
  "\<exists>d'. ApplyEvent (pg_balances broken_driver) None opened_event no_views
     = Some (Inl (Errorf ''projections/postgres: set checkpoint'' (OtherError ''conn closed'')),
         [EventApplied balancesProjectionName EventAccountOpened], d') \<and>
   db_committed d' = db_committed no_views"
proof -
  have "map_option (\<lambda>(r, ms, _). (r, ms)) (ApplyEvent (pg_balances broken_driver) None opened_event no_views)
      = Some (Inl (Errorf ''projections/postgres: set checkpoint'' (OtherError ''conn closed'')),
         [EventApplied balancesProjectionName EventAccountOpened])"
    by code_simp
  then obtain d' where d': "ApplyEvent (pg_balances broken_driver) None opened_event no_views
     = Some (Inl (Errorf ''projections/postgres: set checkpoint'' (OtherError ''conn closed'')),
         [EventApplied balancesProjectionName EventAccountOpened], d')" by auto
  from postgres_failed_apply [OF broken_isolated _ _ _ this] have "db_committed d' = db_committed no_views"
    by (simp add: pg_balances_def NewProjector_def no_views_def db_session_def)
  with d' show ?thesis by blast
qed

end
