(* ===== verification/NatsBus.thy ===== *)
theory NatsBus imports Delivery begin

text \<open>
  \<open>internal/bus/natsbus/bus.go\<close>: events on NATS JetStream.  The wire format and the two
  directions are translated; the JetStream client, which is not part of the repository, is a
  parameter: \<open>PublishMsg\<close>, and the messages it later hands to the callback of \<open>Subscribe\<close>.
\<close>

section \<open>The wire format\<close>

record wireEvent =
  GlobalSeq :: int64
  AggregateType :: string
  AggregateID :: string
  Version :: int64
  EventType :: string
  Payload :: payload
  DedupeKey :: string
  CorrelationID :: string
  CreatedAt :: time

definition toWire :: "Event \<Rightarrow> wireEvent" where
  "toWire e =
     \<lparr>wireEvent.GlobalSeq = Event.GlobalSeq e, AggregateType = Event.AggregateType e,
      AggregateID = Event.AggregateID e, Version = Event.Version e, EventType = Event.EventType e,
      Payload = Event.Payload e, DedupeKey = Metadata.DedupeKey (Event.Metadata e),
      CorrelationID = Metadata.CorrelationID (Event.Metadata e), CreatedAt = Event.CreatedAt e\<rparr>"

definition toEvent :: "wireEvent \<Rightarrow> Event" where
  "toEvent w =
     \<lparr>Event.GlobalSeq = wireEvent.GlobalSeq w, AggregateType = wireEvent.AggregateType w,
      AggregateID = wireEvent.AggregateID w, Version = wireEvent.Version w, EventType = wireEvent.EventType w,
      Payload = wireEvent.Payload w,
      Metadata = \<lparr>Metadata.DedupeKey = wireEvent.DedupeKey w, CorrelationID = wireEvent.CorrelationID w\<rparr>,
      CreatedAt = wireEvent.CreatedAt w\<rparr>"

lemma toEvent_toWire [simp]: "toEvent (toWire e) = e"
  by (cases e) (simp add: toEvent_def toWire_def)

text \<open>
  How \<open>encoding/json\<close> writes and reads a \<open>[]byte\<close> (base64) and a \<open>time.Time\<close> (RFC 3339) is a
  parameter, since payloads and times have no bytes in the model; \<open>codec_ok\<close> is the round trip
  both have.  Only the encoding of a time can fail, for a year beyond 9999.
\<close>

record codec =
  json_of_bytes :: "payload \<Rightarrow> json"
  bytes_of_json :: "json \<Rightarrow> json_error + payload"
  json_of_time :: "time \<Rightarrow> error + json"
  time_of_json :: "json \<Rightarrow> json_error + time"

definition codec_ok :: "codec \<Rightarrow> bool" where
  "codec_ok c \<longleftrightarrow>
     (\<forall>p. json_of_bytes c p \<noteq> JNull \<and> bytes_of_json c (json_of_bytes c p) = Inr p) \<and>
     (\<forall>t j. json_of_time c t = Inr j \<longrightarrow> j \<noteq> JNull \<and> time_of_json c j = Inr t)"

definition via_field :: "(json \<Rightarrow> json_error + 'v) \<Rightarrow> ('v \<Rightarrow> 'a \<Rightarrow> 'a) \<Rightarrow> json \<Rightarrow> 'a \<Rightarrow> json_error + 'a" where
  "via_field dec set_field v x =
     (if v = JNull then Inr x else case dec v of Inl e \<Rightarrow> Inl e | Inr y \<Rightarrow> Inr (set_field y x))"

definition marshal_wireEvent :: "codec \<Rightarrow> wireEvent \<Rightarrow> error + payload" where
  "marshal_wireEvent c w =
     (case json_of_time c (wireEvent.CreatedAt w) of
        Inl err \<Rightarrow> Inl err
      | Inr t \<Rightarrow> Inr (JsonText (JObj
          (int64_member ''global_seq'' (wireEvent.GlobalSeq w) @
           string_member ''aggregate_type'' (wireEvent.AggregateType w) @
           string_member ''aggregate_id'' (wireEvent.AggregateID w) @
           int64_member ''version'' (wireEvent.Version w) @
           string_member ''event_type'' (wireEvent.EventType w) @
           [(''payload'', json_of_bytes c (wireEvent.Payload w))] @
           string_member_omitempty ''dedupe_key'' (wireEvent.DedupeKey w) @
           string_member_omitempty ''correlation_id'' (wireEvent.CorrelationID w) @
           [(''created_at'', t)]))))"

definition zero_wireEvent :: wireEvent where
  "zero_wireEvent =
     \<lparr>wireEvent.GlobalSeq = 0, AggregateType = [], AggregateID = [], Version = 0, EventType = [],
      Payload = NotJson [], DedupeKey = [], CorrelationID = [], CreatedAt = zero_time\<rparr>"

definition unmarshal_wireEvent :: "codec \<Rightarrow> payload \<Rightarrow> error + wireEvent" where
  "unmarshal_wireEvent c data = Unmarshal
     [(''global_seq'', int64_field (\<lambda>i w. w\<lparr>wireEvent.GlobalSeq := i\<rparr>)),
      (''aggregate_type'', string_field (\<lambda>s w. w\<lparr>wireEvent.AggregateType := s\<rparr>)),
      (''aggregate_id'', string_field (\<lambda>s w. w\<lparr>wireEvent.AggregateID := s\<rparr>)),
      (''version'', int64_field (\<lambda>i w. w\<lparr>wireEvent.Version := i\<rparr>)),
      (''event_type'', string_field (\<lambda>s w. w\<lparr>wireEvent.EventType := s\<rparr>)),
      (''payload'', via_field (bytes_of_json c) (\<lambda>p w. w\<lparr>wireEvent.Payload := p\<rparr>)),
      (''dedupe_key'', string_field (\<lambda>s w. w\<lparr>wireEvent.DedupeKey := s\<rparr>)),
      (''correlation_id'', string_field (\<lambda>s w. w\<lparr>wireEvent.CorrelationID := s\<rparr>)),
      (''created_at'', via_field (time_of_json c) (\<lambda>t w. w\<lparr>wireEvent.CreatedAt := t\<rparr>))]
     data zero_wireEvent"

text \<open>Decoding what was encoded.\<close>

lemma decode_omitempty:
  "find_field fs key = Some (string_field set_field) \<Longrightarrow> set_field [] x = x \<Longrightarrow>
   decode_members fs (string_member_omitempty key v @ ms) err x = decode_members fs ms err (set_field v x)"
  by (auto simp: string_member_omitempty_def string_field_def)

lemma unmarshal_marshal_wireEvent:
  assumes "codec_ok c" and "marshal_wireEvent c w = Inr data"
  shows "unmarshal_wireEvent c data = Inr w"
proof -
  from assms(2) obtain t where t: "json_of_time c (wireEvent.CreatedAt w) = Inr t"
    by (auto simp: marshal_wireEvent_def split: sum.splits)
  have ok: "t \<noteq> JNull" "time_of_json c t = Inr (wireEvent.CreatedAt w)" "json_of_bytes c (wireEvent.Payload w) \<noteq> JNull"
    "bytes_of_json c (json_of_bytes c (wireEvent.Payload w)) = Inr (wireEvent.Payload w)"
    using assms(1) t by (auto simp: codec_ok_def)
  from assms(2) t ok show ?thesis
    by (cases w) (auto simp: marshal_wireEvent_def unmarshal_wireEvent_def Unmarshal_def decode_member
      decode_omitempty via_field_def zero_wireEvent_def ascii_lower_def)
qed

section \<open>Options\<close>

record Options =
  StreamName :: string
  DurableConsumerName :: string

definition withDefaults :: "Options \<Rightarrow> Options" where
  "withDefaults o0 =
     (let o1 = (if StreamName o0 = [] then o0\<lparr>StreamName := ''streamledger_events''\<rparr> else o0)
      in if DurableConsumerName o1 = [] then o1\<lparr>DurableConsumerName := ''streamledger_projections''\<rparr> else o1)"

section \<open>Publish\<close>

text \<open>\<open>fmt.Sprintf("%d", n)\<close>.\<close>

fun digits :: "nat \<Rightarrow> string" where
  "digits n = (if n < 10 then [char_of (48 + n)] else digits (n div 10) @ [char_of (48 + n mod 10)])"

declare digits.simps [simp del]

definition sprintf_d :: "int64 \<Rightarrow> string" where
  "sprintf_d i = (if i <s 0 then CHR ''-'' # digits (nat (- sint i)) else digits (nat (sint i)))"

record msg =
  Subject :: string
  MsgId :: string         \<comment> \<open>the header \<open>Nats-Msg-Id\<close>\<close>
  Data :: payload

type_synonym 'j jetstream = "msg \<Rightarrow> 'j \<Rightarrow> (error + unit) \<times> 'j"

definition nats_message :: "codec \<Rightarrow> Options \<Rightarrow> Event \<Rightarrow> error + msg" where
  "nats_message c opts e =
     (case marshal_wireEvent c (toWire e) of
        Inl err \<Rightarrow> Inl (Errorf ''natsbus: marshal event'' err)
      | Inr data \<Rightarrow> Inr \<lparr>Subject = StreamName opts @ ''.'' @ Event.AggregateType e,
          MsgId = sprintf_d (Event.GlobalSeq e), Data = data\<rparr>)"

fun nats_Publish :: "codec \<Rightarrow> Options \<Rightarrow> 'j jetstream \<Rightarrow> Event list \<Rightarrow> 'j \<Rightarrow> (error + unit) \<times> 'j" where
  "nats_Publish c opts PublishMsg [] j = (Inr (), j)"
| "nats_Publish c opts PublishMsg (e # es) j =
     (case nats_message c opts e of
        Inl err \<Rightarrow> (Inl err, j)
      | Inr m \<Rightarrow>
          (case PublishMsg m j of
             (Inl err, j') \<Rightarrow> (Inl (Errorf ''natsbus: publish'' err), j')
           | (Inr _, j') \<Rightarrow> nats_Publish c opts PublishMsg es j'))"

section \<open>Subscribe\<close>

datatype ack = Ack | Nak

text \<open>How the answer of a handler settles a message.\<close>

definition settle :: "('r, unit) act \<Rightarrow> 'r \<Rightarrow> (ack \<times> metric list \<times> 'r) option" where
  "settle m s =
     (case m s of
        None \<Rightarrow> None
      | Some (Inl _, ms, s') \<Rightarrow> Some (Nak, ms, s')
      | Some (Inr _, ms, s') \<Rightarrow> Some (Ack, ms, s'))"

text \<open>
  The callback given to \<open>Consume\<close>: a message that cannot be decoded is acknowledged and dropped; one
  the handler refuses is sent back for redelivery.
\<close>

definition consume_callback :: "codec \<Rightarrow> 'r handler_fn \<Rightarrow> msg \<Rightarrow> 'r \<Rightarrow> (ack \<times> metric list \<times> 'r) option" where
  "consume_callback c hnd m s =
     (case unmarshal_wireEvent c (Data m) of
        Inl _ \<Rightarrow> Some (Ack, [], s)
      | Inr w \<Rightarrow> settle (hnd (toEvent w)) s)"

type_synonym 'r callback = "msg \<Rightarrow> 'r \<Rightarrow> (ack \<times> metric list \<times> 'r) option"

text \<open>
  The fields of \<open>jetstream.ConsumerConfig\<close> that are set, and the two calls of \<open>Subscribe\<close>; what
  \<open>Consume\<close> returns stops the consumption.
\<close>

record consumer_config =
  Durable :: string
  AckExplicit :: bool
  DeliverAll :: bool
  MaxDeliver :: int64

record ('k, 'r, 'u, 'j) consumers =
  CreateOrUpdateConsumer :: "consumer_config \<Rightarrow> 'j \<Rightarrow> (error + 'k) \<times> 'j"
  Consume :: "'k \<Rightarrow> 'r callback \<Rightarrow> 'j \<Rightarrow> (error + 'u) \<times> 'j"

definition nats_Subscribe ::
  "codec \<Rightarrow> Options \<Rightarrow> ('k, 'r, 'u, 'j) consumers \<Rightarrow> 'r handler_fn \<Rightarrow> 'j \<Rightarrow> (error + 'u) \<times> 'j" where
  "nats_Subscribe c opts js hnd j =
     (case CreateOrUpdateConsumer js
             \<lparr>Durable = DurableConsumerName opts, AckExplicit = True, DeliverAll = True, MaxDeliver = -1\<rparr> j of
        (Inl err, j1) \<Rightarrow> (Inl (Errorf ''natsbus: create consumer'' err), j1)
      | (Inr consumer, j1) \<Rightarrow>
          (case Consume js consumer (consume_callback c hnd) j1 of
             (Inl err, j2) \<Rightarrow> (Inl (Errorf ''natsbus: consume'' err), j2)
           | (Inr stop, j2) \<Rightarrow> (Inr stop, j2)))"

text \<open>
  The server hands each message of a durable consumer to one of the callbacks that consume from it:
  \<open>deliveries\<close> says to which.
\<close>

fun nats_deliver ::
  "'r callback list \<Rightarrow> (nat \<times> msg) list \<Rightarrow> 'r \<Rightarrow> (ack list \<times> metric list \<times> 'r) option" where
  "nats_deliver callbacks [] s = Some ([], [], s)"
| "nats_deliver callbacks ((k, m) # deliveries) s =
     (case (callbacks ! k) m s of
        None \<Rightarrow> None
      | Some (a, ms, s1) \<Rightarrow>
          (case nats_deliver callbacks deliveries s1 of
             None \<Rightarrow> None
           | Some (acks, ms', s2) \<Rightarrow> Some (a # acks, ms @ ms', s2)))"

section \<open>What goes in comes out\<close>

text \<open>Message identifiers are distinct, as the decimal form of a number determines it.\<close>

fun parse :: "nat \<Rightarrow> string \<Rightarrow> nat" where
  "parse acc [] = acc"
| "parse acc (c # cs) = parse (10 * acc + (of_char c - 48)) cs"

lemma parse_append: "parse acc (cs @ ds) = parse (parse acc cs) ds"
  by (induction cs arbitrary: acc) simp_all

lemma parse_digits: "parse 0 (digits n) = n"
proof (induction n rule: digits.induct)
  case (1 n)
  show ?case
  proof (cases "n < 10")
    case True
    then show ?thesis by (subst digits.simps) simp
  next
    case False
    with 1 show ?thesis by (subst digits.simps) (simp add: parse_append)
  qed
qed

lemma sprintf_d_inj: "0 < sint i \<Longrightarrow> 0 < sint j \<Longrightarrow> sprintf_d i = sprintf_d j \<Longrightarrow> i = j"
proof -
  assume i: "0 < sint i" and j: "0 < sint j" and eq: "sprintf_d i = sprintf_d j"
  from i j eq have "digits (nat (sint i)) = digits (nat (sint j))" by (simp add: sprintf_d_def)
  then have "nat (sint i) = nat (sint j)" using parse_digits by metis
  with i j have "sint i = sint j" by simp
  then show "i = j" by (rule signed_word_eqI)
qed

lemma consume_message:
  assumes "codec_ok c" and "nats_message c opts e = Inr m"
  shows "Subject m = StreamName opts @ ''.'' @ Event.AggregateType e" and "MsgId m = sprintf_d (Event.GlobalSeq e)"
    and "consume_callback c hnd m s = settle (hnd e) s"
proof -
  from assms(2) obtain data where data: "marshal_wireEvent c (toWire e) = Inr data"
    and m: "m = \<lparr>Subject = StreamName opts @ ''.'' @ Event.AggregateType e,
          MsgId = sprintf_d (Event.GlobalSeq e), Data = data\<rparr>"
    by (auto simp: nats_message_def split: sum.splits)
  show "Subject m = StreamName opts @ ''.'' @ Event.AggregateType e" "MsgId m = sprintf_d (Event.GlobalSeq e)"
    by (simp_all add: m)
  from unmarshal_marshal_wireEvent [OF assms(1) data] show "consume_callback c hnd m s = settle (hnd e) s"
    by (simp add: consume_callback_def m)
qed

text \<open>
  JetStream: a message is stored at the end of the stream unless one with its identifier was
  published within the duplicate window.
\<close>

definition jetstream_stores :: "'j jetstream \<Rightarrow> ('j \<Rightarrow> msg list) \<Rightarrow> ('j \<Rightarrow> string set) \<Rightarrow> bool" where
  "jetstream_stores PublishMsg stream recent \<longleftrightarrow>
     (\<forall>m j. \<exists>j'. PublishMsg m j = (Inr (), j') \<and> recent j' \<subseteq> insert (MsgId m) (recent j) \<and>
        stream j' = (if MsgId m \<in> recent j then stream j else stream j @ [m]))"

text \<open>
  C21: What is published on NATS is what is consumed.  On a JetStream that stores what it has not seen
  within its duplicate window, publishing events of a log (positive, increasing sequence numbers, not
  published before) succeeds and appends one message per event, in order, under the subject of the
  event's aggregate type; and the subscriber's callback on each message does what its handler does
  on the very event, acknowledging it if the handler succeeds and sending it back if not.
\<close>

theorem nats_roundtrip:
  assumes "codec_ok c" and "jetstream_stores PublishMsg stream recent"
    and "sorted_wrt (<) (map (\<lambda>e. sint (Event.GlobalSeq e)) es)" and "\<forall>e\<in>set es. 0 < sint (Event.GlobalSeq e)"
    and "\<forall>e\<in>set es. sprintf_d (Event.GlobalSeq e) \<notin> recent j"
    and "\<forall>e\<in>set es. \<exists>t. json_of_time c (Event.CreatedAt e) = Inr t"
  shows "\<exists>ms j'. nats_Publish c opts PublishMsg es j = (Inr (), j') \<and> stream j' = stream j @ ms \<and>
    list_all2 (\<lambda>e m. Subject m = StreamName opts @ ''.'' @ Event.AggregateType e \<and>
      (\<forall>s. consume_callback c hnd m s = settle (hnd e) s)) es ms"
  using assms(3-6)
proof (induction es arbitrary: j)
  case Nil
  then show ?case by simp
next
  case (Cons e es)
  from Cons.prems(4) obtain t where "json_of_time c (Event.CreatedAt e) = Inr t" by auto
  then obtain m where m: "nats_message c opts e = Inr m"
    by (simp add: nats_message_def marshal_wireEvent_def toWire_def)
  note cm = consume_message(1,2) [OF assms(1) m]
  have callback: "\<forall>s. consume_callback c hnd m s = settle (hnd e) s"
    by (intro allI consume_message(3) [OF assms(1) m])
  from assms(2) obtain j1 where j1: "PublishMsg m j = (Inr (), j1)" "recent j1 \<subseteq> insert (MsgId m) (recent j)"
    "stream j1 = (if MsgId m \<in> recent j then stream j else stream j @ [m])"
    unfolding jetstream_stores_def by metis
  have "sprintf_d (Event.GlobalSeq x) \<notin> recent j1" if "x \<in> set es" for x
  proof
    assume "sprintf_d (Event.GlobalSeq x) \<in> recent j1"
    with j1(2) cm(2) Cons.prems(3) that have "sprintf_d (Event.GlobalSeq x) = sprintf_d (Event.GlobalSeq e)" by auto
    then have "Event.GlobalSeq x = Event.GlobalSeq e"
      using Cons.prems(2) that by (intro sprintf_d_inj) auto
    with Cons.prems(1) that show False by auto
  qed
  with Cons.prems obtain ms j' where "nats_Publish c opts PublishMsg es j1 = (Inr (), j')" "stream j' = stream j1 @ ms"
      "list_all2 (\<lambda>e m. Subject m = StreamName opts @ ''.'' @ Event.AggregateType e \<and>
        (\<forall>s. consume_callback c hnd m s = settle (hnd e) s)) es ms"
    using Cons.IH [of j1] by auto
  with m j1 cm callback Cons.prems(3) show ?case
    by (intro exI [of _ "m # ms"] exI [of _ j']) simp
qed

text \<open>A codec and a JetStream for the witness: times in their nanoseconds, an unbounded window.\<close>

definition plain_codec :: codec where
  "plain_codec =
     \<lparr>json_of_bytes = (\<lambda>p. case p of JsonText v \<Rightarrow> JArr [v] | NotJson b \<Rightarrow> JStr b),
      bytes_of_json = (\<lambda>j. case j of JArr [v] \<Rightarrow> Inr (JsonText v) | JStr b \<Rightarrow> Inr (NotJson b)
        | _ \<Rightarrow> Inl UnmarshalTypeError),
      json_of_time = (\<lambda>t. Inr (JInt t)),
      time_of_json = (\<lambda>j. case j of JInt t \<Rightarrow> Inr t | _ \<Rightarrow> Inl UnmarshalTypeError)\<rparr>"

lemma plain_codec_ok: "codec_ok plain_codec"
  by (simp add: codec_ok_def plain_codec_def split: payload.splits)

definition list_jetstream :: "msg list jetstream" where
  "list_jetstream m j = (Inr (), if MsgId m \<in> set (map MsgId j) then j else j @ [m])"

lemma list_jetstream_stores: "jetstream_stores list_jetstream (\<lambda>j. j) (\<lambda>j. set (map MsgId j))"
  by (auto simp: jetstream_stores_def list_jetstream_def)

theorem nats_roundtrip_witness:
  "\<exists>ms. nats_Publish plain_codec (withDefaults \<lparr>StreamName = [], DurableConsumerName = []\<rparr>) list_jetstream race_log []
     = (Inr (), ms) \<and>
   list_all2 (\<lambda>e m. Subject m = ''streamledger_events.'' @ Event.AggregateType e \<and>
     (\<forall>s. consume_callback plain_codec (projector_handler balances background) m s
        = settle (projector_handler balances background e) s)) race_log ms"
proof -
  have "sorted_wrt (<) (map (\<lambda>e. sint (Event.GlobalSeq e)) race_log)" "\<forall>e\<in>set race_log. 0 < sint (Event.GlobalSeq e)"
    using race_mem_inv by (simp_all add: mem_inv_def log_wf_def)
  from nats_roundtrip [OF plain_codec_ok list_jetstream_stores this, of "[]"
      "withDefaults \<lparr>StreamName = [], DurableConsumerName = []\<rparr>" "projector_handler balances background"]
  show ?thesis by (auto simp: plain_codec_def withDefaults_def)
qed

section \<open>Two projectors, one durable consumer\<close>

text \<open>
  \<open>main.go\<close> connects with default options and subscribes both projectors on the one bus, so both
  consume from the durable consumer \<open>streamledger_projections\<close>.  \<open>subscriptions\<close> is a server that keeps
  the callbacks of each durable consumer.  Two events of an account, published
  in the order of the log: the server hands the first to the inventory projector's callback and the second
  to that of the balances projector.
\<close>

definition nats_log :: mem_store where
  "nats_log = snd (mem_Append ''k2''
     [\<lparr>AppendEvent.AggregateType = AggregateTypeAccount, AggregateID = ''alice'', EventType = EventFundsDeposited,
       Payload = marshal_FundsDeposited \<lparr>FundsDeposited.AccountID = ''alice'', AmountCents = 10, Reason = []\<rparr>,
       ExpectedVersion = 1\<rparr>]
     (snd (mem_Append ''k1''
        [\<lparr>AppendEvent.AggregateType = AggregateTypeAccount, AggregateID = ''alice'', EventType = EventAccountOpened,
          Payload = marshal_AccountOpened \<lparr>AccountOpened.AccountID = ''alice'', InitialBalanceCents = 100\<rparr>,
          ExpectedVersion = 0\<rparr>] (mem_New (\<lambda>_. 0)))))"

definition default_options :: Options where
  "default_options = withDefaults \<lparr>StreamName = [], DurableConsumerName = []\<rparr>"

definition durable_consumers :: "(string, 'r, unit, (string \<times> 'r callback) list) consumers" where
  "durable_consumers =
     \<lparr>CreateOrUpdateConsumer = (\<lambda>cfg j. (Inr (Durable cfg), j)),
      Consume = (\<lambda>durable cb j. (Inr (), j @ [(durable, cb)]))\<rparr>"

definition subscriptions :: "(string \<times> rm_store callback) list" where
  "subscriptions =
     snd (nats_Subscribe plain_codec default_options durable_consumers (projector_handler stock_levels background)
       (snd (nats_Subscribe plain_codec default_options durable_consumers (projector_handler balances background) [])))"

definition split_deliveries :: "(ack list \<times> metric list \<times> rm_store) option" where
  "split_deliveries =
     nats_deliver (map snd (filter (\<lambda>(durable, _). durable = ''streamledger_projections'') subscriptions))
       (zip [1, 0] (snd (nats_Publish plain_codec default_options list_jetstream (events nats_log) []))) rm_New"


end
