(* ===== verification/Process.thy ===== *)
theory Process imports Postgres NatsBus begin

text \<open>
  \<open>cmd/streamledger/main.go\<close>: how the process is put together from its flags, and what it opens
  and closes on the way, what it waits for, and how it shuts down.  \<open>pgxpool\<close> and the NATS client are
  parameters; the pools of the two Postgres stores, the NATS connection, the in-memory bus and the
  two servers are the resources it holds.
\<close>

section \<open>Resources\<close>

datatype resource = EventStorePool | ReadModelPool | NatsConn | InMemoryBus | GrpcServer | MetricsServer

datatype usage = Opened resource | Closed resource

text \<open>A result, and what was opened and closed to get it, in order.\<close>

type_synonym 'a startup = "(error + 'a) \<times> usage list"

text \<open>\<open>fmt.Sprintf("%q", s)\<close> on a text without quotes, backslashes or control characters.\<close>

definition sprintf_q :: "string \<Rightarrow> string" where
  "sprintf_q s = [CHR 0x22] @ s @ [CHR 0x22]"

definition envOr :: "(string \<Rightarrow> string) \<Rightarrow> string \<Rightarrow> string \<Rightarrow> string" where
  "envOr Getenv key fallback = (let v = Getenv key in if v \<noteq> [] then v else fallback)"

record flags =
  addr :: string
  metrics_addr :: string
  storage :: string
  database_url :: string
  bus :: string
  nats_url :: string

text \<open>The flags of a command line that sets none.\<close>

definition default_flags :: "(string \<Rightarrow> string) \<Rightarrow> flags" where
  "default_flags Getenv =
     \<lparr>addr = envOr Getenv ''STREAMLEDGER_ADDR'' '':9090'',
      metrics_addr = envOr Getenv ''STREAMLEDGER_METRICS_ADDR'' '':9091'',
      storage = envOr Getenv ''STREAMLEDGER_STORAGE'' ''memory'',
      database_url = Getenv ''STREAMLEDGER_DATABASE_URL'',
      bus = envOr Getenv ''STREAMLEDGER_BUS'' ''memory'',
      nats_url = envOr Getenv ''STREAMLEDGER_NATS_URL'' ''nats://127.0.0.1:4222''\<rparr>"

section \<open>Storage\<close>

text \<open>
  \<open>Connect\<close> of the two stores: \<open>pgxpool.New\<close> and \<open>Ping\<close>; a pool that does not answer is closed.
\<close>

record 'd pool_client =
  New_pool :: "string \<Rightarrow> error + 'd"
  Ping :: "('d, unit) sql"

definition pg_Connect :: "'d pool_client \<Rightarrow> resource \<Rightarrow> string \<Rightarrow> string \<Rightarrow> 'd startup" where
  "pg_Connect pg res pfx databaseURL =
     (case New_pool pg databaseURL of
        Inl err \<Rightarrow> (Inl (Errorf (pfx @ ''connect'') err), [])
      | Inr pool \<Rightarrow>
          (case Ping pg pool of
             (Inl err, _) \<Rightarrow> (Inl (Errorf (pfx @ ''ping'') err), [Opened res, Closed res])
           | (Inr _, pool') \<Rightarrow> (Inr pool', [Opened res])))"

definition read_models_Connect :: "'d pool_client \<Rightarrow> string \<Rightarrow> 'd startup" where
  "read_models_Connect pg databaseURL = pg_Connect pg ReadModelPool ''projections/postgres: '' databaseURL"

text \<open>One of the two Postgres packages: its client, the driver behind its pools, its schema files.\<close>

record ('h, 'd) postgres =
  client :: "'d pool_client"
  driver :: "('h, 'd) driver"
  schemaFS :: schema_fs

datatype ('e, 'v) stores = MemoryStores mem_store rm_store | PostgresStores 'e 'v

text \<open>The result carries the cleanup function, as what it closes.\<close>

definition buildStorage ::
  "('h, 'e) postgres \<Rightarrow> ('k, 'v) postgres \<Rightarrow> (nat \<Rightarrow> time) \<Rightarrow> string \<Rightarrow> string \<Rightarrow>
   (('e, 'v) stores \<times> usage list) startup" where
  "buildStorage es_pg rm_pg time_Now kind databaseURL =
     (if kind = ''memory'' then (Inr (MemoryStores (mem_New time_Now) rm_New, []), [])
      else if kind = ''postgres'' then
        (if databaseURL = [] then (Inl (OtherError ''-database-url is required when -storage=postgres''), [])
         else
           case pg_Connect (client es_pg) EventStorePool ''postgres store: '' databaseURL of
             (Inl err, us) \<Rightarrow> (Inl err, us)
           | (Inr es, us) \<Rightarrow>
               (case Migrate (driver es_pg) (schemaFS es_pg) ''postgres store: '' es of
                  (Inl err, _) \<Rightarrow> (Inl (Errorf ''migrate event store'' err), us @ [Closed EventStorePool])
                | (Inr _, es') \<Rightarrow>
                    (case read_models_Connect (client rm_pg) databaseURL of
                       (Inl err, us') \<Rightarrow> (Inl err, us @ us' @ [Closed EventStorePool])
                     | (Inr rm, us') \<Rightarrow>
                         (case read_models_Migrate (driver rm_pg) (schemaFS rm_pg) rm of
                            (Inl err, _) \<Rightarrow> (Inl (Errorf ''migrate read models'' err),
                              us @ us' @ [Closed EventStorePool, Closed ReadModelPool])
                          | (Inr _, rm') \<Rightarrow> (Inr (PostgresStores es' rm',
                              [Closed EventStorePool, Closed ReadModelPool]), us @ us')))))
      else (Inl (OtherError (''unknown -storage '' @ sprintf_q kind @ '' (want memory|postgres)'')), []))"

section \<open>The bus\<close>

text \<open>The fields of \<open>jetstream.StreamConfig\<close> that are set; \<open>Duplicates\<close> is in nanoseconds.\<close>

record stream_config =
  Name :: string
  Subjects :: "string list"
  Duplicates :: int64
  FileStorage :: bool

record 'n nats_client =
  Dial :: "string \<Rightarrow> string \<Rightarrow> error + 'n"
  JetStream_New :: "'n \<Rightarrow> error option"
  CreateOrUpdateStream :: "'n \<Rightarrow> stream_config \<Rightarrow> error option"

record 'n nats_bus =
  nc :: 'n
  opts :: Options

definition nats_Connect :: "'n nats_client \<Rightarrow> string \<Rightarrow> Options \<Rightarrow> 'n nats_bus startup" where
  "nats_Connect nats natsURL opts0 =
     (let os = withDefaults opts0 in
      case Dial nats natsURL ''streamledger'' of
        Inl err \<Rightarrow> (Inl (Errorf ''natsbus: connect'' err), [])
      | Inr conn \<Rightarrow>
          (case JetStream_New nats conn of
             Some err \<Rightarrow> (Inl (Errorf ''natsbus: jetstream'' err), [Opened NatsConn, Closed NatsConn])
           | None \<Rightarrow>
               (case CreateOrUpdateStream nats conn
                       \<lparr>Name = StreamName os, Subjects = [StreamName os @ ''.>''],
                        Duplicates = 2 * 60 * 1000000000, FileStorage = True\<rparr> of
                  Some err \<Rightarrow> (Inl (Errorf ''natsbus: create stream'' err), [Opened NatsConn, Closed NatsConn])
                | None \<Rightarrow> (Inr \<lparr>nc = conn, opts = os\<rparr>, [Opened NatsConn]))))"

datatype ('n, 'r) event_bus = MemoryBus "'r Bus" | JetStreamBus "'n nats_bus"

definition buildBus ::
  "'n nats_client \<Rightarrow> string \<Rightarrow> string \<Rightarrow> (('n, 'r) event_bus \<times> usage list) startup" where
  "buildBus nats kind natsURL =
     (if kind = ''memory'' then (Inr (MemoryBus bus_New, [Closed InMemoryBus]), [Opened InMemoryBus])
      else if kind = ''nats'' then
        (case nats_Connect nats natsURL \<lparr>StreamName = [], DurableConsumerName = []\<rparr> of
           (Inl err, us) \<Rightarrow> (Inl err, us)
         | (Inr b, us) \<Rightarrow> (Inr (JetStreamBus b, [Closed NatsConn]), us))
      else (Inl (OtherError (''unknown -bus '' @ sprintf_q kind @ '' (want memory|nats)'')), []))"

section \<open>Serving\<close>

text \<open>
  What can happen while the process serves: a signal ends its context, \<open>Serve\<close> of the gRPC server
  returns, or \<open>ListenAndServe\<close> of the metrics server does, which never returns without an error.
\<close>

datatype serve_event = Interrupt | GrpcServe "error option" | MetricsServe error

definition ErrServerClosed :: error where
  "ErrServerClosed = OtherError ''http: Server closed''"

text \<open>What the two goroutines have sent on \<open>errCh\<close>, which has room for both.\<close>

fun errCh :: "serve_event list \<Rightarrow> error list" where
  "errCh [] = []"
| "errCh (Interrupt # es) = errCh es"
| "errCh (GrpcServe r # es) = (case r of None \<Rightarrow> errCh es | Some err \<Rightarrow> Errorf ''grpc serve'' err # errCh es)"
| "errCh (MetricsServe err # es) =
     (if errors_is err ErrServerClosed then errCh es else Errorf ''metrics serve'' err # errCh es)"

text \<open>
  The \<open>select\<close> after \<open>es\<close> have happened: it goes on waiting (\<open>None\<close>), or takes the signal (\<open>Some None\<close>),
  or the first error.  When both are ready Go picks either: \<open>pick\<close> is whether it picks the signal.
\<close>

definition select_end :: "bool \<Rightarrow> serve_event list \<Rightarrow> error option option" where
  "select_end pick es =
     (if Interrupt \<in> set es \<and> (pick \<or> errCh es = []) then Some None
      else (case errCh es of [] \<Rightarrow> None | err # _ \<Rightarrow> Some (Some err)))"

section \<open>The process\<close>

text \<open>
  What \<open>run\<close> meets outside: whether the metrics register, how the subscription and first
  catch-up of each projector end (\<open>Bus\<close> has them), whether the port can be listened on, and what
  happens while it serves.
\<close>

record ('e, 'v, 'n, 'r) outcomes =
  register :: "error option"
  subscribed :: "('e, 'v) stores \<Rightarrow> ('n, 'r) event_bus \<Rightarrow> string \<Rightarrow> error option"
  listening :: "string \<Rightarrow> error option"
  happens :: "serve_event list"
  picks_signal :: bool

text \<open>\<open>run\<close> has returned, or it is still serving.\<close>

datatype progress = Ended "error option" | Serving

text \<open>A deferred call runs after the rest on every path on which that returns.\<close>

definition deferring :: "usage list \<Rightarrow> progress \<times> usage list \<Rightarrow> progress \<times> usage list" where
  "deferring cleanup rest =
     (case rest of (Ended r, us) \<Rightarrow> (Ended r, us @ cleanup) | (Serving, us) \<Rightarrow> (Serving, us))"

definition using_resources :: "'a startup \<Rightarrow> string \<Rightarrow> ('a \<Rightarrow> progress \<times> usage list) \<Rightarrow> progress \<times> usage list" where
  "using_resources m msg rest =
     (case m of
        (Inl err, us) \<Rightarrow> (Ended (Some (Errorf msg err)), us)
      | (Inr x, us) \<Rightarrow> (case rest x of (r, us') \<Rightarrow> (r, us @ us')))"

text \<open>
  The servers are started, and the process waits.  After a signal it stops them, first the gRPC server,
  which finishes the requests it has; the error of a server is returned at once.
\<close>

definition run_servers :: "('e, 'v, 'n, 'r) outcomes \<Rightarrow> progress \<times> usage list" where
  "run_servers out =
     (case select_end (picks_signal out) (happens out) of
        None \<Rightarrow> (Serving, [Opened GrpcServer, Opened MetricsServer])
      | Some (Some err) \<Rightarrow> (Ended (Some err), [Opened GrpcServer, Opened MetricsServer])
      | Some None \<Rightarrow>
          (Ended None, [Opened GrpcServer, Opened MetricsServer, Closed GrpcServer, Closed MetricsServer]))"

text \<open>\<open>run\<close> once it has its storage and its bus.\<close>

definition run_with ::
  "('e, 'v, 'n, 'r) outcomes \<Rightarrow> flags \<Rightarrow> ('e, 'v) stores \<Rightarrow> ('n, 'r) event_bus \<Rightarrow> progress \<times> usage list" where
  "run_with out fl st eventBus =
     (case subscribed out st eventBus balancesProjectionName of
        Some err \<Rightarrow> (Ended (Some (Errorf ''start balances projector'' err)), [])
      | None \<Rightarrow>
          (case subscribed out st eventBus inventoryProjectionName of
             Some err \<Rightarrow> (Ended (Some (Errorf ''start inventory projector'' err)), [])
           | None \<Rightarrow>
               (case listening out (addr fl) of
                  Some err \<Rightarrow> (Ended (Some (Errorf (''listen '' @ addr fl) err)), [])
                | None \<Rightarrow> run_servers out)))"

definition run_process ::
  "('h, 'e) postgres \<Rightarrow> ('k, 'v) postgres \<Rightarrow> 'n nats_client \<Rightarrow> (nat \<Rightarrow> time) \<Rightarrow> flags \<Rightarrow>
   ('e, 'v, 'n, 'r) outcomes \<Rightarrow> progress \<times> usage list" where
  "run_process es_pg rm_pg nats time_Now fl out =
     (case register out of
        Some err \<Rightarrow> (Ended (Some (Errorf ''register metrics'' err)), [])
      | None \<Rightarrow>
          using_resources (buildStorage es_pg rm_pg time_Now (storage fl) (database_url fl)) ''build storage''
            (\<lambda>(st, cleanupStorage). deferring cleanupStorage
              (using_resources (buildBus nats (bus fl) (nats_url fl)) ''build bus''
                (\<lambda>(eventBus, cleanupBus). deferring cleanupBus (run_with out fl st eventBus)))))"

text \<open>\<open>main\<close>: the exit status, and the line \<open>log.Fatalf\<close> writes for the error.\<close>

definition main :: "progress \<Rightarrow> (nat \<times> error option) option" where
  "main r =
     (case r of
        Serving \<Rightarrow> None
      | Ended None \<Rightarrow> Some (0, None)
      | Ended (Some err) \<Rightarrow> Some (1, Some (Errorf ''streamledger'' err)))"

section \<open>Nothing is leaked\<close>

definition pools :: "resource set" where "pools = {EventStorePool, ReadModelPool}"
definition buses :: "resource set" where "buses = {NatsConn, InMemoryBus}"
definition servers :: "resource set" where "servers = {GrpcServer, MetricsServer}"

text \<open>
  What is held after a sequence of uses; \<open>None\<close> when a resource is opened twice, closed without
  being open, or closed while one of its \<open>users\<close> is still open.
\<close>

fun held :: "(resource \<Rightarrow> resource set) \<Rightarrow> resource set \<Rightarrow> usage list \<Rightarrow> resource set option" where
  "held users H [] = Some H"
| "held users H (Opened r # us) = (if r \<in> H then None else held users (insert r H) us)"
| "held users H (Closed r # us) = (if r \<notin> H \<or> H \<inter> users r \<noteq> {} then None else held users (H - {r}) us)"

text \<open>The subscribers of a bus write through the pools; the handlers of the servers use everything.\<close>

definition deliver_into :: "resource \<Rightarrow> resource set" where
  "deliver_into r = (if r \<in> pools then buses else {})"

definition served_from :: "resource \<Rightarrow> resource set" where
  "served_from r = (if r \<in> pools then buses \<union> servers else if r \<in> buses then servers else {})"

lemmas resource_sets = pools_def buses_def servers_def deliver_into_def served_from_def

text \<open>What each part opens, and what its cleanup closes.\<close>

lemma buildStorage_uses:
  assumes "buildStorage es_pg rm_pg clock kind url = (r, us)"
  shows "case r of
      Inl _ \<Rightarrow> held deliver_into {} us = Some {}
    | Inr (_, cleanup) \<Rightarrow> us = [] \<and> cleanup = [] \<or>
        us = [Opened EventStorePool, Opened ReadModelPool] \<and> cleanup = [Closed EventStorePool, Closed ReadModelPool]"
  using assms
  by (auto simp: buildStorage_def pg_Connect_def read_models_Connect_def resource_sets split: if_splits sum.splits prod.splits)

lemma buildBus_uses:
  assumes "buildBus nats kind url = (r, us)"
  shows "case r of
      Inl _ \<Rightarrow> us = [] \<or> us = [Opened NatsConn, Closed NatsConn]
    | Inr (_, cleanup) \<Rightarrow> (\<exists>b\<in>buses. us = [Opened b] \<and> cleanup = [Closed b])"
  using assms
  by (auto simp: buildBus_def nats_Connect_def Let_def resource_sets split: if_splits sum.splits option.splits)

lemma run_with_uses:
  obtains (failed) err where "run_with out fl st b = (Ended (Some err), [])"
  | (broken) err where "run_with out fl st b = (Ended (Some err), [Opened GrpcServer, Opened MetricsServer])"
  | (serving) "run_with out fl st b = (Serving, [Opened GrpcServer, Opened MetricsServer])"
  | (stopped) "run_with out fl st b =
      (Ended None, [Opened GrpcServer, Opened MetricsServer, Closed GrpcServer, Closed MetricsServer])"
proof -
  have "(\<exists>err. run_with out fl st b = (Ended (Some err), [])) \<or>
      (\<exists>err. run_with out fl st b = (Ended (Some err), [Opened GrpcServer, Opened MetricsServer])) \<or>
      run_with out fl st b = (Serving, [Opened GrpcServer, Opened MetricsServer]) \<or>
      run_with out fl st b = (Ended None, [Opened GrpcServer, Opened MetricsServer, Closed GrpcServer, Closed MetricsServer])"
    by (simp add: run_with_def run_servers_def split: option.split)
  with that show thesis by blast
qed

text \<open>Everything \<open>run\<close> can leave behind: nothing, or on the failure of a server the servers.\<close>

lemma run_process_uses:
  fixes out :: "('e, 'v, 'n, 'r) outcomes"
  obtains (failed) err us where "run_process es_pg rm_pg nats clock fl out = (Ended (Some err), us)"
      "held deliver_into {} us = Some {}"
  | (broken) err us where "run_process es_pg rm_pg nats clock fl out = (Ended (Some err), us)"
      "held deliver_into {} us = Some servers"
  | (serving) us H where "run_process es_pg rm_pg nats clock fl out = (Serving, us)" "held served_from {} us = Some H"
      "servers \<subseteq> H"
  | (stopped) us where "run_process es_pg rm_pg nats clock fl out = (Ended None, us)" "held served_from {} us = Some {}"
proof (cases "register out")
  case (Some err)
  with failed show thesis by (simp add: run_process_def)
next
  case None
  let ?storage = "buildStorage es_pg rm_pg clock (storage fl) (database_url fl)"
  let ?bus = "buildBus nats (bus fl) (nats_url fl) :: (('n, 'r) event_bus \<times> usage list) startup"
  obtain r us where st: "?storage = (r, us)" by fastforce
  show thesis
  proof (cases r)
    case (Inl err)
    with buildStorage_uses [OF st] st None failed show thesis by (simp add: run_process_def using_resources_def)
  next
    case (Inr x)
    obtain s cleanup where x: "x = (s, cleanup)" by fastforce
    have us: "us = [] \<and> cleanup = [] \<or>
        us = [Opened EventStorePool, Opened ReadModelPool] \<and> cleanup = [Closed EventStorePool, Closed ReadModelPool]"
      using buildStorage_uses [OF st] Inr x by simp
    obtain r' us' where b: "?bus = (r', us')" by fastforce
    show thesis
    proof (cases r')
      case (Inl err)
      then have "run_process es_pg rm_pg nats clock fl out = (Ended (Some (Errorf ''build bus'' err)), us @ us' @ cleanup)"
        using None st b x \<open>r = Inr x\<close> by (simp add: run_process_def using_resources_def deferring_def)
      moreover have "held deliver_into {} (us @ us' @ cleanup) = Some {}"
        using us buildBus_uses [OF b] Inl by (auto simp: resource_sets)
      ultimately show thesis by (rule failed)
    next
      case (Inr y)
      obtain e cleanup' where y: "y = (e, cleanup')" by fastforce
      obtain c where c: "c \<in> buses" "us' = [Opened c]" "cleanup' = [Closed c]"
        using buildBus_uses [OF b] Inr y by auto
      have run: "run_process es_pg rm_pg nats clock fl out
          = (case run_with out fl s e of (Ended z, vs) \<Rightarrow> (Ended z, us @ us' @ vs @ cleanup' @ cleanup)
             | (Serving, vs) \<Rightarrow> (Serving, us @ us' @ vs))"
        using None st b x y \<open>r = Inr x\<close> Inr
        by (simp add: run_process_def using_resources_def deferring_def split: prod.split progress.split)
      show thesis
      proof (cases rule: run_with_uses [of out fl s e])
        case (failed err)
        then show thesis using run us c by (intro that(1) [of err]) (auto simp: resource_sets)
      next
        case (broken err)
        then show thesis using run us c by (intro that(2) [of err]) (auto simp: resource_sets)
      next
        case serving
        have "\<exists>H. held served_from {} (us @ us' @ [Opened GrpcServer, Opened MetricsServer]) = Some H \<and> servers \<subseteq> H"
          using us c by (auto simp: resource_sets)
        then show thesis using run serving by (auto intro: that(3))
      next
        case stopped
        then show thesis using run us c by (intro that(4)) (auto simp: resource_sets)
      qed
    qed
  qed
qed


text \<open>
  When the port of the metrics server is taken, \<open>run\<close> returns at once: the bus is closed under the gRPC
  server, which is not stopped and may be in the middle of a request.
\<close>

definition port_taken :: error where
  "port_taken = OtherError ''listen tcp :9091: bind: address already in use''"

lemma failed_server_cuts_off:
  "run_process es_pg rm_pg nats clock (default_flags (\<lambda>_. []))
      \<lparr>register = None, subscribed = (\<lambda>_ _ _. None), listening = (\<lambda>_. None), happens = [MetricsServe port_taken], picks_signal = False\<rparr>
    = (Ended (Some (Errorf ''metrics serve'' port_taken)),
       [Opened InMemoryBus, Opened GrpcServer, Opened MetricsServer, Closed InMemoryBus]) \<and>
   held served_from {} [Opened InMemoryBus, Opened GrpcServer, Opened MetricsServer, Closed InMemoryBus] = None \<and>
   main (Ended (Some (Errorf ''metrics serve'' port_taken)))
    = Some (1, Some (Errorf ''streamledger'' (Errorf ''metrics serve'' port_taken)))"
  by (simp add: run_process_def using_resources_def deferring_def buildStorage_def buildBus_def default_flags_def envOr_def
      run_with_def run_servers_def select_end_def ErrServerClosed_def port_taken_def main_def resource_sets)

end
