(* ===== verification/Metrics.thy ===== *)
theory Metrics imports Projector begin

text \<open>
  \<open>internal/metrics/metrics.go\<close>: the collectors, their registration, and what a projector's reports
  do to them.  The Prometheus registry and the conversion of an \<open>int64\<close> to a \<open>float64\<close> are
  parameters.
\<close>

section \<open>Collectors\<close>

datatype vec_kind = CounterVec | HistogramVec | GaugeVec

record collector =
  Kind :: vec_kind
  Namespace :: string
  Name :: string
  Help :: string
  Labels :: "string list"

record Metrics =
  CommandsTotal :: collector
  CommandDuration :: collector
  DuplicateCommandsTotal :: collector
  EventsAppendedTotal :: collector
  VersionConflicts :: collector
  ProjectionEventsAppliedTotal :: collector
  ProjectionDuplicatesSkippedTotal :: collector
  ProjectionLag :: collector

definition metrics_New :: Metrics where
  "metrics_New =
     \<lparr>CommandsTotal = \<lparr>Kind = CounterVec, Namespace = ''streamledger'', Name = ''commands_total'',
        Help = ''Total commands handled by the gRPC command API, by command name and result.'',
        Labels = [''command'', ''result'']\<rparr>,
      CommandDuration = \<lparr>Kind = HistogramVec, Namespace = ''streamledger'', Name = ''command_duration_seconds'',
        Help = ''Command handling latency in seconds, by command name.'', Labels = [''command'']\<rparr>,
      DuplicateCommandsTotal = \<lparr>Kind = CounterVec, Namespace = ''streamledger'', Name = ''duplicate_commands_total'',
        Help = ''Commands recognized as duplicates of an in-flight or completed dedupe_key.'',
        Labels = [''command'']\<rparr>,
      EventsAppendedTotal = \<lparr>Kind = CounterVec, Namespace = ''streamledger'', Name = ''events_appended_total'',
        Help = ''Events successfully appended to the event log, by aggregate type.'',
        Labels = [''aggregate_type'']\<rparr>,
      VersionConflicts = \<lparr>Kind = CounterVec, Namespace = ''streamledger'', Name = ''version_conflicts_total'',
        Help = ''Optimistic-concurrency conflicts encountered while appending, by aggregate type.'',
        Labels = [''aggregate_type'']\<rparr>,
      ProjectionEventsAppliedTotal = \<lparr>Kind = CounterVec, Namespace = ''streamledger'',
        Name = ''projection_events_applied_total'',
        Help = ''Events applied by a projection, by projection name and event type.'',
        Labels = [''projection'', ''event_type'']\<rparr>,
      ProjectionDuplicatesSkippedTotal = \<lparr>Kind = CounterVec, Namespace = ''streamledger'',
        Name = ''projection_duplicates_skipped_total'',
        Help = ''Events skipped by a projection because they were at or below its checkpoint (proof of no double-apply).'',
        Labels = [''projection'']\<rparr>,
      ProjectionLag = \<lparr>Kind = GaugeVec, Namespace = ''streamledger'', Name = ''projection_lag_events'',
        Help = ''Number of events a projection's checkpoint is behind the event log's latest global sequence.'',
        Labels = [''projection'']\<rparr>\<rparr>"

section \<open>Registration\<close>

definition collectors :: "Metrics \<Rightarrow> collector list" where
  "collectors m =
     [CommandsTotal m, CommandDuration m, DuplicateCommandsTotal m, EventsAppendedTotal m, VersionConflicts m,
      ProjectionEventsAppliedTotal m, ProjectionDuplicatesSkippedTotal m, ProjectionLag m]"

fun register_loop :: "(collector \<Rightarrow> 'r \<Rightarrow> error option \<times> 'r) \<Rightarrow> collector list \<Rightarrow> 'r \<Rightarrow> error option \<times> 'r" where
  "register_loop register [] reg = (None, reg)"
| "register_loop register (c # cs) reg =
     (case register c reg of
        (Some err, reg') \<Rightarrow> (Some err, reg')
      | (None, reg') \<Rightarrow> register_loop register cs reg')"

definition Register :: "(collector \<Rightarrow> 'r \<Rightarrow> error option \<times> 'r) \<Rightarrow> Metrics \<Rightarrow> 'r \<Rightarrow> error option \<times> 'r" where
  "Register register m = register_loop register (collectors m)"

text \<open>
  A registry refuses a collector whose fully qualified name is taken, and no other: the eight have
  different names, so a registry without them takes them all.
\<close>

definition fq_name :: "collector \<Rightarrow> string" where
  "fq_name c = Namespace c @ ''_'' @ Name c"

definition registry_ok :: "(collector \<Rightarrow> 'r \<Rightarrow> error option \<times> 'r) \<Rightarrow> ('r \<Rightarrow> string set) \<Rightarrow> bool" where
  "registry_ok register names \<longleftrightarrow> (\<forall>c reg. fq_name c \<notin> names reg \<longrightarrow>
     (\<exists>reg'. register c reg = (None, reg') \<and> names reg' = insert (fq_name c) (names reg)))"

lemma register_loop_fresh:
  assumes "registry_ok register names" and "distinct (map fq_name cs)" and "names reg \<inter> fq_name ` set cs = {}"
  shows "\<exists>reg'. register_loop register cs reg = (None, reg') \<and> names reg' = names reg \<union> fq_name ` set cs"
  using assms(2,3)
proof (induction cs arbitrary: reg)
  case (Cons c cs)
  have "fq_name c \<notin> names reg" using Cons.prems(2) by auto
  with assms(1) obtain reg1 where
    reg1: "register c reg = (None, reg1)" "names reg1 = insert (fq_name c) (names reg)"
    unfolding registry_ok_def by blast
  have "distinct (map fq_name cs)" using Cons.prems(1) by simp
  moreover have "names reg1 \<inter> fq_name ` set cs = {}" using Cons.prems reg1(2) by auto
  ultimately obtain reg' where
    "register_loop register cs reg1 = (None, reg')" "names reg' = names reg1 \<union> fq_name ` set cs"
    using Cons.IH by blast
  with reg1 show ?case by (intro exI [of _ reg']) simp
qed simp

lemma distinct_names: "distinct (map Name (collectors metrics_New))"
  by (simp add: collectors_def metrics_New_def)

lemma one_namespace: "c \<in> set (collectors metrics_New) \<Longrightarrow> Namespace c = ''streamledger''"
  by (auto simp: collectors_def metrics_New_def)

lemma Register_fresh:
  assumes "registry_ok register names" and "names reg \<inter> fq_name ` set (collectors metrics_New) = {}"
  shows "\<exists>reg'. Register register metrics_New reg = (None, reg') \<and>
    names reg' = names reg \<union> fq_name ` set (collectors metrics_New)"
proof -
  have "map fq_name (collectors metrics_New)
      = map (\<lambda>n. ''streamledger_'' @ n) (map Name (collectors metrics_New))"
    by (simp add: fq_name_def one_namespace)
  moreover have "inj_on (\<lambda>n. ''streamledger_'' @ n) N" for N by (rule inj_onI) simp
  ultimately have "distinct (map fq_name (collectors metrics_New))"
    using distinct_names by (simp only: distinct_map simp_thms)
  from register_loop_fresh [OF assms(1) this assms(2)] show ?thesis unfolding Register_def .
qed

section \<open>Reports of a projector\<close>

text \<open>The values of the three collectors projections write, by their labels.\<close>

record 'f projection_values =
  applied_total :: "string \<times> string \<Rightarrow> nat"
  duplicates_total :: "string \<Rightarrow> nat"
  lag_gauge :: "string \<rightharpoonup> 'f"

fun ProjectionMetrics :: "(int64 \<Rightarrow> 'f) \<Rightarrow> metric \<Rightarrow> 'f projection_values \<Rightarrow> 'f projection_values" where
  "ProjectionMetrics float64 (EventApplied p t) v =
     v\<lparr>applied_total := (applied_total v)((p, t) := applied_total v (p, t) + 1)\<rparr>"
| "ProjectionMetrics float64 (DuplicateSkipped p) v =
     v\<lparr>duplicates_total := (duplicates_total v)(p := duplicates_total v p + 1)\<rparr>"
| "ProjectionMetrics float64 (LagReported p lag) v =
     v\<lparr>lag_gauge := (lag_gauge v)(p \<mapsto> float64 lag)\<rparr>"

lemma duplicates_counted:
  "duplicates_total (fold (ProjectionMetrics float64) ms v) p
   = duplicates_total v p + count_list ms (DuplicateSkipped p)"
proof (induction ms arbitrary: v)
  case (Cons m ms)
  then show ?case by (cases m) simp_all
qed simp

end
