(* ===== verification/Polling.thy ===== *)
theory Polling imports Delivery begin

text \<open>
  The goroutine that polls \<open>CatchUp\<close> for each projector, \<open>subscribeAndCatchUp\<close> of
  \<open>cmd/streamledger/main.go\<close>: the durability backstop behind the bus.
\<close>

section \<open>Polling\<close>

text \<open>
  What wakes a projector: the ticker, with the state of the log at that moment; a message, on which the
  bus runs the handler of the subscription; or the end of the context.
\<close>

datatype 'e wake = Tick 'e | Message Event | is_CtxDone: CtxDone

text \<open>
  The goroutine of \<open>subscribeAndCatchUp\<close>, with the deliveries that come between its wake-ups: the error
  lines it logs, and whether it has returned.
\<close>

fun poll_loop ::
  "('c, 'r) Projector \<Rightarrow> 'c \<Rightarrow> 'e Store \<Rightarrow> int64 \<Rightarrow> 'e wake list \<Rightarrow> 'r \<Rightarrow>
   ((error list \<times> bool) \<times> metric list \<times> 'r) option" where
  "poll_loop p ctx st batchSize [] s = Some (([], False), [], s)"
| "poll_loop p ctx st batchSize (CtxDone # ws) s = Some (([], True), [], s)"
| "poll_loop p ctx st batchSize (Tick log # ws) s =
     (case CatchUp p ctx st log batchSize s of
        None \<Rightarrow> None
      | Some ((err, _), ms, s') \<Rightarrow>
          (case poll_loop p ctx st batchSize ws s' of
             None \<Rightarrow> None
           | Some ((lines, ended), ms', s'') \<Rightarrow>
               Some (((case err of None \<Rightarrow> lines | Some e \<Rightarrow> Errorf (Projector.Name p @ '' catch-up poll'') e # lines), ended),
                 ms @ ms', s'')))"
| "poll_loop p ctx st batchSize (Message event # ws) s =
     (case projector_handler p ctx event s of
        None \<Rightarrow> None
      | Some (_, ms, s') \<Rightarrow>
          (case poll_loop p ctx st batchSize ws s' of
             None \<Rightarrow> None
           | Some (r, ms', s'') \<Rightarrow> Some (r, ms @ ms', s'')))"

text \<open>
  \<open>orderly\<close>: the log only grows from one tick to the next, and a message is one the projector has seen
  before or the next event of the log.  Messages may be lost, as long as none after them is delivered
  before the next tick.
\<close>

fun orderly :: "(Event list \<Rightarrow> bool) \<Rightarrow> ('e \<Rightarrow> bool) \<Rightarrow> ('e \<Rightarrow> Event list) \<Rightarrow> Event list \<Rightarrow> 'e wake list \<Rightarrow> bool" where
  "orderly allowed ok log seen [] \<longleftrightarrow> True"
| "orderly allowed ok log seen (CtxDone # ws) \<longleftrightarrow> True"
| "orderly allowed ok log seen (Tick e # ws) \<longleftrightarrow>
     ok e \<and> allowed (log e) \<and> prefix seen (log e) \<and> orderly allowed ok log (log e) ws"
| "orderly allowed ok log seen (Message x # ws) \<longleftrightarrow>
     (if x \<in> set seen then orderly allowed ok log seen ws
      else allowed (seen @ [x]) \<and> log_wf (seen @ [x]) \<and> orderly allowed ok log (seen @ [x]) ws)"

text \<open>The part of the log the projector has seen at the end.\<close>

fun seen_after :: "('e \<Rightarrow> Event list) \<Rightarrow> Event list \<Rightarrow> 'e wake list \<Rightarrow> Event list" where
  "seen_after log seen [] = seen"
| "seen_after log seen (CtxDone # ws) = seen"
| "seen_after log seen (Tick e # ws) = seen_after log (log e) ws"
| "seen_after log seen (Message x # ws) = seen_after log (if x \<in> set seen then seen else seen @ [x]) ws"

definition last_seq :: "Event list \<Rightarrow> int64" where
  "last_seq L = (if L = [] then 0 else GlobalSeq (last L))"

lemma log_wf_last:
  assumes "log_wf L"
  shows "\<forall>x\<in>set L. GlobalSeq x \<le>s last_seq L"
    and "log_wf (L @ M) \<Longrightarrow> \<forall>x\<in>set M. last_seq L <s GlobalSeq x"
  using assms by (cases L rule: rev_cases; force simp: log_wf_def last_seq_def sorted_wrt_append word_sle_eq word_sless_alt)+

context follower
begin

text \<open>The projector is where it would be had it folded exactly \<open>L\<close>.\<close>

abbreviation abreast :: "Event list \<Rightarrow> 's \<Rightarrow> bool" where
  "abreast L s \<equiv> rows L (views s) \<and> cp s = last_seq L \<and> log_wf L"

lemma abreast_tick:
  assumes "inv e" and "good (log e)" and "outside c s" and "abreast L s" and "prefix L (log e)"
  shows "\<exists>n ms s'. CatchUp p c S e batchSize s = Some ((None, n), ms, s') \<and> outside c s' \<and> abreast (log e) s'"
proof -
  obtain M where M: "log e = L @ M" using assms(5) by (auto simp: prefix_def)
  have wf: "log_wf (L @ M)" using inv_log [OF assms(1)] M by simp
  have "\<forall>x\<in>set L. GlobalSeq x \<le>s cp s" "\<forall>x\<in>set M. cp s <s GlobalSeq x"
    using assms(4) log_wf_last [OF log_wf_prefix [OF wf]] wf by auto
  from catch_up_loop_spec [OF assms(1) M this assms(2) _ assms(3), of batchSize 0] assms(4) M wf show ?thesis
    by (auto simp: CatchUp_def last_seq_def)
qed

lemma abreast_message:
  assumes "outside c s" and "abreast L s" and "x \<notin> set L \<Longrightarrow> good (L @ [x]) \<and> log_wf (L @ [x])"
  shows "\<exists>ms s'. projector_handler p c x s = Some (Inr (), ms, s') \<and> outside c s' \<and>
    abreast (if x \<in> set L then L else L @ [x]) s'"
proof (cases "x \<in> set L")
  case True
  then have "GlobalSeq x \<le>s cp s" using assms(2) log_wf_last(1) by auto
  from ApplyEvent_skip [OF assms(1) this] True assms(2) show ?thesis
    by (auto simp: projector_handler_def and_then_def ret_def)
next
  case False
  then have wf: "good (L @ [x])" "log_wf (L @ [x])" using assms(3) by auto
  then have "\<not> GlobalSeq x \<le>s cp s" using assms(2) log_wf_last(2) [of L "[x]"] by (auto simp: word_sle_eq word_sless_alt)
  from ApplyEvent_next [OF assms(1) this _ wf(1)] assms(2) wf(2) False show ?thesis
    by (auto simp: projector_handler_def and_then_def ret_def last_seq_def)
qed

lemma polls:
  assumes allowed: "\<And>L. allowed L \<Longrightarrow> good L"
  shows "orderly allowed inv log L ws \<Longrightarrow> outside c s \<Longrightarrow> abreast L s \<Longrightarrow>
    \<exists>ms s'. poll_loop p c S batchSize ws s = Some (([], list_ex is_CtxDone ws), ms, s') \<and> outside c s' \<and>
      abreast (seen_after log L ws) s'"
proof (induction ws arbitrary: L s)
  case (Cons w ws)
  show ?case
  proof (cases w)
    case (Tick e)
    with Cons.prems(1) have e: "inv e" "good (log e)" "prefix L (log e)" "orderly allowed inv log (log e) ws"
      using allowed by auto
    from abreast_tick [OF e(1,2) Cons.prems(2,3) e(3)] obtain n ms s1 where
      s1: "CatchUp p c S e batchSize s = Some ((None, n), ms, s1)" "outside c s1" "abreast (log e) s1" by blast
    from Cons.IH [OF e(4) s1(2,3)] s1(1) Tick show ?thesis by auto
  next
    case (Message x)
    let ?L = "if x \<in> set L then L else L @ [x]"
    have "x \<notin> set L \<Longrightarrow> good (L @ [x]) \<and> log_wf (L @ [x])" using Cons.prems(1) Message allowed by auto
    from abreast_message [OF Cons.prems(2,3) this] obtain ms s1 where
      s1: "projector_handler p c x s = Some (Inr (), ms, s1)" "outside c s1" "abreast ?L s1" by blast
    have "orderly allowed inv log ?L ws" using Cons.prems(1) Message by (auto split: if_splits)
    from Cons.IH [OF this s1(2,3)] s1(1) Message show ?thesis by auto
  qed (use Cons.prems in auto)
qed auto

end

text \<open>
  C34: Polling keeps the views in step.  From views that hold what a prefix of the log amounts to, however
  the log grows between the ticks, whatever batches \<open>CatchUp\<close> takes, and whatever messages arrive again
  or never, as long as no message overtakes one that is still missing: the goroutine of the balances
  projector logs no error and returns only when its context ends, and the row of every account is
  the fold of the events of its stream that the projector was told of or found at a tick.
\<close>

theorem polls_keep_up:
  assumes "orderly accounts_fold mem_inv events L ws" and "\<not> mu s" and "account_rows L (views.truncate s)"
    and "go_get (checkpoints s) balancesProjectionName = last_seq L" and "log_wf L"
  shows "\<exists>ms s'. poll_loop balances background memory_Store batchSize ws s = Some (([], list_ex is_CtxDone ws), ms, s') \<and>
    go_get (checkpoints s') balancesProjectionName = last_seq (seen_after events L ws) \<and>
    (\<forall>i. accounts s' i = account_row i (stream_events (seen_after events L ws) (AggregateTypeAccount, i)))"
  using bal.polls [of accounts_fold L ws background s batchSize] assms
  by (auto simp: rm_outside_def account_rows_def)

text \<open>The first message is delivered, the others are lost; a tick; the first is delivered again; the end.\<close>

definition lossy :: "mem_store wake list" where
  "lossy = [Message (hd race_log), Tick (store (play memory_Store race idle)), Message (hd race_log), CtxDone]"

theorem polls_keep_up_witness:
  "\<exists>ms s'. poll_loop balances background memory_Store catchUpBatchSize lossy rm_New = Some (([], True), ms, s') \<and>
    (\<forall>i. accounts s' i = account_row i (stream_events race_log (AggregateTypeAccount, i)))"
proof -
  have "race_log \<noteq> []" by code_simp
  then obtain M where M: "race_log = [hd race_log] @ M" by (cases race_log) auto
  have wf: "log_wf ([hd race_log] @ M)" using race_mem_inv M mem.inv_log by metis
  have "accounts_fold [hd race_log]" using legal_fold(1) race_legal M by metis
  moreover have "log_wf [hd race_log]" by (rule log_wf_prefix [OF wf])
  moreover have "accounts_fold race_log" by (rule legal_log_folds [OF race_legal])
  moreover have "prefix [hd race_log] race_log" unfolding prefix_def using M by blast
  moreover have "hd race_log \<in> set race_log" using \<open>race_log \<noteq> []\<close> by simp
  ultimately have "orderly accounts_fold mem_inv events [] lossy" using race_mem_inv by (simp add: lossy_def)
  note run = polls_keep_up [OF this, of rm_New catchUpBatchSize]
  have "list_ex is_CtxDone lossy" "seen_after events [] lossy = race_log"
    using \<open>hd race_log \<in> set race_log\<close> by (simp_all add: lossy_def)
  moreover have "account_rows [] (views.truncate rm_New)" by (simp add: account_rows_def account_row_def rm_New_def)
  ultimately show ?thesis using run by (simp add: last_seq_def) blast
qed

end
