(* ===== verification/PgSessions.thy ===== *)
theory PgSessions imports PgLog System begin

text \<open>
  Any number of command handlers, in any number of processes, at work on one Postgres.  A call of
  \<open>internal/eventstore/postgres/store.go\<close> is here not one step but one step per statement: a
  handler that waits for the database has sent a statement, and other handlers' statements run
  before it is answered.  What the statements of open transactions do to each other, the row locks
  and the unique constraints the package relies on, is the hypothesis \<open>obeys\<close>.
\<close>

section \<open>Statements sent, and answers\<close>

text \<open>
  What a handler can ask of the database, in the transaction it has opened or through the pool, and
  what it can be told.
\<close>

datatype sql_request =
    BeginTx
  | CommitTx
  | RollbackTx
  | ExecStmt "unit querier" string "sql_value list"
  | QueryRowStmt "unit querier" string "sql_value list"
  | QueryStmt "unit querier" string "sql_value list"

datatype sql_reply =
    Refused error
  | Done
  | OneRow row
  | Rows "row list" "error option"

text \<open>
  A method of the store is a function of the answers it gets.  \<open>replay_driver\<close> runs it on the
  answers so far, \<open>replies\<close>, up to the first statement that has none, \<open>waiting\<close>.
\<close>

record replay =
  replies :: "sql_reply list"
  waiting :: "sql_request option"

definition ask :: "(sql_reply \<Rightarrow> error + 'a) \<Rightarrow> sql_request \<Rightarrow> (replay, 'a) sql" where
  "ask rd req d =
     (if waiting d \<noteq> None then (Inl ErrScan, d)
      else case replies d of
        [] \<Rightarrow> (Inl ErrScan, d\<lparr>waiting := Some req\<rparr>)
      | r # rs \<Rightarrow> (rd r, d\<lparr>replies := rs\<rparr>))"

definition read_done :: "sql_reply \<Rightarrow> error + unit" where
  "read_done r = (case r of Done \<Rightarrow> Inr () | Refused err \<Rightarrow> Inl err | _ \<Rightarrow> Inl ErrScan)"

definition read_row :: "sql_reply \<Rightarrow> error + row" where
  "read_row r = (case r of OneRow c \<Rightarrow> Inr c | Refused err \<Rightarrow> Inl err | _ \<Rightarrow> Inl ErrScan)"

definition read_rows :: "sql_reply \<Rightarrow> error + row list \<times> error option" where
  "read_rows r = (case r of Rows rs e \<Rightarrow> Inr (rs, e) | Refused err \<Rightarrow> Inl err | _ \<Rightarrow> Inl ErrScan)"

definition replay_driver :: "(unit, replay) driver" where
  "replay_driver =
     \<lparr>Begin = ask read_done BeginTx,
      Commit = (\<lambda>_. ask read_done CommitTx),
      Rollback = (\<lambda>_. ask read_done RollbackTx),
      Exec = (\<lambda>q stmt args. ask read_done (ExecStmt q stmt args)),
      QueryRow = (\<lambda>q stmt args. ask read_row (QueryRowStmt q stmt args)),
      Query = (\<lambda>q stmt args. ask read_rows (QueryStmt q stmt args))\<rparr>"

section \<open>Handlers between two answers\<close>

text \<open>
  The call on the store a handler is in, and the handler after it.
\<close>

fun calling :: "proc \<Rightarrow> replay \<Rightarrow> proc \<times> replay" where
  "calling (DoLookupDedupe key f) d = (case pg_LookupDedupe replay_driver key d of (r, d') \<Rightarrow> (f r, d'))"
| "calling (DoLoadStream ty aid f) d = (case pg_LoadStream replay_driver ty aid d of (r, d') \<Rightarrow> (f r, d'))"
| "calling (DoAppend key as f) d = (case pg_Append replay_driver key as d of (r, d') \<Rightarrow> (f r, d'))"
| "calling (DoPublish es p) d = (p, d)"
| "calling p d = (p, d)"

definition fed :: "sql_reply list \<Rightarrow> replay" where
  "fed rs = \<lparr>replies = rs, waiting = None\<rparr>"

text \<open>The statement the handler waits for, or the handler after the call and what it published.\<close>

definition moves :: "proc \<Rightarrow> sql_reply list \<Rightarrow> sql_request + proc \<times> Event list list" where
  "moves p rs =
     (case calling p (fed rs) of (p', d) \<Rightarrow>
      case waiting d of
        Some req \<Rightarrow> Inl req
      | None \<Rightarrow> Inr (p', case p of DoPublish es _ \<Rightarrow> [es] | _ \<Rightarrow> []))"

section \<open>What open transactions see and lock\<close>

text \<open>
  \<open>base\<close>: what is committed, the rows in the order of the commits; \<open>wrote i\<close>: the rows the open
  transaction of handler \<open>i\<close> has written, \<open>None\<close> when it has no transaction, or one that
  the database has given up; \<open>holds i\<close>: the rows of \<open>stream_versions\<close> it has locked.
\<close>

record pg_state =
  base :: event_tables
  wrote :: "nat \<Rightarrow> event_tables option"
  holds :: "nat \<Rightarrow> stream_key set"

definition no_tables :: event_tables where
  "no_tables =
     \<lparr>event_rows = [], stream_versions = Map.empty, idempotency_keys = {}, idempotency_key_events = []\<rparr>"

definition merged :: "event_tables \<Rightarrow> event_tables \<Rightarrow> event_tables" where
  "merged b own =
     \<lparr>event_rows = event_rows b @ event_rows own,
      stream_versions = stream_versions b ++ stream_versions own,
      idempotency_keys = idempotency_keys b \<union> idempotency_keys own,
      idempotency_key_events = idempotency_key_events b @ idempotency_key_events own\<rparr>"

definition seqs :: "event_tables \<Rightarrow> int64 set" where
  "seqs t = global_seq ` set (event_rows t)"

text \<open>A statement leaves the other transactions alone, or ends them.\<close>

definition others_kept :: "nat \<Rightarrow> pg_state \<Rightarrow> pg_state \<Rightarrow> bool" where
  "others_kept i s s' \<longleftrightarrow>
     (\<forall>j. j \<noteq> i \<longrightarrow> wrote s' j = None \<or> wrote s' j = wrote s j \<and> holds s' j = holds s j)"

definition unlocked :: "nat \<Rightarrow> pg_state \<Rightarrow> stream_key \<Rightarrow> bool" where
  "unlocked i s k \<longleftrightarrow> (\<forall>j. j \<noteq> i \<and> wrote s j \<noteq> None \<longrightarrow> k \<notin> holds s j)"

definition becomes :: "nat \<Rightarrow> pg_state \<Rightarrow> event_tables \<Rightarrow> stream_key set \<Rightarrow> pg_state \<Rightarrow> bool" where
  "becomes i s own ks s' \<longleftrightarrow> others_kept i s s' \<and> base s' = base s \<and> wrote s' i = Some own \<and> holds s' i = ks"

definition unmoved :: "nat \<Rightarrow> pg_state \<Rightarrow> pg_state \<Rightarrow> bool" where
  "unmoved i s s' \<longleftrightarrow> others_kept i s s' \<and> base s' = base s \<and>
     (wrote s' i = None \<or> wrote s' i = wrote s i \<and> holds s' i = holds s i)"

text \<open>
  What Postgres documents of the statements of the store at the isolation level \<open>READ COMMITTED\<close>,
  as far as the store relies on it.  \<open>permitted jsonb i s req reply s'\<close>: handler \<open>i\<close> may be given
  this reply when the database goes from \<open>s\<close> to \<open>s'\<close>.  Every statement reads what is committed when
  it is answered and what its own transaction wrote; a statement that meets the lock or the new key
  of another open transaction is not answered before that ends; anything may be refused, and a
  commit that is reported as refused may have taken place.
\<close>

inductive permitted ::
  "(payload \<Rightarrow> payload) \<Rightarrow> nat \<Rightarrow> pg_state \<Rightarrow> sql_request \<Rightarrow> sql_reply \<Rightarrow> pg_state \<Rightarrow> bool" for jsonb i s where
  refused: "unmoved i s s' \<Longrightarrow> permitted jsonb i s req (Refused (OtherError m)) s'"
| in_doubt: "others_kept i s s' \<Longrightarrow> wrote s i = Some own \<Longrightarrow> base s' = merged (base s) own \<Longrightarrow> wrote s' i = None \<Longrightarrow>
    permitted jsonb i s CommitTx (Refused (OtherError m)) s'"
| begun: "becomes i s no_tables {} s' \<Longrightarrow> permitted jsonb i s BeginTx Done s'"
| committed: "others_kept i s s' \<Longrightarrow> wrote s i = Some own \<Longrightarrow> base s' = merged (base s) own \<Longrightarrow> wrote s' i = None \<Longrightarrow>
    permitted jsonb i s CommitTx Done s'"
| rolled_back: "others_kept i s s' \<Longrightarrow> base s' = base s \<Longrightarrow> wrote s' i = None \<Longrightarrow>
    permitted jsonb i s RollbackTx Done s'"
| key_checked: "wrote s i = Some own \<Longrightarrow> becomes i s own (holds s i) s' \<Longrightarrow>
    permitted jsonb i s (QueryRowStmt (Tx ()) sql_exists_for_update [Text key])
      (OneRow [Boolean (key \<in> idempotency_keys (merged (base s) own))]) s'"
| key_reserved: "wrote s i = Some own \<Longrightarrow> key \<notin> idempotency_keys (merged (base s) own) \<Longrightarrow>
    \<forall>j o'. j \<noteq> i \<longrightarrow> wrote s' j = Some o' \<longrightarrow> key \<notin> idempotency_keys o' \<Longrightarrow>
    becomes i s (own\<lparr>idempotency_keys := insert key (idempotency_keys own)\<rparr>) (holds s i) s' \<Longrightarrow>
    permitted jsonb i s (ExecStmt (Tx ()) sql_reserve [Text key]) Done s'"
| stream_known: "wrote s i = Some own \<Longrightarrow> stream_versions (merged (base s) own) (ty, aid) \<noteq> None \<Longrightarrow>
    becomes i s own (holds s i) s' \<Longrightarrow>
    permitted jsonb i s (ExecStmt (Tx ()) sql_ensure_stream [Text ty, Text aid]) Done s'"
| stream_ensured: "wrote s i = Some own \<Longrightarrow> stream_versions (merged (base s) own) (ty, aid) = None \<Longrightarrow>
    unlocked i s' (ty, aid) \<Longrightarrow>
    becomes i s (own\<lparr>stream_versions := (stream_versions own)((ty, aid) \<mapsto> 0)\<rparr>) (insert (ty, aid) (holds s i)) s' \<Longrightarrow>
    permitted jsonb i s (ExecStmt (Tx ()) sql_ensure_stream [Text ty, Text aid]) Done s'"
| stream_locked: "wrote s i = Some own \<Longrightarrow> stream_versions (merged (base s) own) (ty, aid) = Some v \<Longrightarrow>
    unlocked i s' (ty, aid) \<Longrightarrow> becomes i s own (insert (ty, aid) (holds s i)) s' \<Longrightarrow>
    permitted jsonb i s (QueryRowStmt (Tx ()) sql_lock_stream [Text ty, Text aid]) (OneRow [BigInt v]) s'"
| event_inserted: "wrote s i = Some own \<Longrightarrow> 0 < sint g \<Longrightarrow> \<forall>r\<in>set (event_rows own). sint (global_seq r) < sint g \<Longrightarrow>
    g \<notin> seqs (base s) \<Longrightarrow> \<forall>j o'. j \<noteq> i \<longrightarrow> wrote s' j = Some o' \<longrightarrow> g \<notin> seqs o' \<Longrightarrow>
    becomes i s (insert_row own
      \<lparr>global_seq = g, aggregate_type = ty, aggregate_id = aid, row_version = v, event_type = et,
       row_payload = jsonb p, dedupe_key = key, correlation_id = None, created_at = t\<rparr>) (holds s i) s' \<Longrightarrow>
    permitted jsonb i s
      (QueryRowStmt (Tx ()) sql_insert_event [Text ty, Text aid, BigInt v, Text et, Jsonb p, nullable key])
      (OneRow [BigInt g, TimestampTz t]) s'"
| stream_bumped: "wrote s i = Some own \<Longrightarrow> stream_versions (merged (base s) own) (ty, aid) \<noteq> None \<Longrightarrow>
    unlocked i s' (ty, aid) \<Longrightarrow>
    becomes i s (own\<lparr>stream_versions := (stream_versions own)((ty, aid) \<mapsto> v)\<rparr>) (insert (ty, aid) (holds s i)) s' \<Longrightarrow>
    permitted jsonb i s (ExecStmt (Tx ()) sql_bump_stream [BigInt v, Text ty, Text aid]) Done s'"
| stream_not_bumped: "wrote s i = Some own \<Longrightarrow> stream_versions (merged (base s) own) (ty, aid) = None \<Longrightarrow>
    becomes i s own (holds s i) s' \<Longrightarrow>
    permitted jsonb i s (ExecStmt (Tx ()) sql_bump_stream [BigInt v, Text ty, Text aid]) Done s'"
| event_linked: "wrote s i = Some own \<Longrightarrow>
    becomes i s (own\<lparr>idempotency_key_events := idempotency_key_events own @ [(key, g)]\<rparr>) (holds s i) s' \<Longrightarrow>
    permitted jsonb i s (ExecStmt (Tx ()) sql_link_event [Text key, BigInt g]) Done s'"
| key_events: "wrote s i = Some own \<Longrightarrow> becomes i s own (holds s i) s' \<Longrightarrow>
    permitted jsonb i s (QueryStmt (Tx ()) sql_dedupe_events [Text key])
      (Rows (map event_columns (by_seq (joined_rows (merged (base s) own) key))) None) s'"
| key_looked_up: "unmoved i s s' \<Longrightarrow>
    permitted jsonb i s (QueryRowStmt Pool sql_exists [Text key]) (OneRow [Boolean (key \<in> idempotency_keys (base s))]) s'"
| key_events_looked_up: "unmoved i s s' \<Longrightarrow>
    permitted jsonb i s (QueryStmt Pool sql_dedupe_events [Text key])
      (Rows (map event_columns (by_seq (joined_rows (base s) key))) None) s'"
| stream_loaded: "unmoved i s s' \<Longrightarrow>
    permitted jsonb i s (QueryStmt Pool sql_load_stream [Text ty, Text aid])
      (Rows (map event_columns (by_version (rows_of_stream (base s) (ty, aid)))) None) s'"
| rows_broken: "unmoved i s s' \<Longrightarrow> permitted jsonb i s (QueryStmt q stmt args) (Rows rs (Some (OtherError m))) s'"

text \<open>The statements the command handlers send.\<close>

inductive sent :: "sql_request \<Rightarrow> bool" where
  "sent BeginTx" | "sent CommitTx" | "sent RollbackTx"
| "sent (QueryRowStmt (Tx ()) sql_exists_for_update [Text key])"
| "sent (ExecStmt (Tx ()) sql_reserve [Text key])"
| "sent (ExecStmt (Tx ()) sql_ensure_stream [Text ty, Text aid])"
| "sent (QueryRowStmt (Tx ()) sql_lock_stream [Text ty, Text aid])"
| "sent (QueryRowStmt (Tx ()) sql_insert_event [Text ty, Text aid, BigInt v, Text et, Jsonb p, nullable dk])"
| "sent (ExecStmt (Tx ()) sql_bump_stream [BigInt v, Text ty, Text aid])"
| "sent (ExecStmt (Tx ()) sql_link_event [Text key, BigInt g])"
| "sent (QueryStmt q sql_dedupe_events [Text key])"
| "sent (QueryRowStmt Pool sql_exists [Text key])"
| "sent (QueryStmt Pool sql_load_stream [Text ty, Text aid])"

text \<open>
  A database: what it may answer, and what of its state the laws speak about.
\<close>

record 'w server =
  serve :: "'w \<Rightarrow> nat \<Rightarrow> sql_request \<Rightarrow> sql_reply \<Rightarrow> 'w \<Rightarrow> bool"
  observed :: "'w \<Rightarrow> pg_state"

definition obeys :: "'w server \<Rightarrow> (payload \<Rightarrow> payload) \<Rightarrow> bool" where
  "obeys srv jsonb \<longleftrightarrow>
     (\<forall>w i req reply w'. sent req \<longrightarrow> serve srv w i req reply w' \<longrightarrow>
        permitted jsonb i (observed srv w) req reply (observed srv w'))"

definition unused :: "'w server \<Rightarrow> 'w \<Rightarrow> bool" where
  "unused srv w \<longleftrightarrow> base (observed srv w) = no_tables \<and> (\<forall>i. wrote (observed srv w) i = None)"

section \<open>Steps\<close>

text \<open>
  A handler with the answers it has had in the call it is in.  A step is a new request, a statement
  that is answered, or a handler that goes on to its next call; a statement the database does not
  answer yet is a handler that does not move.
\<close>

record 'w pg_sys =
  world :: 'w
  sessions :: "(request \<times> proc \<times> sql_reply list) list"
  pg_published :: "Event list list"

inductive pg_step :: "'w server \<Rightarrow> Service \<Rightarrow> 'w pg_sys \<Rightarrow> 'w pg_sys \<Rightarrow> bool" for srv sv where
  pg_arrive: "command sv q p \<Longrightarrow> pg_step srv sv c (c\<lparr>sessions := sessions c @ [(q, p, [])]\<rparr>)"
| pg_answer: "i < length (sessions c) \<Longrightarrow> sessions c ! i = (q, p, rs) \<Longrightarrow> moves p rs = Inl req \<Longrightarrow>
    serve srv (world c) i req reply w' \<Longrightarrow>
    pg_step srv sv c (c\<lparr>world := w', sessions := (sessions c)[i := (q, p, rs @ [reply])]\<rparr>)"
| pg_move: "i < length (sessions c) \<Longrightarrow> sessions c ! i = (q, p, rs) \<Longrightarrow> moves p rs = Inr (p', pub) \<Longrightarrow>
    pg_step srv sv c (c\<lparr>sessions := (sessions c)[i := (q, p', [])], pg_published := pg_published c @ pub\<rparr>)"

inductive pg_reaches :: "'w server \<Rightarrow> Service \<Rightarrow> 'w \<Rightarrow> nat \<Rightarrow> 'w pg_sys \<Rightarrow> bool" for srv sv w0 where
  pg_start: "pg_reaches srv sv w0 0 \<lparr>world = w0, sessions = [], pg_published = []\<rparr>"
| pg_further: "pg_reaches srv sv w0 n c \<Longrightarrow> pg_step srv sv c c' \<Longrightarrow> pg_reaches srv sv w0 (Suc n) c'"

end
