(* ===== verification/Backends.thy ===== *)
theory Backends imports Commands Postgres begin

text \<open>
  The two event stores are interchangeable for the commands: a handler that runs on Postgres does
  what it does in memory.  Global sequence numbers, times and the form of a payload may differ;
  \<open>alike\<close> is equality up to those.
\<close>

section \<open>Events alike\<close>

text \<open>Two payloads every consumer of the program reads the same.\<close>

definition decodes_alike :: "payload \<Rightarrow> payload \<Rightarrow> bool" where
  "decodes_alike p q \<longleftrightarrow>
     unmarshal_AccountOpened p = unmarshal_AccountOpened q \<and>
     unmarshal_FundsDeposited p = unmarshal_FundsDeposited q \<and>
     unmarshal_FundsWithdrawn p = unmarshal_FundsWithdrawn q \<and>
     unmarshal_InventoryAdjusted p = unmarshal_InventoryAdjusted q \<and>
     unmarshal_StockReserved p = unmarshal_StockReserved q \<and>
     unmarshal_StockReleased p = unmarshal_StockReleased q"

definition alike :: "Event \<Rightarrow> Event \<Rightarrow> bool" where
  "alike e f \<longleftrightarrow>
     event_key e = event_key f \<and> Event.Version e = Event.Version f \<and> Event.EventType e = Event.EventType f \<and>
     DedupeKey (Metadata e) = DedupeKey (Metadata f) \<and> decodes_alike (Event.Payload e) (Event.Payload f)"

lemma alike_refl [simp]: "alike e e"
  by (simp add: alike_def decodes_alike_def)

lemma alike_trans: "alike e f \<Longrightarrow> alike f g \<Longrightarrow> alike e g"
  by (simp add: alike_def decodes_alike_def)

abbreviation alikes :: "Event list \<Rightarrow> Event list \<Rightarrow> bool" where
  "alikes \<equiv> list_all2 alike"

lemma alikes_filter:
  "alikes L M \<Longrightarrow> (\<And>e f. alike e f \<Longrightarrow> P e \<longleftrightarrow> P f) \<Longrightarrow> alikes (filter P L) (filter P M)"
  by (induction rule: list_all2_induct) auto

lemma alikes_stream: "alikes L M \<Longrightarrow> alikes (stream_events L k) (stream_events M k)"
  unfolding stream_events_def by (rule alikes_filter) (auto simp: alike_def)

lemma alikes_version: "alikes L M \<Longrightarrow> stream_version L = stream_version M"
  using alikes_stream [THEN list_all2_lengthD] by (auto simp: stream_version_def)

lemma alike_account_step: "alike e f \<Longrightarrow> account_step st e = account_step st f"
  by (auto simp: account_step_def alike_def decodes_alike_def Let_def split: sum.split)

lemma alike_inventory_step: "alike e f \<Longrightarrow> inventory_step st e = inventory_step st f"
  by (auto simp: inventory_step_def alike_def decodes_alike_def Let_def split: sum.split)

lemma alikes_folds:
  assumes "alikes h h'"
  shows "FoldAccount i h = FoldAccount i h'" and "FoldInventory i h = FoldInventory i h'"
proof -
  have "account_loop st h = account_loop st h'" for st
    using assms by (induction arbitrary: st rule: list_all2_induct)
      (auto simp: alike_account_step split: sum.split)
  moreover have "inventory_loop it h = inventory_loop it h'" for it
    using assms by (induction arbitrary: it rule: list_all2_induct)
      (auto simp: alike_inventory_step split: sum.split)
  ultimately show "FoldAccount i h = FoldAccount i h'" "FoldInventory i h = FoldInventory i h'"
    by (simp_all add: FoldAccount_def FoldInventory_def)
qed

lemma alikes_last: "alikes es es' \<Longrightarrow> es \<noteq> [] \<Longrightarrow> alike (last es) (last es')"
  by (induction rule: list_all2_induct) auto

lemma alikes_duplicate:
  assumes "alikes es es'"
  shows "duplicateResult es t i = duplicateResult es' t i"
proof -
  have "alikes (stream_events es (t, i)) (stream_events es' (t, i))" by (rule alikes_stream [OF assms])
  with alikes_last [OF this] show ?thesis by (auto simp: duplicateResult_eq alike_def)
qed

lemma recorded_alike:
  "recorded_as key L as es \<Longrightarrow> recorded_as key M as fs \<Longrightarrow> alikes L M \<Longrightarrow> alikes es fs"
proof (induction key L as es arbitrary: M fs rule: recorded_as.induct)
  case (3 key L a as e es)
  from "3.prems"(2) obtain f fs' where fs: "fs = f # fs'" "records key M a f" "recorded_as key (M @ [f]) as fs'"
    by (cases fs) auto
  have "alike e f"
    using "3.prems"(1) fs(2) alikes_version [OF "3.prems"(3)] by (auto simp: records_def alike_def decodes_alike_def)
  with "3.IH" [OF _ fs(3)] "3.prems" fs(1) show ?case by (simp add: list_all2_appendI)
qed auto

lemma recorded_payloads:
  "recorded_as key L as es \<Longrightarrow> e \<in> set es \<Longrightarrow> \<exists>a\<in>set as. Event.Payload e = AppendEvent.Payload a"
  by (induction key L as es rule: recorded_as.induct) (auto simp: records_def)

text \<open>The payloads the commands write, and what a store must keep of them.\<close>

inductive produced :: "payload \<Rightarrow> bool" where
  "produced (marshal_AccountOpened a)"
| "produced (marshal_FundsDeposited d)"
| "produced (marshal_FundsWithdrawn w)"
| "produced (marshal_InventoryAdjusted j)"
| "produced (marshal_StockReserved r)"
| "produced (marshal_StockReleased s)"

definition keeps_payloads :: "(payload \<Rightarrow> payload) \<Rightarrow> bool" where
  "keeps_payloads jsonb \<longleftrightarrow> (\<forall>p. produced p \<longrightarrow> decodes_alike p (jsonb p))"

section \<open>Handlers that cannot tell\<close>

text \<open>\<open>twins p q\<close>: \<open>p\<close> and \<open>q\<close> make the same calls as long as they are answered alike.\<close>

inductive twins :: "proc \<Rightarrow> proc \<Rightarrow> bool" where
  twin_return: "twins (Return r) (Return r)"
| twin_panic: "twins Panic Panic"
| twin_lookup: "(\<And>es es' found. alikes es es' \<Longrightarrow> twins (f (Inr (es, found))) (g (Inr (es', found)))) \<Longrightarrow>
    twins (DoLookupDedupe key f) (DoLookupDedupe key g)"
| twin_load: "(\<And>h h'. alikes h h' \<Longrightarrow> twins (f (Inr h)) (g (Inr h'))) \<Longrightarrow>
    twins (DoLoadStream ty aid f) (DoLoadStream ty aid g)"
| twin_append: "\<forall>a\<in>set as. produced (AppendEvent.Payload a) \<Longrightarrow>
    twins (f (Inl ErrVersionConflict)) (g (Inl ErrVersionConflict)) \<Longrightarrow>
    (\<And>es es' dup. alikes es es' \<Longrightarrow> twins (f (Inr (es, dup))) (g (Inr (es', dup)))) \<Longrightarrow>
    twins (DoAppend key as f) (DoAppend key as g)"
| twin_publish: "alikes es es' \<Longrightarrow> twins p q \<Longrightarrow> twins (DoPublish es p) (DoPublish es' q)"

lemma twins_appliedResult: "alikes es es' \<Longrightarrow> twins (appliedResult sv es) (appliedResult sv es')"
  by (cases es; cases es')
     (auto simp: appliedResult_def publish_def alike_def intro!: twins.intros)

text \<open>Decisions that read only what is alike, and write what the program writes.\<close>

definition discreet :: "decision \<Rightarrow> bool" where
  "discreet d \<longleftrightarrow> (\<forall>h h'. alikes h h' \<longrightarrow> d h = d h') \<and> (\<forall>h et p v. d h = Inr (et, p, v) \<longrightarrow> produced p)"

lemma discreet_account: "(\<And>ev. produced (m ev)) \<Longrightarrow> discreet (account_decision i dec et m)"
proof -
  assume m: "\<And>ev. produced (m ev)"
  have "account_decision i dec et m h = account_decision i dec et m h'" if "alikes h h'" for h h'
    by (simp add: account_decision_def alikes_folds(1) [OF that])
  with m show ?thesis unfolding discreet_def
    by (auto simp: account_decision_def split: sum.splits)
qed

lemma discreet_inventory: "(\<And>ev. produced (m ev)) \<Longrightarrow> discreet (inventory_decision i dec et m)"
proof -
  assume m: "\<And>ev. produced (m ev)"
  have "inventory_decision i dec et m h = inventory_decision i dec et m h'" if "alikes h h'" for h h'
    by (simp add: inventory_decision_def alikes_folds(2) [OF that])
  with m show ?thesis unfolding discreet_def
    by (auto simp: inventory_decision_def split: sum.splits)
qed

lemma discreet_decisions [simp]:
  "discreet (open_decision i n)" "discreet (deposit_decision i n reason)" "discreet (withdraw_decision i n reason)"
  "discreet (adjust_decision i d reason)" "discreet (reserve_decision i q ord)" "discreet (release_decision i q ord)"
  by (simp_all add: decision_defs [abs_def] discreet_account discreet_inventory produced.intros)

lemma twins_cmd_loop:
  assumes "discreet d"
  shows "twins (cmd_loop sv k d key plan a) (cmd_loop sv k d key plan a)"
proof (induction "attempts_left plan a" arbitrary: a rule: less_induct)
  case less
  have same: "d h = d h'" if "alikes h h'" for h h' using assms that by (simp add: discreet_def)
  have written: "produced p" if "d h = Inr (et, p, v)" for h et p v
    using assms that unfolding discreet_def by blast
  show ?case
    by (subst (1 2) cmd_loop.simps)
       (auto simp: less attempts_left_decr same alikes_duplicate intro!: twins.intros twins_appliedResult
         split: sum.split, erule written)
qed

lemma twins_cmd:
  assumes "discreet d"
  shows "twins (cmd sv k d key plan) (cmd sv k d key plan)"
  unfolding cmd_def Let_def
  by (auto simp: alikes_duplicate intro!: twins.intros twins_cmd_loop [OF assms])

lemma twins_Transfer_loop:
  "twins (Transfer_loop sv i j n key reason a) (Transfer_loop sv i j n key reason a)"
proof (induction "nat (sint (maxRetries sv) - sint a)" arbitrary: a rule: less_induct)
  case less
  have again: "twins (Transfer_loop sv i j n key reason (a + 1)) (Transfer_loop sv i j n key reason (a + 1))"
    if "sint a < sint (maxRetries sv)"
    using that by (intro less) (simp add: sint_suc_no_overflow)
  let ?append = "\<lambda>w v d v'. DoAppend key (transfer_batch i j w v d v')
      (\<lambda>r. case r of Inl err \<Rightarrow> if errors_is err ErrVersionConflict \<and> sint a < sint (maxRetries sv)
             then Transfer_loop sv i j n key reason (a + 1) else Return (Inl err)
         | Inr (evs, dup) \<Rightarrow> if dup then Return (Inr (duplicateResult evs AggregateTypeAccount i))
             else appliedResult sv evs)"
  have append: "twins (?append w v d v') (?append w v d v')" for w v d v'
    by (auto simp: alikes_duplicate transfer_batch_def intro!: again twins.intros twins_appliedResult produced.intros)
  show ?case
    by (subst (1 2) Transfer_loop_unfold)
       (auto simp: loadAccount_def alikes_folds intro!: twin_load twin_return append split: sum.split)
qed

lemma twins_handler: "handler sv k key p \<Longrightarrow> twins p p"
proof (induction rule: handler.induct)
  case (h_transfer i key j n)
  show ?case
    by (auto simp: Transfer_def Let_def alikes_duplicate simp del: append.simps
        intro!: twins.intros twins_Transfer_loop)
qed (simp_all add: one_stream_handlers OpenAccount_cmd twins_cmd)

section \<open>Running on two stores\<close>

text \<open>The run of a handler on a store only asks what the store takes.\<close>

primrec accepted ::
  "'t Store \<Rightarrow> (string \<Rightarrow> bool) \<Rightarrow> (string \<Rightarrow> AppendEvent list \<Rightarrow> 't \<Rightarrow> bool) \<Rightarrow> proc \<Rightarrow> 't \<Rightarrow> bool" where
  "accepted T text_ok takes (Return r) t \<longleftrightarrow> True"
| "accepted T text_ok takes Panic t \<longleftrightarrow> True"
| "accepted T text_ok takes (DoLookupDedupe key f) t \<longleftrightarrow>
     text_ok key \<and> accepted T text_ok takes (f (LookupDedupe T key t)) t"
| "accepted T text_ok takes (DoLoadStream ty aid f) t \<longleftrightarrow>
     text_ok ty \<and> text_ok aid \<and> accepted T text_ok takes (f (LoadStream T ty aid t)) t"
| "accepted T text_ok takes (DoAppend key as f) t \<longleftrightarrow> text_ok key \<and> takes key as t \<and>
     accepted T text_ok takes (f (fst (Append T key as t))) (snd (Append T key as t))"
| "accepted T text_ok takes (DoPublish es p) t \<longleftrightarrow> accepted T text_ok takes p t"

definition same_tables ::
  "Event list \<Rightarrow> (string \<rightharpoonup> Event list) \<Rightarrow> Event list \<Rightarrow> (string \<rightharpoonup> Event list) \<Rightarrow> bool" where
  "same_tables L d M d' \<longleftrightarrow> alikes L M \<and> (\<forall>key. rel_option alikes (d key) (d' key))"

context event_store
begin

text \<open>One \<open>Append\<close> on both.\<close>

lemma append_twins:
  assumes T: "durable_store T log' inv' text_ok seen' stored takes"
    and room: "\<forall>key as t. inv' t \<longrightarrow> takes key as t \<longrightarrow> length (log' t) + length as \<le> log_capacity"
    and keeps: "\<forall>e. produced (Event.Payload e) \<longrightarrow> alike e (stored e)"
    and inv: "inv s" "inv' t" and same: "same_tables (log s) (seen s) (log' t) (seen' t)"
    and as: "\<forall>a\<in>set as. produced (AppendEvent.Payload a)" and ok: "text_ok key" "takes key as t"
    and run: "Append S key as s = (r, s')" "Append T key as t = (q, t')"
  shows "inv s' \<and> inv' t' \<and> same_tables (log s') (seen s') (log' t') (seen' t') \<and>
    (r = Inl ErrVersionConflict \<and> q = Inl ErrVersionConflict \<or>
     (\<exists>es es' dup. r = Inr (es, dup) \<and> q = Inr (es', dup) \<and> alikes es es'))"
proof -
  have logs: "alikes (log s) (log' t)" and seen: "rel_option alikes (seen s k) (seen' t k)" for k
    using same by (simp_all add: same_tables_def)
  have "length (log s) + length as \<le> log_capacity"
    using room inv(2) ok(2) list_all2_lengthD [OF logs] by fastforce
  from inv(1) this run(1) show ?thesis
  proof (cases rule: append_cases)
    case (duplicate es)
    with seen [of key] obtain es' where es': "seen' t key = Some es'" "alikes es es'" by (auto elim: option.rel_cases)
    with durable_store.append_duplicate [OF T inv(2) ok(1) duplicate(1) es'(1) run(2)] duplicate same
    show ?thesis by auto
  next
    case conflict
    then have "key = [] \<or> seen' t key = None" using seen [of key] by auto
    moreover have "\<not> versions_match (stream_version (log' t)) as"
      using conflict alikes_version [OF logs] by simp
    ultimately show ?thesis
      using durable_store.append_conflict [OF T inv(2) _ ok(2) _ run(2)] conflict same by auto
  next
    case (fresh es)
    then have "key = [] \<or> seen' t key = None" using seen [of key] by auto
    moreover have "versions_match (stream_version (log' t)) as"
      using fresh alikes_version [OF logs] by simp
    ultimately obtain es' where es': "q = Inr (es', False)" "recorded_as key (log' t) as es'"
      "log' t' = log' t @ map stored es'" "inv' t'"
      "seen' t' = (if key = [] then seen' t else (seen' t)(key \<mapsto> map stored es'))"
      using durable_store.append_fresh [OF T inv(2) _ ok(2) _ run(2)] by blast
    have es: "alikes es es'" by (rule recorded_alike [OF fresh(4) es'(2) logs])
    moreover have "alikes es' (map stored es')"
      using recorded_payloads [OF es'(2)] as keeps
      by (auto simp: list_all2_map2 list_all2_same) metis
    ultimately have "alikes es (map stored es')"
      using list_all2_trans [of alike alike alike es es'] alike_trans by blast
    with fresh es' es logs seen show ?thesis
      by (auto simp: same_tables_def intro: list_all2_appendI)
  qed
qed

text \<open>A whole run.\<close>

lemma run_twins:
  assumes T: "durable_store T log' inv' text_ok seen' stored takes"
    and room: "\<forall>key as t. inv' t \<longrightarrow> takes key as t \<longrightarrow> length (log' t) + length as \<le> log_capacity"
    and keeps: "\<forall>e. produced (Event.Payload e) \<longrightarrow> alike e (stored e)"
    and "twins p q" and "inv s" and "inv' t" and "same_tables (log s) (seen s) (log' t) (seen' t)"
    and "accepted T text_ok takes q t"
  shows "\<exists>r s' t' pub pub'. run S p s = (r, s', pub) \<and> run T q t = (r, t', pub') \<and> inv s' \<and> inv' t' \<and>
    same_tables (log s') (seen s') (log' t') (seen' t') \<and> list_all2 alikes pub pub'"
  using assms(4-8)
proof (induction arbitrary: s t rule: twins.induct)
  case (twin_lookup f g key)
  have seen: "rel_option alikes (seen s key) (seen' t key)" using twin_lookup.prems(3) by (simp add: same_tables_def)
  have ok: "text_ok key" using twin_lookup.prems(4) by simp
  then obtain es es' found where "LookupDedupe S key s = Inr (es, found)" "LookupDedupe T key t = Inr (es', found)"
    "alikes es es'"
    using lookup [OF twin_lookup.prems(1), of key] durable_store.lookup [OF T twin_lookup.prems(2) ok] seen
    by (cases "seen s key"; cases "seen' t key"; cases "key = []") auto
  with twin_lookup.IH [OF this(3) twin_lookup.prems(1-3), of found] twin_lookup.prems(4) show ?case by simp
next
  case (twin_load f g ty aid)
  then have "LoadStream S ty aid s = Inr (stream_events (log s) (ty, aid))"
    "LoadStream T ty aid t = Inr (stream_events (log' t) (ty, aid))"
    using load_stream event_log.load_stream [OF durable_store.axioms(1) [OF T]] by simp_all
  moreover have "alikes (stream_events (log s) (ty, aid)) (stream_events (log' t) (ty, aid))"
    using twin_load.prems(3) by (auto simp: same_tables_def intro: alikes_stream)
  ultimately show ?case using twin_load.IH twin_load.prems by simp
next
  case (twin_append as f g key)
  obtain r1 s1 where r1: "Append S key as s = (r1, s1)" by fastforce
  obtain q1 t1 where q1: "Append T key as t = (q1, t1)" by fastforce
  have "text_ok key" "takes key as t" using twin_append.prems(4) by simp_all
  from append_twins [OF T room keeps twin_append.prems(1-3) twin_append.hyps(1) this r1 q1]
  have step: "inv s1" "inv' t1" "same_tables (log s1) (seen s1) (log' t1) (seen' t1)"
    "r1 = Inl ErrVersionConflict \<and> q1 = Inl ErrVersionConflict \<or>
     (\<exists>es es' dup. r1 = Inr (es, dup) \<and> q1 = Inr (es', dup) \<and> alikes es es')" by blast+
  have left: "accepted T text_ok takes (g q1) t1" using twin_append.prems(4) q1 by simp
  have "\<exists>r s' t' pub pub'. run S (f r1) s1 = (r, s', pub) \<and> run T (g q1) t1 = (r, t', pub') \<and> inv s' \<and> inv' t' \<and>
    same_tables (log s') (seen s') (log' t') (seen' t') \<and> list_all2 alikes pub pub'"
    using step(4) twin_append.IH(1) [OF step(1-3)] twin_append.IH(2) [OF _ step(1-3)] left by auto
  with r1 q1 show ?case by simp
next
  case (twin_publish es es' p q)
  from twin_publish.IH [OF twin_publish.prems(1-3)] twin_publish.prems(4) obtain r s' t' pub pub' where
    "run S p s = (r, s', pub)" "run T q t = (r, t', pub')" "inv s'" "inv' t'"
    "same_tables (log s') (seen s') (log' t') (seen' t')" "list_all2 alikes pub pub'" by auto
  with twin_publish.hyps(1) show ?case by simp
qed auto

end

text \<open>
  C15: Postgres and memory are interchangeable for the commands.  From stores that hold alike
  events under the same keys, every command, whatever its arguments and expected version, answers
  the same on both (result, error or panic), publishes alike events, and leaves alike events
  behind; provided the database accepts what the command sends and gives back payloads that decode
  to what was written.
\<close>

theorem postgres_like_memory:
  assumes "event_store_sql drv db text_ok json_ok jsonb" and "keeps_payloads jsonb"
    and "handler sv k key p" and "mem_inv s" and "pg_inv db d"
    and "same_tables (events s) (dedupe s) (log_of (tables db d)) (pg_seen (tables db d))"
    and "accepted (postgres_Store drv) text_ok (pg_accepts db text_ok json_ok) p d"
  shows "\<exists>r s' d' pub pub'. run memory_Store p s = (r, s', pub) \<and> run (postgres_Store drv) p d = (r, d', pub') \<and>
    mem_inv s' \<and> pg_inv db d' \<and> list_all2 alikes pub pub' \<and>
    same_tables (events s') (dedupe s') (log_of (tables db d')) (pg_seen (tables db d'))"
proof -
  have keeps: "\<forall>e. produced (Event.Payload e) \<longrightarrow> alike e (pg_stored jsonb e)"
    using assms(2) by (simp add: keeps_payloads_def alike_def pg_stored_def event_key_def)
  have room: "\<forall>key as t. pg_inv db t \<longrightarrow> pg_accepts db text_ok json_ok key as t \<longrightarrow>
      length (log_of (tables db t)) + length as \<le> log_capacity"
    by (simp add: pg_accepts_def log_of_def)
  from mem.run_twins [OF pg_durable_store [OF assms(1)] room keeps twins_handler [OF assms(3)] assms(4-7)]
  show ?thesis by blast
qed

section \<open>An account opened on Postgres\<close>

lemma find_field_none: "find_field [] key = None"
  by (simp add: find_field_def)

lemmas member_defs = string_member_def int64_member_def string_member_omitempty_def

lemma jsonb_form_keeps: "keeps_payloads jsonb_form"
  unfolding keeps_payloads_def
proof (intro allI impI)
  have range: "- 9223372036854775808 \<le> sint i" "sint i < 9223372036854775808" for i :: int64
    using sint64_ge [of i] sint64_lt [of i] by simp_all
  fix p assume "produced p"
  then show "decodes_alike p (jsonb_form p)"
    by cases (simp_all add: decodes_alike_def jsonb_form_def marshal_defs member_defs unmarshal_defs
        Unmarshal_def find_field_none int64_field_def string_field_def ascii_lower_def range)
qed

lemma accepted_ends [simp]: "accepted T text_ok takes (appliedResult sv es) t"
  by (simp add: appliedResult_def publish_def split: list.split)

lemma open_accepted:
  "accepted (postgres_Store log_driver) no_nul (pg_accepts log_database no_nul is_json)
     (OpenAccount demo_sv ''alice'' 100 ''k1'') empty_log"
proof -
  have "fst (pg_LookupDedupe log_driver ''k1'' empty_log) = Inr ([], False)"
    "fst (pg_LoadStream log_driver AggregateTypeAccount ''alice'' empty_log) = Inr []" by code_simp+
  moreover have "pg_accepts log_database no_nul is_json ''k1''
      [\<lparr>AppendEvent.AggregateType = AggregateTypeAccount, AggregateID = ''alice'', EventType = EventAccountOpened,
        Payload = marshal_AccountOpened a, ExpectedVersion = v\<rparr>] empty_log" for a v
    by (simp add: pg_accepts_def pg_takes_def no_nul_def is_json_def marshal_defs AggregateTypeAccount_def
        event_type_defs empty_log_def log_capacity_def)
  ultimately show ?thesis
    by (simp add: OpenAccount_def Let_def loadAccount_def DecideOpenAccount_def no_nul_def AggregateTypeAccount_def
        split: sum.split prod.split)
qed

theorem postgres_like_memory_witness:
  "fst (run (postgres_Store log_driver) (OpenAccount demo_sv ''alice'' 100 ''k1'') empty_log)
   = Some (Inr \<lparr>Applied = True, Duplicate = False, NewVersion = 1\<rparr>)"
proof -
  have "same_tables (events (mem_New (\<lambda>_. 0))) (dedupe (mem_New (\<lambda>_. 0))) (log_of (tables log_database empty_log))
      (pg_seen (tables log_database empty_log))"
    by (simp add: same_tables_def mem_New_def)
  from postgres_like_memory [OF log_driver_sql jsonb_form_keeps h_open mem_inv_New empty_log_inv this open_accepted]
  obtain r s' d' pub pub' where
    "run memory_Store (OpenAccount demo_sv ''alice'' 100 ''k1'') (mem_New (\<lambda>_. 0)) = (r, s', pub)"
    "run (postgres_Store log_driver) (OpenAccount demo_sv ''alice'' 100 ''k1'') empty_log = (r, d', pub')" by blast
  moreover have "fst (run memory_Store (OpenAccount demo_sv ''alice'' 100 ''k1'') (mem_New (\<lambda>_. 0)))
      = Some (Inr \<lparr>Applied = True, Duplicate = False, NewVersion = 1\<rparr>)" by code_simp
  ultimately show ?thesis by simp
qed

end
