(* ===== verification/PgStatements.thy ===== *)
theory PgStatements imports PgSessions Backends begin

text \<open>
  A call on the Postgres store, statement by statement: which statement it waits for after the
  answers it has had, and what is left of it after the next answer.
\<close>

section \<open>What is left of a call\<close>

text \<open>\<open>after m rs k\<close>: with the answers \<open>rs\<close> behind it, \<open>m\<close> goes on as \<open>k\<close>.\<close>

definition after :: "(replay \<Rightarrow> 'a) \<Rightarrow> sql_reply list \<Rightarrow> (replay \<Rightarrow> 'a) \<Rightarrow> bool" where
  "after m rs k \<longleftrightarrow> (\<forall>more. m (fed (rs @ more)) = k (fed more))"

lemma after_Nil: "after m [] m"
  by (simp add: after_def)

lemma after_snoc: "after m rs k \<Longrightarrow> (\<And>more. k (fed (r # more)) = k' (fed more)) \<Longrightarrow> after m (rs @ [r]) k'"
  by (simp add: after_def)

lemma after_now: "after m rs k \<Longrightarrow> m (fed rs) = k (fed [])"
  by (metis after_def append_Nil2)

text \<open>A computation that waits for one answer.\<close>

definition asks :: "(replay, 'a) sql \<Rightarrow> sql_request \<Rightarrow> (sql_reply \<Rightarrow> error + 'a) \<Rightarrow> bool" where
  "asks m req rd \<longleftrightarrow> (\<exists>e. m (fed []) = (Inl e, \<lparr>replies = [], waiting = Some req\<rparr>)) \<and>
     (\<forall>r more. m (fed (r # more)) = (rd r, fed more))"

definition via :: "string \<Rightarrow> (sql_reply \<Rightarrow> error + 'a) \<Rightarrow> sql_reply \<Rightarrow> error + 'a" where
  "via msg rd r = (case rd r of Inl err \<Rightarrow> Inl (Errorf msg err) | Inr x \<Rightarrow> Inr x)"

definition scanned :: "(row \<Rightarrow> error + 'a) \<Rightarrow> sql_reply \<Rightarrow> error + 'a" where
  "scanned sc r = (case read_row r of Inl err \<Rightarrow> Inl err | Inr c \<Rightarrow> sc c)"

definition collected :: "string \<Rightarrow> string \<Rightarrow> sql_reply \<Rightarrow> error + Event list" where
  "collected msg msg' r = (case read_rows r of Inl err \<Rightarrow> Inl (Errorf msg' err) | Inr (rs, e) \<Rightarrow> scan_rows msg rs e [])"

named_theorems statements

lemma asks_driver [statements]:
  "asks (wrapping msg (Exec replay_driver q stmt args)) (ExecStmt q stmt args) (via msg read_done)"
  "asks (wrapping msg (Commit replay_driver h)) CommitTx (via msg read_done)"
  "asks (wrapping msg (scanning sc (QueryRow replay_driver q stmt args))) (QueryRowStmt q stmt args) (via msg (scanned sc))"
  "asks (collecting msg (wrapping msg' (Query replay_driver q stmt args))) (QueryStmt q stmt args) (collected msg msg')"
  by (auto simp: asks_def replay_driver_def ask_def wrapping_def scanning_def collecting_def fed_def via_def scanned_def
      collected_def split: sum.split)

lemma asks_dedupe [statements]:
  "asks (loadDedupeEvents replay_driver q key) (QueryStmt q sql_dedupe_events [Text key])
     (collected ''postgres store: scan dedupe event'' ''postgres store: query dedupe events'')"
  unfolding loadDedupeEvents_def by (rule asks_driver)

section \<open>The end of a call\<close>

text \<open>\<open>Append\<close> ends with the deferred \<open>Rollback\<close>, whatever its result.\<close>

definition closing :: "(replay, 'a) sql \<Rightarrow> (replay, 'a) sql" where
  "closing m d = (case m d of (r, d') \<Rightarrow> (r, snd (Rollback replay_driver () d')))"

definition handing :: "('a \<Rightarrow> proc) \<Rightarrow> (replay \<Rightarrow> 'a \<times> replay) \<Rightarrow> replay \<Rightarrow> proc \<times> replay" where
  "handing f m d = (case m d of (r, d') \<Rightarrow> (f r, d'))"

text \<open>The call will return \<open>p\<close>, now or after a rollback, whatever that answers.\<close>

definition ends :: "(replay \<Rightarrow> proc \<times> replay) \<Rightarrow> proc \<Rightarrow> bool" where
  "ends k p \<longleftrightarrow> (\<forall>more. k (fed more) = (p, fed more)) \<or>
     (\<exists>p'. k (fed []) = (p', \<lparr>replies = [], waiting = Some RollbackTx\<rparr>)) \<and> (\<forall>r more. k (fed (r # more)) = (p, fed more))"

lemma ends_now: "ends (\<lambda>d. (p, d)) p"
  by (simp add: ends_def)

lemma ends_closing: "ends (handing f (closing (\<lambda>d. (r, d)))) (f r)"
  by (simp add: ends_def handing_def closing_def replay_driver_def ask_def fed_def)

text \<open>Before the last statement.\<close>

definition waits :: "(replay \<Rightarrow> proc \<times> replay) \<Rightarrow> sql_request \<Rightarrow> (sql_reply \<Rightarrow> replay \<Rightarrow> proc \<times> replay) \<Rightarrow> bool" where
  "waits k req next_k \<longleftrightarrow> (\<exists>p. k (fed []) = (p, \<lparr>replies = [], waiting = Some req\<rparr>)) \<and>
     (\<forall>r more. k (fed (r # more)) = next_k r (fed more))"

lemma waits_closing:
  assumes "asks m req rd"
  shows "waits (handing f (closing (sql_bind m g))) req
    (\<lambda>r. case rd r of Inl err \<Rightarrow> handing f (closing (\<lambda>d. (Inl err, d))) | Inr x \<Rightarrow> handing f (closing (g x)))"
  using assms by (auto simp: waits_def asks_def handing_def closing_def sql_bind_def fed_def replay_driver_def ask_def
      split: sum.split)

lemma waits_bind:
  assumes "asks m req rd"
  shows "waits (handing f (sql_bind m g)) req
    (\<lambda>r. case rd r of Inl err \<Rightarrow> (\<lambda>d. (f (Inl err), d)) | Inr x \<Rightarrow> handing f (g x))"
  using assms by (auto simp: waits_def asks_def handing_def sql_bind_def fed_def split: sum.split)

lemma waits_only:
  assumes "asks m req rd"
  shows "waits (handing f m) req (\<lambda>r d. (f (rd r), d))"
  using assms by (auto simp: waits_def asks_def handing_def fed_def)

lemma waits_moves: "after (calling p) rs k \<Longrightarrow> waits k req nk \<Longrightarrow> moves p rs = Inl req"
  by (auto simp: moves_def waits_def dest!: after_now)

lemma waits_after: "after m rs k \<Longrightarrow> waits k req nk \<Longrightarrow> after m (rs @ [r]) (nk r)"
  unfolding waits_def by (rule after_snoc) blast+

section \<open>The statements of Append\<close>

lemma sql_bind_assoc: "sql_bind (sql_bind m f) g = sql_bind m (\<lambda>x. sql_bind (f x) g)"
  by (auto simp: sql_bind_def fun_eq_iff split: sum.split prod.split)

lemma sql_bind_ends [simp]: "sql_bind (sql_fail e) f = sql_fail e" "sql_bind (sql_return x) f = f x"
  by (auto simp: sql_bind_def fun_eq_iff)

lemma sql_bind_if: "sql_bind (if b then m else n) f = (if b then sql_bind m f else sql_bind n f)"
  by simp

text \<open>
  What is left of \<open>Append\<close> before the first event of a batch, and before each further statement for
  that event.
\<close>

definition todo :: "string \<Rightarrow> AppendEvent list \<Rightarrow> Event list \<Rightarrow> (replay, Event list \<times> bool) sql" where
  "todo key as out =
     sql_bind (pg_append_loop replay_driver (Tx ()) key as out) (\<lambda>out.
     sql_bind (wrapping ''postgres store: commit'' (Commit replay_driver ())) (\<lambda>_.
     sql_return (out, False)))"

definition new_event :: "string \<Rightarrow> AppendEvent \<Rightarrow> int64 \<Rightarrow> int64 \<times> time \<Rightarrow> Event" where
  "new_event key a cur gt =
     \<lparr>GlobalSeq = fst gt, AggregateType = AppendEvent.AggregateType a, AggregateID = AppendEvent.AggregateID a,
      Version = cur + 1, EventType = AppendEvent.EventType a, Payload = AppendEvent.Payload a,
      Metadata = \<lparr>DedupeKey = key, CorrelationID = []\<rparr>, CreatedAt = snd gt\<rparr>"

definition linking :: "string \<Rightarrow> AppendEvent \<Rightarrow> AppendEvent list \<Rightarrow> Event list \<Rightarrow> int64 \<Rightarrow> int64 \<times> time \<Rightarrow>
    (replay, Event list \<times> bool) sql" where
  "linking key a as out cur gt =
     sql_bind (if key \<noteq> [] then wrapping ''postgres store: link dedupe event''
                      (Exec replay_driver (Tx ()) sql_link_event [Text key, BigInt (fst gt)])
               else sql_return ()) (\<lambda>_. todo key as (out @ [new_event key a cur gt]))"

definition bumping :: "string \<Rightarrow> AppendEvent \<Rightarrow> AppendEvent list \<Rightarrow> Event list \<Rightarrow> int64 \<Rightarrow> int64 \<times> time \<Rightarrow>
    (replay, Event list \<times> bool) sql" where
  "bumping key a as out cur gt =
     sql_bind (wrapping ''postgres store: bump stream version'' (Exec replay_driver (Tx ()) sql_bump_stream
       [BigInt (cur + 1), Text (AppendEvent.AggregateType a), Text (AppendEvent.AggregateID a)])) (\<lambda>_.
     linking key a as out cur gt)"

definition inserting :: "string \<Rightarrow> AppendEvent \<Rightarrow> AppendEvent list \<Rightarrow> Event list \<Rightarrow> int64 \<Rightarrow> (replay, Event list \<times> bool) sql" where
  "inserting key a as out cur =
     sql_bind (wrapping ''postgres store: insert event'' (scanning scan_seq_time (QueryRow replay_driver (Tx ()) sql_insert_event
       [Text (AppendEvent.AggregateType a), Text (AppendEvent.AggregateID a), BigInt (cur + 1),
        Text (AppendEvent.EventType a), Jsonb (AppendEvent.Payload a), if key \<noteq> [] then Text key else Null])))
     (bumping key a as out cur)"

definition locking :: "string \<Rightarrow> AppendEvent \<Rightarrow> AppendEvent list \<Rightarrow> Event list \<Rightarrow> (replay, Event list \<times> bool) sql" where
  "locking key a as out =
     sql_bind (wrapping ''postgres store: lock stream row'' (scanning scan_int64 (QueryRow replay_driver (Tx ())
       sql_lock_stream [Text (AppendEvent.AggregateType a), Text (AppendEvent.AggregateID a)]))) (\<lambda>cur.
     if ExpectedVersion a \<noteq> NoVersionCheck \<and> ExpectedVersion a \<noteq> cur then sql_fail ErrVersionConflict
     else inserting key a as out cur)"

lemma todo_Nil: "todo key [] out =
    sql_bind (wrapping ''postgres store: commit'' (Commit replay_driver ())) (\<lambda>_. sql_return (out, False))"
  by (simp add: todo_def)

lemma todo_Cons: "todo key (a # as) out =
    sql_bind (wrapping ''postgres store: ensure stream row'' (Exec replay_driver (Tx ()) sql_ensure_stream
      [Text (AppendEvent.AggregateType a), Text (AppendEvent.AggregateID a)])) (\<lambda>_. locking key a as out)"
  by (simp add: pg_append_loop.simps(2) todo_def locking_def inserting_def bumping_def [abs_def] linking_def new_event_def sql_bind_assoc Let_def
      sql_bind_if case_prod_unfold cong: if_cong)

definition reserving :: "string \<Rightarrow> AppendEvent list \<Rightarrow> (replay, Event list \<times> bool) sql" where
  "reserving key as =
     sql_bind (wrapping ''postgres store: reserve dedupe key''
       (Exec replay_driver (Tx ()) sql_reserve [Text key])) (\<lambda>_. todo key as [])"

definition rereading :: "string \<Rightarrow> (replay, Event list \<times> bool) sql" where
  "rereading key =
     sql_bind (loadDedupeEvents replay_driver (Tx ()) key) (\<lambda>es.
     sql_bind (wrapping ''postgres store: commit dedupe read'' (Commit replay_driver ())) (\<lambda>_.
     sql_return (es, True)))"

lemma append_tx_statements: "pg_append_tx replay_driver () key as =
    (if key \<noteq> [] then
       sql_bind (wrapping ''postgres store: check dedupe'' (scanning scan_bool
         (QueryRow replay_driver (Tx ()) sql_exists_for_update [Text key])))
         (\<lambda>exists. if exists then rereading key else reserving key as)
     else todo key as [])"
  by (simp add: pg_append_tx_def Let_def rereading_def reserving_def todo_def cong: if_cong)

lemma waits_Append: "waits (handing f (pg_Append replay_driver key as)) BeginTx
    (\<lambda>r. case read_done r of Inl err \<Rightarrow> (\<lambda>d. (f (Inl (Errorf ''postgres store: begin tx'' err)), d))
       | Inr _ \<Rightarrow> handing f (closing (pg_append_tx replay_driver () key as)))"
  by (auto simp: waits_def handing_def closing_def pg_Append_def replay_driver_def ask_def fed_def split: sum.split)

lemma calling_eqs:
  "calling (DoLookupDedupe key f) = handing f (pg_LookupDedupe replay_driver key)"
  "calling (DoLoadStream ty aid g) = handing g (pg_LoadStream replay_driver ty aid)"
  "calling (DoAppend key as f) = handing f (pg_Append replay_driver key as)"
  by (auto simp: handing_def fun_eq_iff)

end
