(* ===== verification/PgCommitted.thy ===== *)
theory PgCommitted imports PgStatements begin

text \<open>
  The committed tables under concurrent transactions, and what an open transaction has written of a
  batch: the invariant of the database, what the statements that read give back, and the lemma
  that a commit records the batch as the in-memory store would.
\<close>

section \<open>Open transactions do not meet\<close>

definition increasing :: "event_row list \<Rightarrow> bool" where
  "increasing rs \<longleftrightarrow> sorted_wrt (<) (map (\<lambda>r. sint (global_seq r)) rs)"

definition apart :: "event_tables \<Rightarrow> event_tables \<Rightarrow> bool" where
  "apart t u \<longleftrightarrow> idempotency_keys t \<inter> idempotency_keys u = {} \<and> seqs t \<inter> seqs u = {}"

definition state_inv :: "pg_state \<Rightarrow> bool" where
  "state_inv s \<longleftrightarrow>
     (\<forall>i j t u. i \<noteq> j \<longrightarrow> wrote s i = Some t \<longrightarrow> wrote s j = Some u \<longrightarrow>
        holds s i \<inter> holds s j = {} \<and> apart t u) \<and>
     (\<forall>i t. wrote s i = Some t \<longrightarrow> apart t (base s) \<and> increasing (event_rows t)) \<and>
     distinct (map global_seq (event_rows (base s)))"

lemma state_invI:
  assumes "\<And>i j t u. i \<noteq> j \<Longrightarrow> wrote s i = Some t \<Longrightarrow> wrote s j = Some u \<Longrightarrow> holds s i \<inter> holds s j = {} \<and> apart t u"
    and "\<And>i t. wrote s i = Some t \<Longrightarrow> apart t (base s) \<and> increasing (event_rows t)"
    and "distinct (map global_seq (event_rows (base s)))"
  shows "state_inv s"
  using assms unfolding state_inv_def by blast

lemma state_invD:
  assumes "state_inv s"
  shows "i \<noteq> j \<Longrightarrow> wrote s i = Some t \<Longrightarrow> wrote s j = Some u \<Longrightarrow> holds s i \<inter> holds s j = {}"
    and "i \<noteq> j \<Longrightarrow> wrote s i = Some t \<Longrightarrow> wrote s j = Some u \<Longrightarrow> apart t u"
    and "wrote s i = Some t \<Longrightarrow> apart t (base s)" and "wrote s i = Some t \<Longrightarrow> increasing (event_rows t)"
    and "distinct (map global_seq (event_rows (base s)))"
  using assms unfolding state_inv_def by blast+

lemma apart_sym: "apart t u \<Longrightarrow> apart u t"
  by (auto simp: apart_def)

lemma increasing_distinct: "increasing rs \<Longrightarrow> distinct (map global_seq rs)"
proof -
  assume "increasing rs"
  then have "distinct (map (\<lambda>r. sint (global_seq r)) rs)"
    unfolding increasing_def using strict_sorted_iff by blast
  then show ?thesis by (auto simp: distinct_map inj_on_def)
qed

lemma kept_session:
  "others_kept i s s' \<Longrightarrow> j \<noteq> i \<Longrightarrow> wrote s' j = Some t \<Longrightarrow> wrote s j = Some t \<and> holds s j = holds s' j"
  unfolding others_kept_def by (metis option.distinct(1))

lemma state_inv_unmoved:
  assumes inv: "state_inv s" and "unmoved i s s'"
  shows "state_inv s'"
proof -
  have kept: "wrote s j = Some t \<and> holds s j = holds s' j" if "wrote s' j = Some t" for j t
    using assms(2) kept_session [of i s s' j t] that by (cases "j = i") (auto simp: unmoved_def)
  show ?thesis
  proof (rule state_invI)
    fix x y t u assume "x \<noteq> y" "wrote s' x = Some t" "wrote s' y = Some u"
    with kept [of x t] kept [of y u] state_invD(1,2) [OF inv, of x y t u]
    show "holds s' x \<inter> holds s' y = {} \<and> apart t u" by simp
  next
    fix x t assume "wrote s' x = Some t"
    with kept [of x t] state_invD(3,4) [OF inv, of x t] assms(2)
    show "apart t (base s') \<and> increasing (event_rows t)" by (simp add: unmoved_def)
  qed (use state_invD(5) [OF inv] assms(2) in \<open>simp add: unmoved_def\<close>)
qed

lemma state_inv_becomes:
  assumes inv: "state_inv s" and b: "becomes i s own ks s'" and t: "wrote s i = Some t \<and> ks \<subseteq> holds s i \<union> free \<or> ks \<subseteq> free"
    and "\<And>k. k \<in> free \<Longrightarrow> unlocked i s' k" and own: "apart own (base s)" "increasing (event_rows own)"
    and new: "\<And>j u. j \<noteq> i \<Longrightarrow> wrote s' j = Some u \<Longrightarrow> apart own u"
  shows "state_inv s'"
proof -
  have kept: "wrote s j = Some u \<and> holds s j = holds s' j" if "j \<noteq> i" "wrote s' j = Some u" for j u
    using b kept_session [of i s s' j u] that by (simp add: becomes_def)
  have mine: "wrote s' i = Some own" "holds s' i = ks" "base s' = base s" using b by (auto simp: becomes_def)
  have locks: "ks \<inter> holds s' j = {}" if j: "j \<noteq> i" "wrote s' j = Some u" for j u
  proof -
    have "free \<inter> holds s' j = {}" using assms(4) j by (auto simp: unlocked_def)
    moreover have "wrote s i = Some t \<Longrightarrow> holds s i \<inter> holds s' j = {}"
      using state_invD(1) [OF inv, of i j t u] kept [OF j] j(1) by simp
    ultimately show ?thesis using t by blast
  qed
  show ?thesis
  proof (rule state_invI)
    fix x y a c assume xy: "x \<noteq> y" "wrote s' x = Some a" "wrote s' y = Some c"
    show "holds s' x \<inter> holds s' y = {} \<and> apart a c"
    proof (cases "x = i \<or> y = i")
      case True
      with xy mine locks [of x a] locks [of y c] new [of x a] new [of y c] apart_sym show ?thesis
        by (auto simp: Int_commute)
    next
      case False
      with xy kept [of x a] kept [of y c] state_invD(1,2) [OF inv, of x y a c] show ?thesis by simp
    qed
  next
    fix x a assume "wrote s' x = Some a"
    with own mine kept [of x a] state_invD(3,4) [OF inv, of x a]
    show "apart a (base s') \<and> increasing (event_rows a)" by (cases "x = i") auto
  qed (simp add: mine state_invD(5) [OF inv])
qed

lemma state_inv_commit:
  assumes inv: "state_inv s" and "others_kept i s s'" and own: "wrote s i = Some own"
    and "base s' = merged (base s) own" and "wrote s' i = None"
  shows "state_inv s'"
proof -
  have kept: "wrote s j = Some t \<and> holds s j = holds s' j \<and> j \<noteq> i" if "wrote s' j = Some t" for j t
    using assms(2,5) kept_session [of i s s' j t] that by (cases "j = i") auto
  show ?thesis
  proof (rule state_invI)
    fix x y t u assume "x \<noteq> y" "wrote s' x = Some t" "wrote s' y = Some u"
    with kept [of x t] kept [of y u] state_invD(1,2) [OF inv, of x y t u]
    show "holds s' x \<inter> holds s' y = {} \<and> apart t u" by simp
  next
    fix x t assume "wrote s' x = Some t"
    with kept [of x t] state_invD(3,4) [OF inv, of x t] state_invD(2) [OF inv, of x i t own] own assms(4)
    show "apart t (base s') \<and> increasing (event_rows t)" by (auto simp: apart_def merged_def seqs_def)
  next
    show "distinct (map global_seq (event_rows (base s')))"
      using state_invD(3,4) [OF inv own] state_invD(5) [OF inv] increasing_distinct [of "event_rows own"] assms(4)
      by (auto simp: merged_def apart_def seqs_def)
  qed
qed

lemma apart_simps [simp]:
  "apart (t\<lparr>stream_versions := f\<rparr>) u = apart t u" "apart (t\<lparr>idempotency_key_events := ls\<rparr>) u = apart t u"
  by (simp_all add: apart_def seqs_def)

lemma becomes_others:
  assumes "state_inv s" and "becomes i s own' ks s'" and "wrote s i = Some own" and "j \<noteq> i" and "wrote s' j = Some u"
  shows "apart own u"
proof -
  have "others_kept i s s'" using assms(2) by (simp add: becomes_def)
  from kept_session [OF this assms(4,5)] state_invD(2) [OF assms(1), of i j own u] assms(3,4) show ?thesis by simp
qed

text \<open>A statement that changes neither keys nor numbers of its transaction.\<close>

lemma state_inv_same_keys:
  assumes inv: "state_inv s" and own: "wrote s i = Some own" and "becomes i s own' ks s'"
    and "event_rows own' = event_rows own" and "idempotency_keys own' = idempotency_keys own"
    and "ks = holds s i \<or> ks = insert k (holds s i) \<and> unlocked i s' k"
  shows "state_inv s'"
proof (rule state_inv_becomes [OF inv assms(3)])
  show "wrote s i = Some own \<and> ks \<subseteq> holds s i \<union> {k. unlocked i s' k} \<or> ks \<subseteq> {k. unlocked i s' k}"
    using own assms(6) by auto
  have same: "apart own' u = apart own u" for u using assms(4,5) by (simp add: apart_def seqs_def)
  show "apart own' (base s)" "increasing (event_rows own')"
    using state_invD(3,4) [OF inv own] assms(4) same by simp_all
  show "apart own' u" if "j \<noteq> i" "wrote s' j = Some u" for j u
    using becomes_others [OF inv assms(3) own that] same by simp
qed simp

lemmas state_inv_no_lock = state_inv_same_keys [OF _ _ _ _ _ disjI1 [OF refl]]

lemmas state_inv_one_lock = state_inv_same_keys [OF _ _ _ _ _ disjI2 [OF conjI [OF refl]]]

lemma permitted_inv:
  assumes "permitted jsonb i s req reply s'" and inv: "state_inv s"
  shows "state_inv s'"
  using assms(1)
proof cases
  case (refused m)
  then show ?thesis using inv state_inv_unmoved by blast
next
  case (in_doubt own m)
  then show ?thesis using inv state_inv_commit by blast
next
  case (begun)
  from begun(3) show ?thesis
    by (rule state_inv_becomes [OF inv, where free = "{}"])
       (auto simp: no_tables_def apart_def seqs_def increasing_def)
next
  case (committed own)
  then show ?thesis using inv state_inv_commit by blast
next
  case (rolled_back)
  then have "unmoved i s s'" by (simp add: unmoved_def)
  then show ?thesis by (rule state_inv_unmoved [OF inv])
next
  case (key_reserved own key)
  from key_reserved(6) show ?thesis
  proof (rule state_inv_becomes [OF inv, where t = own and free = "{}"])
    show "apart (own\<lparr>idempotency_keys := insert key (idempotency_keys own)\<rparr>) u" if "j \<noteq> i" "wrote s' j = Some u" for j u
      using key_reserved(5) becomes_others [OF inv key_reserved(6,3) that] that by (auto simp: apart_def seqs_def)
  qed (use key_reserved(3,4) state_invD(3,4) [OF inv key_reserved(3)] in \<open>auto simp: apart_def seqs_def merged_def\<close>)
next
  case (event_inserted own g ty aid v et p key t)
  from event_inserted(8) show ?thesis
  proof (rule state_inv_becomes [OF inv, where t = own and free = "{}"])
    show "apart (insert_row own
          \<lparr>global_seq = g, aggregate_type = ty, aggregate_id = aid, row_version = v, event_type = et,
           row_payload = jsonb p, dedupe_key = key, correlation_id = None, created_at = t\<rparr>) u"
      if "j \<noteq> i" "wrote s' j = Some u" for j u
      using event_inserted(7) becomes_others [OF inv event_inserted(8,3) that] that
      by (auto simp: apart_def seqs_def insert_row_def)
  qed (use event_inserted(3,5,6) state_invD(3,4) [OF inv event_inserted(3)] in
    \<open>auto simp: apart_def seqs_def insert_row_def increasing_def sorted_wrt_append\<close>)
next
  case (key_checked own key)
  from state_inv_no_lock [OF inv key_checked(3,4)] show ?thesis by simp
next
  case (stream_known own ty aid)
  from state_inv_no_lock [OF inv stream_known(3,5)] show ?thesis by simp
next
  case (stream_not_bumped own ty aid v)
  from state_inv_no_lock [OF inv stream_not_bumped(3,5)] show ?thesis by simp
next
  case (event_linked own key g)
  from state_inv_no_lock [OF inv event_linked(3,4)] show ?thesis by simp
next
  case (key_events own key)
  from state_inv_no_lock [OF inv key_events(3,4)] show ?thesis by simp
next
  case (stream_ensured own ty aid)
  from state_inv_one_lock [OF inv stream_ensured(3,6) _ _ stream_ensured(5)] show ?thesis by simp
next
  case (stream_locked own ty aid v)
  from state_inv_one_lock [OF inv stream_locked(3,6) _ _ stream_locked(5)] show ?thesis by simp
next
  case (stream_bumped own ty aid v)
  from state_inv_one_lock [OF inv stream_bumped(3,6) _ _ stream_bumped(5)] show ?thesis by simp
qed (rule state_inv_unmoved [OF inv], assumption)+

end
