(* ===== verification/PgBatch.thy ===== *)
theory PgBatch imports PgCommitted begin

text \<open>
  What is committed against a log in memory, in the order of the commits, and what an open transaction
  has written of its batch.  The statements that read give what the memory would; a commit records the
  batch as the memory does.
\<close>

section \<open>What is committed\<close>

text \<open>
  The numbers of the sequence need not increase along the log here: only the rows of one key, which
  one transaction wrote, are in order.
\<close>

definition committed_wf :: "event_tables \<Rightarrow> bool" where
  "committed_wf b \<longleftrightarrow>
     go_get (stream_versions b) = stream_version (log_of b) \<and>
     idempotency_key_events b = links_of (event_rows b) \<and>
     [] \<notin> idempotency_keys b \<and>
     (\<forall>r\<in>set (event_rows b). \<forall>k. dedupe_key r = Some k \<longrightarrow> k \<noteq> [] \<and> k \<in> idempotency_keys b) \<and>
     (\<forall>k. increasing (filter (\<lambda>r. dedupe_key r = Some k) (event_rows b)))"

definition mirrors :: "mem_store \<Rightarrow> event_tables \<Rightarrow> bool" where
  "mirrors ms b \<longleftrightarrow> mem_inv ms \<and> alikes (events ms) (log_of b) \<and> dom (dedupe ms) = idempotency_keys b \<and> committed_wf b"

lemma by_seq_increasing: "increasing rs \<Longrightarrow> by_seq rs = rs"
  unfolding increasing_def by_seq_def by (intro sort_key_id_if_sorted strict_sorted_imp_sorted)

lemma joined_committed:
  assumes "committed_wf b" and "distinct (map global_seq (event_rows b))"
  shows "joined_rows b key = filter (\<lambda>r. dedupe_key r = Some key) (event_rows b)"
proof -
  have "set rs \<subseteq> set (event_rows b) \<Longrightarrow>
      concat (map (\<lambda>(k, g). if k = key then filter (\<lambda>r. global_seq r = g) (event_rows b) else []) (links_of rs))
      = filter (\<lambda>r. dedupe_key r = Some key) rs" for rs
    by (induction rs) (auto simp: links_of_def filter_own_seq [OF assms(2)] split: option.splits)
  then show ?thesis using assms(1) by (simp add: joined_rows_def committed_wf_def)
qed

lemma mirrors_seen:
  assumes "mirrors ms b" and "key \<noteq> []"
  shows "alikes (filter (\<lambda>e. DedupeKey (Metadata e) = key) (events ms)) (filter (\<lambda>e. DedupeKey (Metadata e) = key) (log_of b))"
  using assms(1) by (intro alikes_filter) (auto simp: mirrors_def alike_def)

lemma mirrors_key:
  assumes "mirrors ms b" and "key \<noteq> []" and "key \<in> idempotency_keys b"
  shows "dedupe ms key = Some (filter (\<lambda>e. DedupeKey (Metadata e) = key) (events ms))"
proof -
  have "mem_inv ms" "dom (dedupe ms) = idempotency_keys b" using assms(1) by (simp_all add: mirrors_def)
  moreover from this assms(3) obtain es where "dedupe ms key = Some es" by auto
  ultimately show ?thesis using mem.seen_log [OF _ assms(2)] by simp
qed

lemma mirrors_no_key: "mirrors ms b \<Longrightarrow> key \<notin> idempotency_keys b \<Longrightarrow> dedupe ms key = None"
  by (auto simp: mirrors_def)

lemma key_rows:
  assumes "mirrors ms b" and "distinct (map global_seq (event_rows b))" and "key \<noteq> []"
  shows "map row_event (by_seq (joined_rows b key)) = filter (\<lambda>e. DedupeKey (Metadata e) = key) (log_of b)"
proof -
  have wf: "committed_wf b" using assms(1) by (simp add: mirrors_def)
  have "filter (\<lambda>r. dedupe_key r = Some key) (event_rows b) = filter (\<lambda>r. or_empty (dedupe_key r) = key) (event_rows b)"
    using assms(3) by (intro filter_cong) (auto simp: or_empty_def split: option.splits)
  moreover have "by_seq (filter (\<lambda>r. dedupe_key r = Some key) (event_rows b)) = filter (\<lambda>r. dedupe_key r = Some key) (event_rows b)"
    using wf by (intro by_seq_increasing) (simp add: committed_wf_def)
  ultimately show ?thesis
    by (simp add: joined_committed [OF wf assms(2)] log_of_def filter_map comp_def)
qed

lemma stream_rows:
  assumes "mirrors ms b"
  shows "map row_event (by_version (rows_of_stream b k)) = stream_events (log_of b) k"
proof -
  have al: "alikes (stream_events (events ms) k) (stream_events (log_of b) k)"
    using assms by (auto simp: mirrors_def intro: alikes_stream)
  have "map Event.Version (stream_events (log_of b) k) = map Event.Version (stream_events (events ms) k)"
    using al by (induction rule: list_all2_induct) (auto simp: alike_def)
  also have "\<dots> = map word_of_nat [1..<Suc (length (stream_events (events ms) k))]"
    using assms mem.inv_log unfolding mirrors_def log_wf_def by blast
  finally have vs: "map Event.Version (stream_events (log_of b) k) = map word_of_nat [1..<Suc (length (stream_events (events ms) k))]" .
  have len: "length (stream_events (events ms) k) < 2 ^ 63"
    using assms mem.inv_log log_wf_capacity length_stream_events [of "events ms" k] by (fastforce simp: mirrors_def)
  have "map (\<lambda>r. sint (row_version r)) (rows_of_stream b k) = map sint (map Event.Version (stream_events (log_of b) k))"
    by (simp add: log_of_stream [symmetric])
  also have "\<dots> = map int [1..<Suc (length (stream_events (events ms) k))]"
    unfolding vs using len by (auto simp: sint_word_of_nat simp del: upt_Suc)
  finally have "sorted (map (\<lambda>r. sint (row_version r)) (rows_of_stream b k))"
    by (simp add: sorted_map del: upt_Suc)
  then show ?thesis by (simp add: by_version_def sort_key_id_if_sorted log_of_stream)
qed

section \<open>A batch, event by event\<close>

text \<open>The versions of the streams after a batch, and the events that record it, up to their numbers.\<close>

primrec bumped :: "(stream_key \<Rightarrow> int64) \<Rightarrow> AppendEvent list \<Rightarrow> stream_key \<Rightarrow> int64" where
  "bumped cur [] = cur"
| "bumped cur (a # as) = bumped (cur(append_key a := cur (append_key a) + 1)) as"

definition carries :: "string \<Rightarrow> (stream_key \<Rightarrow> int64) \<Rightarrow> AppendEvent \<Rightarrow> Event \<Rightarrow> bool" where
  "carries key cur a e \<longleftrightarrow>
     event_key e = append_key a \<and> Event.EventType e = AppendEvent.EventType a \<and>
     decodes_alike (AppendEvent.Payload a) (Event.Payload e) \<and> DedupeKey (Metadata e) = key \<and>
     Event.Version e = cur (append_key a) + 1"

fun written :: "string \<Rightarrow> (stream_key \<Rightarrow> int64) \<Rightarrow> AppendEvent list \<Rightarrow> Event list \<Rightarrow> bool" where
  "written key cur [] es \<longleftrightarrow> es = []"
| "written key cur (a # as) [] \<longleftrightarrow> False"
| "written key cur (a # as) (e # es) \<longleftrightarrow>
     carries key cur a e \<and> written key (cur(append_key a := cur (append_key a) + 1)) as es"

lemma bumped_snoc: "bumped cur (as @ [a]) = (bumped cur as)(append_key a := bumped cur as (append_key a) + 1)"
  by (induction as arbitrary: cur) simp_all

lemma versions_match_append:
  "versions_match cur (as @ bs) \<longleftrightarrow> versions_match cur as \<and> versions_match (bumped cur as) bs"
  by (induction as arbitrary: cur) simp_all

lemma written_snoc: "written key cur as es \<Longrightarrow> carries key (bumped cur as) a e \<Longrightarrow> written key cur (as @ [a]) (es @ [e])"
  by (induction key cur as es rule: written.induct) simp_all

lemma bumped_other: "k \<notin> append_key ` set as \<Longrightarrow> bumped cur as k = cur k"
  by (induction as arbitrary: cur) auto

lemma bumped_cong: "cur k = cur' k \<Longrightarrow> bumped cur as k = bumped cur' as k"
proof (induction as arbitrary: cur cur')
  case (Cons a as)
  have "bumped (cur(append_key a := cur (append_key a) + 1)) as k = bumped (cur'(append_key a := cur' (append_key a) + 1)) as k"
    by (rule Cons.IH) (use Cons.prems in \<open>auto simp: fun_upd_def\<close>)
  then show ?case by simp
qed simp

lemma batch_cong:
  assumes "\<forall>a\<in>set as. cur (append_key a) = cur' (append_key a)"
  shows "versions_match cur as = versions_match cur' as" and "written key cur as es = written key cur' as es"
proof -
  show "versions_match cur as = versions_match cur' as" using assms
  proof (induction as arbitrary: cur cur')
    case (Cons a as)
    have "versions_match (cur(append_key a := cur (append_key a) + 1)) as
        = versions_match (cur'(append_key a := cur (append_key a) + 1)) as"
      by (rule Cons.IH) (use Cons.prems in simp)
    with Cons.prems show ?case by simp
  qed simp
  show "written key cur as es = written key cur' as es" using assms
  proof (induction key cur as es arbitrary: cur' rule: written.induct)
    case (3 key cur a as e es)
    have "written key (cur(append_key a := cur (append_key a) + 1)) as es
        = written key (cur'(append_key a := cur (append_key a) + 1)) as es"
      by (rule "3.IH") (use "3.prems" in simp)
    with "3.prems" show ?case by (simp add: carries_def)
  qed simp_all
qed

lemma written_alike:
  "recorded_as key M as es \<Longrightarrow> written key (stream_version M) as fs \<Longrightarrow> alikes es fs"
proof (induction key M as es arbitrary: fs rule: recorded_as.induct)
  case (3 key L a as e es)
  then obtain f fs' where fs: "fs = f # fs'" by (cases fs) auto
  have "alike e f" using "3.prems" fs by (auto simp: records_def carries_def alike_def)
  moreover have "event_key e = append_key a" using "3.prems" by (simp add: records_def)
  ultimately show ?case using "3.IH" [of fs'] "3.prems" fs by (simp add: stream_version_snoc fun_upd_def)
qed auto

lemma written_versions:
  "written key (stream_version L) as es \<Longrightarrow> stream_version (L @ es) = bumped (stream_version L) as"
proof (induction as arbitrary: L es)
  case (Cons a as)
  then obtain e es' where es: "es = e # es'" by (cases es) auto
  with Cons.prems have "event_key e = append_key a" by (simp add: carries_def)
  with Cons.IH [of "L @ [e]" es'] Cons.prems es show ?case by (simp add: stream_version_snoc fun_upd_def)
qed simp

section \<open>What a transaction has written\<close>

definition batch ::
  "event_tables \<Rightarrow> stream_key set \<Rightarrow> string \<Rightarrow> AppendEvent list \<Rightarrow> event_tables \<Rightarrow> Event list \<Rightarrow> bool" where
  "batch b H key as own out \<longleftrightarrow>
     idempotency_keys own = (if key = [] then {} else {key}) \<and>
     idempotency_key_events own = links_of (event_rows own) \<and>
     (\<forall>r\<in>set (event_rows own). dedupe_key r = (if key = [] then None else Some key)) \<and>
     dom (stream_versions own) \<subseteq> H \<and> append_key ` set as \<subseteq> H \<and>
     versions_match (go_get (stream_versions b)) as \<and>
     written key (go_get (stream_versions b)) as (log_of own) \<and> written key (go_get (stream_versions b)) as out \<and>
     go_get (stream_versions (merged b own)) = bumped (go_get (stream_versions b)) as"

lemma batch_start: "batch b H key [] (reserved no_tables key) []"
  by (auto simp: batch_def reserved_def no_tables_def merged_def links_of_def log_of_def)

lemma merged_none [simp]: "merged b no_tables = b"
  by (simp add: merged_def no_tables_def)

lemma batch_more_locks: "batch b H key as own out \<Longrightarrow> H \<subseteq> H' \<Longrightarrow> batch b H' key as own out"
  by (auto simp: batch_def)

text \<open>Other commits do not touch it, as long as they keep off its locks.\<close>

lemma batch_kept:
  assumes "batch b H key as own out" and same: "\<forall>k\<in>H. stream_versions b' k = stream_versions b k"
  shows "batch b' H key as own out"
proof -
  have keys: "append_key ` set as \<subseteq> H" "dom (stream_versions own) \<subseteq> H" using assms(1) by (simp_all add: batch_def)
  have cur: "\<forall>a\<in>set as. go_get (stream_versions b) (append_key a) = go_get (stream_versions b') (append_key a)"
    using keys same by (auto simp: go_get_def)
  have "go_get (stream_versions (merged b' own)) k = bumped (go_get (stream_versions b')) as k" for k
  proof (cases "k \<in> H")
    case True
    then have "go_get (stream_versions (merged b' own)) k = go_get (stream_versions (merged b own)) k"
      using same by (simp add: merged_def go_get_def map_add_def split: option.split)
    also have "\<dots> = bumped (go_get (stream_versions b')) as k"
      using assms True by (auto simp: batch_def go_get_def intro!: bumped_cong)
    finally show ?thesis .
  next
    case False
    then have "stream_versions own k = None" "k \<notin> append_key ` set as" using keys by auto
    then show ?thesis by (simp add: bumped_other merged_def go_get_def map_add_def)
  qed
  then have "go_get (stream_versions (merged b' own)) = bumped (go_get (stream_versions b')) as" by (rule ext)
  with assms(1) batch_cong [OF cur] show ?thesis by (simp add: batch_def)
qed

lemma batch_ensured:
  assumes "batch b H key as own out" and "stream_versions (merged b own) k = None"
  shows "batch b (insert k H) key as (own\<lparr>stream_versions := (stream_versions own)(k \<mapsto> 0)\<rparr>) out"
proof -
  have "go_get (stream_versions b ++ (stream_versions own)(k \<mapsto> 0)) = go_get (stream_versions b ++ stream_versions own)"
    using assms(2) by (auto simp: go_get_def fun_eq_iff merged_def map_add_def split: option.splits)
  with assms(1) show ?thesis by (auto simp: batch_def merged_def log_of_def)
qed

text \<open>One more event.\<close>

lemma batch_next:
  assumes "batch b H key as own out" and "append_key a \<in> H"
    and "ExpectedVersion a = NoVersionCheck \<or> ExpectedVersion a = bumped (go_get (stream_versions b)) as (append_key a)"
    and cur: "cur = bumped (go_get (stream_versions b)) as (append_key a)"
    and r: "(aggregate_type r, aggregate_id r) = append_key a" "row_version r = cur + 1" "event_type r = AppendEvent.EventType a"
      "decodes_alike (AppendEvent.Payload a) (row_payload r)" "dedupe_key r = (if key = [] then None else Some key)"
  shows "batch b H key (as @ [a]) (appended own key r) (out @ [new_event key a cur gt])"
proof -
  have "carries key (bumped (go_get (stream_versions b)) as) a (row_event r)"
    using cur r by (auto simp: carries_def row_event_def event_key_def or_empty_def)
  moreover have "carries key (bumped (go_get (stream_versions b)) as) a (new_event key a cur gt)"
    using cur by (simp add: carries_def new_event_def event_key_def append_key_def decodes_alike_def)
  moreover have "log_of (appended own key r) = log_of own @ [row_event r]"
    by (simp add: appended_def log_of_def)
  moreover have "stream_versions (merged b (appended own key r)) = (stream_versions (merged b own))(append_key a \<mapsto> cur + 1)"
    using r(1,2) by (simp add: merged_def appended_def map_add_upd)
  moreover have "links_of (event_rows own @ [r]) = links_of (event_rows own) @ (if key = [] then [] else [(key, global_seq r)])"
    using r(5) by (simp add: links_of_def)
  ultimately show ?thesis
    using assms(1-4) r(1,2,5) written_snoc
    by (auto simp: batch_def versions_match_append bumped_snoc appended_def)
qed

section \<open>A commit\<close>

lemma commit_mirrors:
  assumes m: "mirrors ms b" and B: "batch b H key as own out"
    and own: "apart own b" "increasing (event_rows own)"
    and fresh: "recorded_as key (events ms) as es" "events ms' = events ms @ es"
      "dedupe ms' = (if key = [] then dedupe ms else (dedupe ms)(key \<mapsto> es))" "mem_inv ms'"
  shows "mirrors ms' (merged b own)" and "alikes es out"
proof -
  have cur: "go_get (stream_versions b) = stream_version (log_of b)" "stream_version (log_of b) = stream_version (events ms)"
    using m alikes_version by (auto simp: mirrors_def committed_wf_def)
  then have w: "written key (stream_version (log_of b)) as (log_of own)" "written key (stream_version (events ms)) as (log_of own)"
    "written key (stream_version (events ms)) as out" using B by (simp_all add: batch_def)
  show "alikes es out" by (rule written_alike [OF fresh(1) w(3)])
  have log: "log_of (merged b own) = log_of b @ log_of own" by (simp add: merged_def log_of_def)
  have "go_get (stream_versions (merged b own)) = stream_version (log_of (merged b own))"
    using B cur written_versions [OF w(1)] log by (simp add: batch_def)
  moreover have "idempotency_key_events (merged b own) = links_of (event_rows (merged b own))"
    using m B by (simp add: merged_def batch_def mirrors_def committed_wf_def links_of_def)
  moreover have "increasing (filter (\<lambda>r. dedupe_key r = Some k) (event_rows (merged b own)))" for k
  proof (cases "k = key \<and> key \<noteq> []")
    case True
    then have "k \<notin> idempotency_keys b" using own(1) B by (auto simp: apart_def batch_def)
    then have "filter (\<lambda>r. dedupe_key r = Some k) (event_rows b) = []"
      using m by (auto simp: filter_empty_conv mirrors_def committed_wf_def)
    moreover have "increasing (filter (\<lambda>r. dedupe_key r = Some k) (event_rows own))"
      using own(2) by (simp add: increasing_def sorted_wrt_map sorted_wrt_filter)
    ultimately show ?thesis by (simp add: merged_def)
  next
    case False
    then have "filter (\<lambda>r. dedupe_key r = Some k) (event_rows own) = []"
      using B by (auto simp: batch_def filter_empty_conv)
    with m show ?thesis by (simp add: merged_def mirrors_def committed_wf_def)
  qed
  ultimately have "committed_wf (merged b own)"
    using m B by (auto simp: committed_wf_def mirrors_def merged_def batch_def split: if_splits)
  moreover have "dom (dedupe ms') = idempotency_keys (merged b own)"
    using m B fresh(3) by (auto simp: mirrors_def merged_def batch_def)
  moreover have "alikes (events ms') (log_of (merged b own))"
    using m written_alike [OF fresh(1) w(2)] log fresh(2) by (simp add: mirrors_def list_all2_appendI)
  ultimately show "mirrors ms' (merged b own)" using fresh(4) by (simp add: mirrors_def)
qed

end
