(* ===== verification/PgSimulation.thy ===== *)
theory PgSimulation imports PgBatch Guarantees begin

text \<open>
  The system of handlers on Postgres simulates the system on the in-memory store: every statement
  answered is a call on the memory, or no step of it.  \<open>Append\<close> takes effect in memory when its
  commit is answered, or at the statement that finds the version taken or the key used; the
  others at the answer of their last statement.
\<close>

section \<open>Handlers that give up\<close>

text \<open>An error of the database, and the errors the program makes of it.\<close>

fun foreign :: "error \<Rightarrow> bool" where
  "foreign (OtherError m) \<longleftrightarrow> True"
| "foreign (Errorf msg err) \<longleftrightarrow> foreign err"
| "foreign _ \<longleftrightarrow> False"

lemma foreign_no_conflict: "foreign err \<Longrightarrow> \<not> errors_is err ErrVersionConflict"
  by (induction err rule: foreign.induct) simp_all

lemma foreign_scan [simp]: "foreign ErrScan" "foreign ErrNoRows"
  by (simp_all add: ErrScan_def ErrNoRows_def)

primrec gives_up :: "proc \<Rightarrow> bool" where
  "gives_up (Return r) \<longleftrightarrow> True"
| "gives_up Panic \<longleftrightarrow> True"
| "gives_up (DoLookupDedupe key f) \<longleftrightarrow> (\<forall>err. foreign err \<longrightarrow> f (Inl err) = Return (Inl err)) \<and> (\<forall>r. gives_up (f r))"
| "gives_up (DoLoadStream ty aid f) \<longleftrightarrow> (\<forall>err. foreign err \<longrightarrow> f (Inl err) = Return (Inl err)) \<and> (\<forall>r. gives_up (f r))"
| "gives_up (DoAppend key as f) \<longleftrightarrow> (\<forall>err. foreign err \<longrightarrow> f (Inl err) = Return (Inl err)) \<and> (\<forall>r. gives_up (f r))"
| "gives_up (DoPublish es p) \<longleftrightarrow> gives_up p"

lemma gives_up_applied [simp]: "gives_up (appliedResult sv es)"
  by (simp add: appliedResult_def publish_def split: list.split)

lemma gives_up_cmd_loop: "gives_up (cmd_loop sv k d key plan a)"
proof (induction "attempts_left plan a" arbitrary: a rule: less_induct)
  case less
  show ?case
    by (subst cmd_loop.simps) (auto simp: less attempts_left_decr foreign_no_conflict split: sum.split)
qed

lemma gives_up_cmd: "gives_up (cmd sv k d key plan)"
  by (auto simp: cmd_def Let_def gives_up_cmd_loop split: sum.split)

lemma gives_up_Transfer_loop: "gives_up (Transfer_loop sv i j n key reason a)"
proof (induction "nat (sint (maxRetries sv) - sint a)" arbitrary: a rule: less_induct)
  case less
  show ?case
    by (subst Transfer_loop_unfold)
       (auto simp: loadAccount_def less sint_suc_no_overflow foreign_no_conflict split: sum.split)
qed

lemma gives_up_handler: "handler sv k key p \<Longrightarrow> gives_up p"
  by (induction rule: handler.induct)
     (auto simp: one_stream_handlers OpenAccount_cmd gives_up_cmd Transfer_def Let_def gives_up_Transfer_loop split: sum.split)

section \<open>What the statements are answered\<close>

inductive_cases permitted_begin [consumes 1, case_names refused begun]: "permitted jsonb i s BeginTx reply s'"
inductive_cases permitted_commit [consumes 1, case_names refused in_doubt committed]: "permitted jsonb i s CommitTx reply s'"
inductive_cases permitted_rollback [consumes 1, case_names refused rolled_back]: "permitted jsonb i s RollbackTx reply s'"
inductive_cases permitted_check [consumes 1, case_names refused key_checked]: "permitted jsonb i s (QueryRowStmt (Tx ()) sql_exists_for_update [Text key]) reply s'"
inductive_cases permitted_reserve [consumes 1, case_names refused key_reserved]: "permitted jsonb i s (ExecStmt (Tx ()) sql_reserve [Text key]) reply s'"
inductive_cases permitted_ensure [consumes 1, case_names refused known ensured]: "permitted jsonb i s (ExecStmt (Tx ()) sql_ensure_stream [Text ty, Text aid]) reply s'"
inductive_cases permitted_lock [consumes 1, case_names refused locked]: "permitted jsonb i s (QueryRowStmt (Tx ()) sql_lock_stream [Text ty, Text aid]) reply s'"
inductive_cases permitted_insert [consumes 1, case_names refused inserted]: "permitted jsonb i s (QueryRowStmt (Tx ()) sql_insert_event
  [Text ty, Text aid, BigInt v, Text et, Jsonb p, dk]) reply s'"
inductive_cases permitted_bump [consumes 1, case_names refused bumped not_bumped]: "permitted jsonb i s (ExecStmt (Tx ()) sql_bump_stream [BigInt v, Text ty, Text aid]) reply s'"
inductive_cases permitted_link [consumes 1, case_names refused linked]: "permitted jsonb i s (ExecStmt (Tx ()) sql_link_event [Text key, BigInt g]) reply s'"
inductive_cases permitted_reread [consumes 1, case_names refused key_events broken]: "permitted jsonb i s (QueryStmt (Tx ()) sql_dedupe_events [Text key]) reply s'"
inductive_cases permitted_exists [consumes 1, case_names refused looked_up]: "permitted jsonb i s (QueryRowStmt Pool sql_exists [Text key]) reply s'"
inductive_cases permitted_events [consumes 1, case_names refused key_events broken]: "permitted jsonb i s (QueryStmt Pool sql_dedupe_events [Text key]) reply s'"
inductive_cases permitted_load [consumes 1, case_names refused loaded broken]: "permitted jsonb i s (QueryStmt Pool sql_load_stream [Text ty, Text aid]) reply s'"

lemma scan_broken: "\<exists>err. scan_rows msg rs (Some (OtherError m)) out = Inl err \<and> foreign err"
proof (induction rs arbitrary: out)
  case (Cons r rs)
  have "scanEvent r = Inl ErrScan \<or> (\<exists>ev. scanEvent r = Inr ev)"
  proof -
    have "text_or_null v = Inl ErrScan \<or> (\<exists>t. text_or_null v = Inr t)" for v by (cases v) simp_all
    then show ?thesis unfolding scanEvent_def
      by (auto split: list.split sql_value.split sum.split) (metis sum.inject(1) sum.distinct(1))+
  qed
  with Cons show ?case by auto
qed simp

lemma reads_refused [simp]:
  "via msg read_done (Refused err) = Inl (Errorf msg err)" "via msg read_done Done = Inr ()"
  "via msg (scanned sc) (Refused err) = Inl (Errorf msg err)"
  "via msg (scanned scan_bool) (OneRow [Boolean b]) = Inr b" "via msg (scanned scan_int64) (OneRow [BigInt n]) = Inr n"
  "via msg (scanned scan_seq_time) (OneRow [BigInt n, TimestampTz t]) = Inr (n, t)"
  "collected msg msg' (Refused err) = Inl (Errorf msg' err)"
  "collected msg msg' (Rows (map event_columns rs) None) = Inr (map row_event rs)"
  "read_done (Refused err) = Inl err" "read_done Done = Inr ()"
  by (simp_all add: via_def read_done_def scanned_def read_row_def collected_def read_rows_def scan_rows_columns)

lemma collected_broken: "\<exists>err. collected msg msg' (Rows rs (Some (OtherError m))) = Inl err \<and> foreign err"
  using scan_broken by (simp add: collected_def read_rows_def)

section \<open>A handler and its twin in memory\<close>

text \<open>
  Where \<open>Append\<close> is, and what its transaction has written by then, unless the database has ended it:
  before the check of the key, before the events of a used key are read, before the key is
  reserved; before the next event of the batch, or the commit; before each statement for an event.
\<close>

abbreviation opened :: "pg_state \<Rightarrow> nat \<Rightarrow> (event_tables \<Rightarrow> bool) \<Rightarrow> bool" where
  "opened s i P \<equiv> (\<forall>own. wrote s i = Some own \<longrightarrow> P own)"

abbreviation versions_in :: "pg_state \<Rightarrow> stream_key \<Rightarrow> int64" where
  "versions_in s \<equiv> go_get (stream_versions (base s))"

definition row_for :: "string \<Rightarrow> AppendEvent \<Rightarrow> int64 \<Rightarrow> event_row \<Rightarrow> int64 \<Rightarrow> bool" where
  "row_for key a cur r g \<longleftrightarrow>
     (aggregate_type r, aggregate_id r) = append_key a \<and> row_version r = cur + 1 \<and>
     event_type r = AppendEvent.EventType a \<and> decodes_alike (AppendEvent.Payload a) (row_payload r) \<and>
     dedupe_key r = (if key = [] then None else Some key) \<and> global_seq r = g"

definition checked :: "pg_state \<Rightarrow> nat \<Rightarrow> event_tables \<Rightarrow> AppendEvent list \<Rightarrow> AppendEvent \<Rightarrow> int64 \<Rightarrow> bool" where
  "checked s i own as1 a cur \<longleftrightarrow> append_key a \<in> holds s i \<and> cur = bumped (versions_in s) as1 (append_key a) \<and>
     (ExpectedVersion a = NoVersionCheck \<or> ExpectedVersion a = cur) \<and>
     stream_versions (merged (base s) own) (append_key a) \<noteq> None"

inductive working ::
  "pg_state \<Rightarrow> nat \<Rightarrow> string \<Rightarrow> AppendEvent list \<Rightarrow> (replay, Event list \<times> bool) sql \<Rightarrow> bool" for s i key as where
  at_check: "key \<noteq> [] \<Longrightarrow> opened s i (\<lambda>own. own = no_tables) \<Longrightarrow>
    working s i key as (pg_append_tx replay_driver () key as)"
| at_reread: "key \<noteq> [] \<Longrightarrow> opened s i (\<lambda>own. own = no_tables) \<Longrightarrow> key \<in> idempotency_keys (base s) \<Longrightarrow>
    working s i key as (rereading key)"
| at_reserve: "key \<noteq> [] \<Longrightarrow> opened s i (\<lambda>own. own = no_tables) \<Longrightarrow> working s i key as (reserving key as)"
| at_event: "as = as1 @ as2 \<Longrightarrow> opened s i (\<lambda>own. batch (base s) (holds s i) key as1 own out) \<Longrightarrow>
    working s i key as (todo key as2 out)"
| at_lock: "as = as1 @ a # as2 \<Longrightarrow> opened s i (\<lambda>own. batch (base s) (holds s i) key as1 own out) \<Longrightarrow>
    working s i key as (locking key a as2 out)"
| at_insert: "as = as1 @ a # as2 \<Longrightarrow>
    opened s i (\<lambda>own. batch (base s) (holds s i) key as1 own out \<and> checked s i own as1 a cur) \<Longrightarrow>
    working s i key as (inserting key a as2 out cur)"
| at_bump: "as = as1 @ a # as2 \<Longrightarrow>
    opened s i (\<lambda>own. \<exists>own0 r. own = insert_row own0 r \<and> batch (base s) (holds s i) key as1 own0 out \<and>
      checked s i own0 as1 a cur \<and> row_for key a cur r (fst gt)) \<Longrightarrow>
    working s i key as (bumping key a as2 out cur gt)"
| at_link: "key \<noteq> [] \<Longrightarrow> as = as1 @ a # as2 \<Longrightarrow>
    opened s i (\<lambda>own. \<exists>own0 r. own = (insert_row own0 r)\<lparr>stream_versions := (stream_versions own0)(append_key a \<mapsto> cur + 1)\<rparr> \<and>
      batch (base s) (holds s i) key as1 own0 out \<and> checked s i own0 as1 a cur \<and> row_for key a cur r (fst gt)) \<Longrightarrow>
    working s i key as (linking key a as2 out cur gt)"

fun is_call :: "proc \<Rightarrow> bool" where
  "is_call (DoLookupDedupe key f) \<longleftrightarrow> True"
| "is_call (DoLoadStream ty aid f) \<longleftrightarrow> True"
| "is_call (DoAppend key as f) \<longleftrightarrow> True"
| "is_call _ \<longleftrightarrow> False"

text \<open>
  \<open>attuned s i pm p rs\<close>: handler \<open>i\<close> on Postgres, in \<open>p\<close> with the answers \<open>rs\<close>, against the handler
  \<open>pm\<close> on the memory: at rest; in a call that has not taken effect; in one that has, and will go on as
  its twin; or about to end with an error of the database, whatever became of the twin.
\<close>

inductive attuned :: "pg_state \<Rightarrow> nat \<Rightarrow> proc \<Rightarrow> proc \<Rightarrow> sql_reply list \<Rightarrow> bool" for s i where
  at_rest: "twins pm p \<Longrightarrow> gives_up p \<Longrightarrow> attuned s i pm p []"
| appending: "twins pm (DoAppend key as f) \<Longrightarrow> gives_up (DoAppend key as f) \<Longrightarrow>
    after (calling (DoAppend key as f)) rs (handing f (closing m)) \<Longrightarrow> working s i key as m \<Longrightarrow>
    attuned s i pm (DoAppend key as f) rs"
| looking_up: "twins pm (DoLookupDedupe key f) \<Longrightarrow> gives_up (DoLookupDedupe key f) \<Longrightarrow> key \<noteq> [] \<Longrightarrow>
    key \<in> idempotency_keys (base s) \<Longrightarrow>
    after (calling (DoLookupDedupe key f)) rs
      (handing f (sql_bind (loadDedupeEvents replay_driver Pool key) (\<lambda>es. sql_return (es, True)))) \<Longrightarrow>
    attuned s i pm (DoLookupDedupe key f) rs"
| confirming: "twins pm (f (Inr (es, True))) \<Longrightarrow> gives_up (DoAppend key as f) \<Longrightarrow>
    after (calling (DoAppend key as f)) rs
      (handing f (closing (sql_bind (wrapping ''postgres store: commit dedupe read'' (Commit replay_driver ()))
         (\<lambda>_. sql_return (es, True))))) \<Longrightarrow>
    opened s i (\<lambda>own. own = no_tables) \<Longrightarrow>
    attuned s i pm (DoAppend key as f) rs"
| settled: "is_call p \<Longrightarrow> after (calling p) rs k \<Longrightarrow> ends k p' \<Longrightarrow> twins pm p' \<Longrightarrow> gives_up p' \<Longrightarrow> attuned s i pm p rs"
| failing: "is_call p \<Longrightarrow> after (calling p) rs k \<Longrightarrow> ends k (Return (Inl err)) \<Longrightarrow> foreign err \<Longrightarrow> attuned s i pm p rs"
| failed: "foreign err \<Longrightarrow> attuned s i pm (Return (Inl err)) []"

text \<open>What a step of another handler does to this relation: nothing, when it is steady.\<close>

definition steady :: "nat \<Rightarrow> pg_state \<Rightarrow> pg_state \<Rightarrow> bool" where
  "steady i s s' \<longleftrightarrow> others_kept i s s' \<and> idempotency_keys (base s) \<subseteq> idempotency_keys (base s') \<and>
     (\<forall>j t. j \<noteq> i \<longrightarrow> wrote s' j = Some t \<longrightarrow> (\<forall>k\<in>holds s' j. stream_versions (base s') k = stream_versions (base s) k))"

lemma steady_same: "others_kept i s s' \<Longrightarrow> base s' = base s \<Longrightarrow> steady i s s'"
  by (simp add: steady_def)

lemma steady_commit:
  assumes inv: "state_inv s" and kept: "others_kept i s s'" and own: "wrote s i = Some own" "dom (stream_versions own) \<subseteq> holds s i"
    and "base s' = merged (base s) own"
  shows "steady i s s'"
  unfolding steady_def
proof (intro conjI allI impI ballI)
  fix j t k assume j: "j \<noteq> i" "wrote s' j = Some t" "k \<in> holds s' j"
  from kept_session [OF kept j(1,2)] j(3) state_invD(1) [OF inv, of i j own t] own j(1) have "k \<notin> dom (stream_versions own)" by auto
  then show "stream_versions (base s') k = stream_versions (base s) k"
    using assms(5) by (auto simp: merged_def map_add_def split: option.split)
qed (use assms in \<open>auto simp: merged_def\<close>)

lemma opened_steady:
  assumes "steady i s s'" and "j \<noteq> i" and "opened s j P"
    and "\<And>own. wrote s j = Some own \<Longrightarrow> holds s' j = holds s j \<Longrightarrow>
      \<forall>k\<in>holds s j. stream_versions (base s') k = stream_versions (base s) k \<Longrightarrow> P own \<Longrightarrow> Q own"
  shows "opened s' j Q"
proof (intro allI impI)
  fix own assume own: "wrote s' j = Some own"
  from assms(1) have "others_kept i s s'" by (simp add: steady_def)
  from kept_session [OF this assms(2) own] have "wrote s j = Some own" "holds s' j = holds s j" by simp_all
  with assms own show "Q own" unfolding steady_def by metis
qed

lemma opened_steady_same: "steady i s s' \<Longrightarrow> j \<noteq> i \<Longrightarrow> opened s j P \<Longrightarrow> opened s' j P"
  by (rule opened_steady)

lemma checked_steady:
  assumes "checked s j own as1 a cur" and "batch (base s) (holds s j) key as1 own out" and "holds s' j = holds s j"
    and "\<forall>k\<in>holds s j. stream_versions (base s') k = stream_versions (base s) k"
  shows "checked s' j own as1 a cur"
proof -
  have "append_key a \<in> holds s j" using assms(1) by (simp add: checked_def)
  then have "versions_in s' (append_key a) = versions_in s (append_key a)" using assms(4) by (simp add: go_get_def)
  then have "bumped (versions_in s') as1 (append_key a) = bumped (versions_in s) as1 (append_key a)" by (rule bumped_cong)
  moreover have "stream_versions (base s') (append_key a) = stream_versions (base s) (append_key a)"
    using assms(1,4) by (simp add: checked_def)
  ultimately show ?thesis using assms(1,3) by (auto simp: checked_def merged_def map_add_def split: option.splits)
qed

lemma working_steady:
  assumes "working s j key as m" and "steady i s s'" and "j \<noteq> i"
  shows "working s' j key as m"
  using assms(1)
proof cases
  case at_check
  from opened_steady_same [OF assms(2,3) at_check(3)] at_check(1,2) show ?thesis by (auto intro: working.at_check)
next
  case at_reread
  then have "key \<in> idempotency_keys (base s')" using assms(2) by (auto simp: steady_def)
  with opened_steady_same [OF assms(2,3) at_reread(3)] at_reread(1,2) show ?thesis by (auto intro: working.at_reread)
next
  case at_reserve
  from opened_steady_same [OF assms(2,3) at_reserve(3)] at_reserve(1,2) show ?thesis by (auto intro: working.at_reserve)
next
  case (at_event as1 as2 out)
  have "opened s' j (\<lambda>own. batch (base s') (holds s' j) key as1 own out)"
    by (rule opened_steady [OF assms(2,3) at_event(3)]) (auto intro: batch_kept)
  with at_event(1,2) show ?thesis by (auto intro: working.at_event)
next
  case (at_lock as1 a as2 out)
  have "opened s' j (\<lambda>own. batch (base s') (holds s' j) key as1 own out)"
    by (rule opened_steady [OF assms(2,3) at_lock(3)]) (auto intro: batch_kept)
  with at_lock(1,2) show ?thesis by (auto intro: working.at_lock)
next
  case (at_insert as1 a as2 out cur)
  have "opened s' j (\<lambda>own. batch (base s') (holds s' j) key as1 own out \<and> checked s' j own as1 a cur)"
    by (rule opened_steady [OF assms(2,3) at_insert(3)]) (auto intro: batch_kept checked_steady)
  with at_insert(1,2) show ?thesis by (auto intro: working.at_insert)
next
  case (at_bump as1 a as2 out cur gt)
  have "opened s' j (\<lambda>own. \<exists>own0 r. own = insert_row own0 r \<and> batch (base s') (holds s' j) key as1 own0 out \<and>
      checked s' j own0 as1 a cur \<and> row_for key a cur r (fst gt))"
    by (rule opened_steady [OF assms(2,3) at_bump(3)]) (metis batch_kept checked_steady)
  with at_bump(1,2) show ?thesis by (auto intro: working.at_bump)
next
  case (at_link as1 a as2 cur out gt)
  have "opened s' j (\<lambda>own. \<exists>own0 r. own = (insert_row own0 r)\<lparr>stream_versions := (stream_versions own0)(append_key a \<mapsto> cur + 1)\<rparr> \<and>
      batch (base s') (holds s' j) key as1 own0 out \<and> checked s' j own0 as1 a cur \<and> row_for key a cur r (fst gt))"
    by (rule opened_steady [OF assms(2,3) at_link(4)]) (metis batch_kept checked_steady)
  with at_link(1-3) show ?thesis by (auto intro: working.at_link)
qed

lemma attuned_steady:
  assumes "attuned s j pm p rs" and "steady i s s'" and "j \<noteq> i"
  shows "attuned s' j pm p rs"
  using assms(1)
proof cases
  case at_rest
  then show ?thesis by (auto intro: attuned.at_rest)
next
  case (appending key as f m)
  with working_steady [OF appending(5) assms(2,3)] show ?thesis by (auto intro: attuned.appending)
next
  case (looking_up key f)
  then have "key \<in> idempotency_keys (base s')" using assms(2) by (auto simp: steady_def)
  with looking_up show ?thesis by (auto intro: attuned.looking_up)
next
  case (confirming f es key as)
  from opened_steady_same [OF assms(2,3) confirming(5)] confirming(1-4) show ?thesis by (auto intro: attuned.confirming)
next
  case (settled k p')
  then show ?thesis by (auto intro: attuned.settled)
next
  case (failing k err)
  then show ?thesis by (auto intro: attuned.failing)
next
  case (failed err)
  then show ?thesis by (auto intro: attuned.failed)
qed

end
