(* ===== verification/PgSteps.thy ===== *)
theory PgSteps imports PgSimulation begin

text \<open>
  One statement answered, case by case along \<open>Append\<close> and the two reads of the command handlers: the
  memory makes the call that takes effect at this answer, or none, and the handlers are attuned again.
\<close>

definition follows ::
  "mem_store \<Rightarrow> proc \<Rightarrow> pg_state \<Rightarrow> pg_state \<Rightarrow> nat \<Rightarrow> proc \<Rightarrow> sql_reply list \<Rightarrow> bool" where
  "follows ms pm s s' i p rs \<longleftrightarrow> steady i s s' \<and>
     (\<exists>pm' ms'. (pm' = pm \<and> ms' = ms \<or> call_step memory_Store pm ms = (pm', ms', [])) \<and>
        mirrors ms' (base s') \<and> attuned s' i pm' p rs)"

lemma follows_still:
  "others_kept i s s' \<Longrightarrow> base s' = base s \<Longrightarrow> mirrors ms (base s) \<Longrightarrow> attuned s' i pm p rs \<Longrightarrow> follows ms pm s s' i p rs"
  by (auto simp: follows_def intro: steady_same)

lemma follows_call:
  "steady i s s' \<Longrightarrow> call_step memory_Store pm ms = (pm', ms', []) \<Longrightarrow> mirrors ms' (base s') \<Longrightarrow> attuned s' i pm' p rs \<Longrightarrow>
   follows ms pm s s' i p rs"
  by (auto simp: follows_def)

inductive_cases twins_append: "twins pm (DoAppend key as f)"
inductive_cases twins_lookup: "twins pm (DoLookupDedupe key f)"
inductive_cases twins_load: "twins pm (DoLoadStream ty aid f)"
inductive_cases twins_publish: "twins pm (DoPublish es p)"

section \<open>Inside Append\<close>

definition inside :: "proc \<Rightarrow> string \<Rightarrow> AppendEvent list \<Rightarrow> (error + Event list \<times> bool \<Rightarrow> proc) \<Rightarrow> sql_reply list \<Rightarrow>
    (replay, Event list \<times> bool) sql \<Rightarrow> bool" where
  "inside pm key as f rs m \<longleftrightarrow> twins pm (DoAppend key as f) \<and> gives_up (DoAppend key as f) \<and>
     after (calling (DoAppend key as f)) rs (handing f (closing m))"

lemma inside_attuned: "inside pm key as f rs m \<Longrightarrow> working s i key as m \<Longrightarrow> attuned s i pm (DoAppend key as f) rs"
  unfolding inside_def by (blast intro: appending)

lemma inside_settled:
  "inside pm key as f rs (\<lambda>d. (r, d)) \<Longrightarrow> twins pm' (f r) \<Longrightarrow> attuned s i pm' (DoAppend key as f) rs"
  by (rule settled [OF _ _ ends_closing]) (auto simp: inside_def)

lemma inside_failing:
  assumes "inside pm key as f rs (\<lambda>d. (Inl err, d))" and "foreign err"
  shows "attuned s i pm' (DoAppend key as f) rs"
proof (rule failing)
  show "ends (handing f (closing (\<lambda>d. (Inl err, d)))) (Return (Inl err))"
    using ends_closing [of f "Inl err"] assms by (simp add: inside_def)
qed (use assms in \<open>auto simp: inside_def\<close>)

text \<open>The next statement of \<open>Append\<close>, and \<open>Append\<close> after its answer.\<close>

lemma inside_next:
  assumes "inside pm key as f rs (sql_bind m g)" and "asks m req rd"
  shows "moves (DoAppend key as f) rs = Inl req"
    and "rd reply = Inr x \<Longrightarrow> inside pm key as f (rs @ [reply]) (g x)"
    and "rd reply = Inl err \<Longrightarrow> inside pm key as f (rs @ [reply]) (\<lambda>d. (Inl err, d))"
proof -
  have a: "after (calling (DoAppend key as f)) rs (handing f (closing (sql_bind m g)))"
    using assms(1) by (simp add: inside_def)
  note w = waits_closing [OF assms(2), of f g]
  show "moves (DoAppend key as f) rs = Inl req" by (rule waits_moves [OF a w])
  from waits_after [OF a w, of reply] assms(1)
  show "rd reply = Inr x \<Longrightarrow> inside pm key as f (rs @ [reply]) (g x)"
    and "rd reply = Inl err \<Longrightarrow> inside pm key as f (rs @ [reply]) (\<lambda>d. (Inl err, d))" by (simp_all add: inside_def)
qed

lemma unmoved_kept: "unmoved i s s' \<Longrightarrow> others_kept i s s' \<and> base s' = base s"
  by (simp add: unmoved_def)

lemma becomes_kept: "becomes i s own ks s' \<Longrightarrow> others_kept i s s' \<and> base s' = base s \<and> wrote s' i = Some own \<and> holds s' i = ks"
  by (simp add: becomes_def)

lemma inside_refused:
  assumes "inside pm key as f rs (\<lambda>d. (Inl err, d))" and "foreign err" and "unmoved i s s'" and "mirrors ms (base s)"
  shows "follows ms pm s s' i (DoAppend key as f) rs"
  using assms unmoved_kept by (blast intro: follows_still inside_failing)

lemma inside_still:
  assumes "inside pm key as f rs m" and "becomes i s own ks s'" and "mirrors ms (base s)" and "working s' i key as m"
  shows "follows ms pm s s' i (DoAppend key as f) rs"
  using assms becomes_kept by (blast intro: follows_still inside_attuned)

text \<open>What the memory answers a twin that appends.\<close>

lemma memory_duplicate:
  assumes "mirrors ms b" and "key \<noteq> []" and "key \<in> idempotency_keys b" and "twins pm (DoAppend key as f)"
    and "es = filter (\<lambda>e. DedupeKey (Metadata e) = key) (log_of b)"
  obtains pm' ms' where "call_step memory_Store pm ms = (pm', ms', [])" and "mirrors ms' b" and "twins pm' (f (Inr (es, True)))"
proof -
  let ?es = "filter (\<lambda>e. DedupeKey (Metadata e) = key) (events ms)"
  obtain r ms' where r: "Append memory_Store key as ms = (r, ms')" by fastforce
  have ms: "mem_inv ms" using assms(1) by (simp add: mirrors_def)
  from mem.append_duplicate [OF ms assms(2) mirrors_key [OF assms(1-3)] r] have
    res: "r = Inr (?es, True)" "mirrors ms' b" using assms(1) by (auto simp: mirrors_def)
  from assms(4) obtain g where "pm = DoAppend key as g"
    "\<And>es es' dup. alikes es es' \<Longrightarrow> twins (g (Inr (es, dup))) (f (Inr (es', dup)))"
    by (rule twins_append) blast+
  with that [of "g r" ms'] r res mirrors_seen [OF assms(1,2)] assms(5) show thesis by simp
qed

lemma memory_conflict:
  assumes "mirrors ms b" and "key \<notin> idempotency_keys b" and "twins pm (DoAppend key as f)"
    and "\<not> versions_match (go_get (stream_versions b)) as"
  obtains pm' ms' where "call_step memory_Store pm ms = (pm', ms', [])" and "mirrors ms' b"
    and "twins pm' (f (Inl ErrVersionConflict))"
proof -
  obtain r ms' where r: "Append memory_Store key as ms = (r, ms')" by fastforce
  have "\<not> versions_match (stream_version (events ms)) as"
    using assms(1,4) alikes_version by (auto simp: mirrors_def committed_wf_def)
  with mem.append_conflict [OF _ _ _ r] assms(1) mirrors_no_key [OF assms(1,2)]
  have res: "r = Inl ErrVersionConflict" "mirrors ms' b" by (auto simp: mirrors_def)
  from assms(3) obtain g where "pm = DoAppend key as g" "twins (g (Inl ErrVersionConflict)) (f (Inl ErrVersionConflict))"
    by (rule twins_append) blast+
  with that [of "g r" ms'] r res show thesis by simp
qed

lemma memory_fresh:
  assumes "mirrors ms b" and "batch b H key as own out" and "apart own b" and "increasing (event_rows own)"
    and "twins pm (DoAppend key as f)" and "length (events ms) + length as \<le> log_capacity"
  obtains pm' ms' where "call_step memory_Store pm ms = (pm', ms', [])" and "mirrors ms' (merged b own)"
    and "twins pm' (f (Inr (out, False)))"
proof -
  obtain r ms' where r: "Append memory_Store key as ms = (r, ms')" by fastforce
  have ms: "mem_inv ms" using assms(1) by (simp add: mirrors_def)
  have key: "key = [] \<or> dedupe ms key = None"
    using assms(2,3) mirrors_no_key [OF assms(1), of key] by (auto simp: batch_def apart_def)
  have "versions_match (stream_version (events ms)) as"
    using assms(1,2) alikes_version by (auto simp: mirrors_def committed_wf_def batch_def)
  from mem.append_fresh [OF ms key this assms(6) r] obtain es where
    es: "r = Inr (es, False)" "recorded_as key (events ms) as es" "events ms' = events ms @ es"
      "dedupe ms' = (if key = [] then dedupe ms else (dedupe ms)(key \<mapsto> es))" "mem_inv ms'" by blast
  note c = commit_mirrors [OF assms(1-4) es(2-5)]
  from assms(5) obtain g where "pm = DoAppend key as g"
    "\<And>es es' dup. alikes es es' \<Longrightarrow> twins (g (Inr (es, dup))) (f (Inr (es', dup)))"
    by (rule twins_append) blast+
  with that [of "g r" ms'] r es(1) c show thesis by simp
qed

lemma at_event_Cons: "as = as1 @ a # as2 \<Longrightarrow> opened s i (\<lambda>own. batch (base s) (holds s i) key (as1 @ [a]) own out) \<Longrightarrow>
    working s i key as (todo key as2 out)"
  by (rule at_event [of as "as1 @ [a]"]) simp_all

section \<open>The statements\<close>

lemma step_check:
  assumes A: "inside pm key as f rs (pg_append_tx replay_driver () key as)" and "key \<noteq> []"
    and own: "opened s i (\<lambda>own. own = no_tables)" and mv: "moves (DoAppend key as f) rs = Inl req"
    and law: "sent req \<Longrightarrow> permitted jsonb i s req reply s'" and m: "mirrors ms (base s)"
  shows "follows ms pm s s' i (DoAppend key as f) (rs @ [reply])"
proof -
  note n = inside_next [OF A [unfolded append_tx_statements if_P [OF assms(2)]] asks_driver(3)]
  from mv n(1) have req: "req = QueryRowStmt (Tx ()) sql_exists_for_update [Text key]" by simp
  with law have "permitted jsonb i s (QueryRowStmt (Tx ()) sql_exists_for_update [Text key]) reply s'"
    by (auto intro: sent.intros)
  then show ?thesis
  proof (cases rule: permitted_check)
    case (refused e)
    with n(3) [of reply] m show ?thesis by (intro inside_refused) auto
  next
    case (key_checked own')
    with own key_checked(2) have t: "own' = no_tables" by simp
    note b = becomes_kept [OF key_checked(3)]
    show ?thesis
    proof (cases "key \<in> idempotency_keys (base s)")
      case True
      with n(2) [of reply True] key_checked t have "inside pm key as f (rs @ [reply]) (rereading key)" by simp
      then show ?thesis
        by (rule inside_still [OF _ key_checked(3) m]) (use True b t assms(2) in \<open>auto intro: at_reread\<close>)
    next
      case False
      with n(2) [of reply False] key_checked t have "inside pm key as f (rs @ [reply]) (reserving key as)" by simp
      then show ?thesis
        by (rule inside_still [OF _ key_checked(3) m]) (use b t assms(2) in \<open>auto intro: at_reserve\<close>)
    qed
  qed
qed

lemma step_reread:
  assumes A: "inside pm key as f rs (rereading key)" and "key \<noteq> []" and used: "key \<in> idempotency_keys (base s)"
    and own: "opened s i (\<lambda>own. own = no_tables)" and mv: "moves (DoAppend key as f) rs = Inl req"
    and law: "sent req \<Longrightarrow> permitted jsonb i s req reply s'" and inv: "state_inv s" and m: "mirrors ms (base s)"
  shows "follows ms pm s s' i (DoAppend key as f) (rs @ [reply])"
proof -
  note n = inside_next [OF A [unfolded rereading_def] asks_dedupe]
  from mv n(1) have "req = QueryStmt (Tx ()) sql_dedupe_events [Text key]" by simp
  with law have "permitted jsonb i s (QueryStmt (Tx ()) sql_dedupe_events [Text key]) reply s'" by (auto intro: sent.intros)
  then show ?thesis
  proof (cases rule: permitted_reread)
    case (refused e)
    with n(3) [of reply] m show ?thesis by (intro inside_refused) auto
  next
    case (broken rs' e)
    from collected_broken obtain err where "foreign err" "collected ''postgres store: scan dedupe event''
      ''postgres store: query dedupe events'' reply = Inl err" unfolding broken(1) by blast
    with n(3) [of reply err] broken m show ?thesis by (intro inside_refused)
  next
    case (key_events own')
    with own have t: "own' = no_tables" by simp
    let ?es = "filter (\<lambda>e. DedupeKey (Metadata e) = key) (log_of (base s))"
    note b = becomes_kept [OF key_events(3)]
    have tw: "twins pm (DoAppend key as f)" using A by (simp add: inside_def)
    from memory_duplicate [OF m assms(2) used tw refl] obtain pm' ms' where
      call: "call_step memory_Store pm ms = (pm', ms', [])" "mirrors ms' (base s)" "twins pm' (f (Inr (?es, True)))" .
    have "inside pm key as f (rs @ [reply])
        (sql_bind (wrapping ''postgres store: commit dedupe read'' (Commit replay_driver ())) (\<lambda>_. sql_return (?es, True)))"
      using n(2) [of reply ?es] key_events(1) t key_rows [OF m state_invD(5) [OF inv] assms(2)] by simp
    then have "attuned s' i pm' (DoAppend key as f) (rs @ [reply])"
      using call(3) b t by (intro confirming [of pm' f ?es]) (auto simp: inside_def)
    with call b show ?thesis by (intro follows_call [of i s s' pm ms pm' ms'] steady_same) auto
  qed
qed

lemma step_reserve:
  assumes A: "inside pm key as f rs (reserving key as)" and "key \<noteq> []"
    and own: "opened s i (\<lambda>own. own = no_tables)" and mv: "moves (DoAppend key as f) rs = Inl req"
    and law: "sent req \<Longrightarrow> permitted jsonb i s req reply s'" and m: "mirrors ms (base s)"
  shows "follows ms pm s s' i (DoAppend key as f) (rs @ [reply])"
proof -
  note n = inside_next [OF A [unfolded reserving_def] asks_driver(1)]
  from mv n(1) have "req = ExecStmt (Tx ()) sql_reserve [Text key]" by simp
  with law have "permitted jsonb i s (ExecStmt (Tx ()) sql_reserve [Text key]) reply s'" by (auto intro: sent.intros)
  then show ?thesis
  proof (cases rule: permitted_reserve)
    case (refused e)
    with n(3) [of reply] m show ?thesis by (intro inside_refused) auto
  next
    case (key_reserved own')
    with own have "no_tables\<lparr>idempotency_keys := insert key (idempotency_keys no_tables)\<rparr> = reserved no_tables key"
      "own' = no_tables" using assms(2) by (simp_all add: reserved_def)
    with becomes_kept [OF key_reserved(5)] have "opened s' i (\<lambda>own. batch (base s') (holds s' i) key [] own [])"
      using batch_start [of "base s" "holds s i" key] by simp
    then have "working s' i key as (todo key as [])" by (rule at_event [rotated]) simp
    with n(2) [of reply "()"] key_reserved(1) show ?thesis by (intro inside_still [OF _ key_reserved(5) m]) simp_all
  qed
qed

lemma step_ensure:
  assumes A: "inside pm key as f rs (todo key (a # as2) out)" and as: "as = as1 @ a # as2"
    and own: "opened s i (\<lambda>own. batch (base s) (holds s i) key as1 own out)" and mv: "moves (DoAppend key as f) rs = Inl req"
    and law: "sent req \<Longrightarrow> permitted jsonb i s req reply s'" and m: "mirrors ms (base s)"
  shows "follows ms pm s s' i (DoAppend key as f) (rs @ [reply])"
proof -
  note n = inside_next [OF A [unfolded todo_Cons] asks_driver(1)]
  let ?req = "ExecStmt (Tx ()) sql_ensure_stream [Text (AppendEvent.AggregateType a), Text (AppendEvent.AggregateID a)]"
  from mv n(1) have "req = ?req" by simp
  with law have "permitted jsonb i s ?req reply s'" by (auto intro: sent.intros)
  then show ?thesis
  proof (cases rule: permitted_ensure)
    case (refused e)
    with n(3) [of reply] m show ?thesis by (intro inside_refused) auto
  next
    case (known own' v)
    with becomes_kept [OF known(3)] own have "working s' i key as (locking key a as2 out)"
      by (intro at_lock [OF as]) auto
    with n(2) [of reply "()"] known(1) show ?thesis by (intro inside_still [OF _ known(3) m]) simp_all
  next
    case (ensured own')
    with becomes_kept [OF ensured(5)] own batch_ensured have "working s' i key as (locking key a as2 out)"
      by (intro at_lock [OF as]) auto
    with n(2) [of reply "()"] ensured(1) show ?thesis by (intro inside_still [OF _ ensured(5) m]) simp_all
  qed
qed

lemma step_lock:
  assumes A: "inside pm key as f rs (locking key a as2 out)" and as: "as = as1 @ a # as2"
    and own: "opened s i (\<lambda>own. batch (base s) (holds s i) key as1 own out)" and mv: "moves (DoAppend key as f) rs = Inl req"
    and law: "sent req \<Longrightarrow> permitted jsonb i s req reply s'" and inv: "state_inv s" and m: "mirrors ms (base s)"
  shows "follows ms pm s s' i (DoAppend key as f) (rs @ [reply])"
proof -
  note n = inside_next [OF A [unfolded locking_def] asks_driver(3)]
  let ?req = "QueryRowStmt (Tx ()) sql_lock_stream [Text (AppendEvent.AggregateType a), Text (AppendEvent.AggregateID a)]"
  from mv n(1) have "req = ?req" by simp
  with law have "permitted jsonb i s ?req reply s'" by (auto intro: sent.intros)
  then show ?thesis
  proof (cases rule: permitted_lock)
    case (refused e)
    with n(3) [of reply] m show ?thesis by (intro inside_refused) auto
  next
    case (locked own' v)
    note b = becomes_kept [OF locked(5)]
    have B: "batch (base s) (holds s i) key as1 own' out" using own locked(2) by simp
    have v: "v = bumped (versions_in s) as1 (append_key a)"
      using B locked(3) by (simp add: batch_def append_key_def go_get_def fun_eq_iff split: option.splits)
    show ?thesis
    proof (cases "ExpectedVersion a \<noteq> NoVersionCheck \<and> ExpectedVersion a \<noteq> v")
      case True
      have "key \<notin> idempotency_keys (base s)"
        using B state_invD(3) [OF inv locked(2)] m by (cases "key = []") (auto simp: batch_def apart_def mirrors_def committed_wf_def)
      moreover have "twins pm (DoAppend key as f)" using A by (simp add: inside_def)
      moreover have "\<not> versions_match (versions_in s) as" using True v by (simp add: as versions_match_append)
      ultimately obtain pm' ms' where
        call: "call_step memory_Store pm ms = (pm', ms', [])" "mirrors ms' (base s)" "twins pm' (f (Inl ErrVersionConflict))"
        using memory_conflict [OF m] by blast
      have "inside pm key as f (rs @ [reply]) (\<lambda>d. (Inl ErrVersionConflict, d))"
        using n(2) [of reply v] locked(1) True by (simp add: sql_fail_def [abs_def])
      from inside_settled [OF this call(3)] call b show ?thesis
        by (intro follows_call [of i s s' pm ms pm' ms'] steady_same) auto
    next
      case False
      then have "inside pm key as f (rs @ [reply]) (inserting key a as2 out v)"
        using n(2) [of reply v] locked(1) unfolding if_not_P [OF False] by simp
      moreover have "batch (base s') (holds s' i) key as1 own' out" using b batch_more_locks [OF B] by auto
      moreover have "checked s' i own' as1 a v" using False v b locked(3) by (auto simp: checked_def append_key_def)
      ultimately have "working s' i key as (inserting key a as2 out v)" using b by (intro at_insert [OF as]) simp
      with \<open>inside pm key as f (rs @ [reply]) (inserting key a as2 out v)\<close> show ?thesis by (rule inside_still [OF _ locked(5) m])
    qed
  qed
qed

lemma step_insert:
  assumes A: "inside pm key as f rs (inserting key a as2 out cur)" and as: "as = as1 @ a # as2"
    and own: "opened s i (\<lambda>own. batch (base s) (holds s i) key as1 own out \<and> checked s i own as1 a cur)"
    and mv: "moves (DoAppend key as f) rs = Inl req"
    and law: "sent req \<Longrightarrow> permitted jsonb i s req reply s'" and m: "mirrors ms (base s)" and keeps: "keeps_payloads jsonb"
  shows "follows ms pm s s' i (DoAppend key as f) (rs @ [reply])"
proof -
  note n = inside_next [OF A [unfolded inserting_def] asks_driver(3)]
  define dk where "dk = (if key = [] then None else Some key)"
  let ?req = "QueryRowStmt (Tx ()) sql_insert_event
       [Text (AppendEvent.AggregateType a), Text (AppendEvent.AggregateID a), BigInt (cur + 1),
        Text (AppendEvent.EventType a), Jsonb (AppendEvent.Payload a), nullable dk]"
  have "nullable dk = (if key \<noteq> [] then Text key else Null)" by (simp add: dk_def nullable_def)
  with mv n(1) have "req = ?req" by simp
  with law have "permitted jsonb i s ?req reply s'" by (auto intro: sent.intros)
  then show ?thesis
  proof (cases rule: permitted_insert)
    case (refused e)
    with n(3) [of reply] m show ?thesis by (intro inside_refused) auto
  next
    case (inserted own' g dk' t)
    let ?r = "\<lparr>global_seq = g, aggregate_type = AppendEvent.AggregateType a, aggregate_id = AppendEvent.AggregateID a,
      row_version = cur + 1, event_type = AppendEvent.EventType a, row_payload = jsonb (AppendEvent.Payload a),
      dedupe_key = dk', correlation_id = None, created_at = t\<rparr>"
    note b = becomes_kept [OF inserted(8)]
    have "dk' = dk" using inserted(1) by (auto simp: nullable_def split: option.splits)
    moreover have "produced (AppendEvent.Payload a)"
      using A as by (auto simp: inside_def elim!: twins_append)
    ultimately have "row_for key a cur ?r g"
      using keeps by (simp add: row_for_def append_key_def dk_def keeps_payloads_def)
    moreover have "checked s' i own' as1 a cur" using own inserted(3) b by (auto simp: checked_def)
    ultimately have "opened s' i (\<lambda>own. \<exists>own0 r. own = insert_row own0 r \<and> batch (base s') (holds s' i) key as1 own0 out \<and>
        checked s' i own0 as1 a cur \<and> row_for key a cur r (fst (g, t)))"
      using b own inserted(3) by auto
    from at_bump [OF as this] n(2) [of reply "(g, t)"] inserted(2) show ?thesis
      by (intro inside_still [OF _ inserted(8) m]) simp_all
  qed
qed

text \<open>The rows of one event are complete.\<close>

lemma event_complete:
  assumes "batch b H key as1 own0 out" and "row_for key a cur r (fst gt)" and "cur = bumped (go_get (stream_versions b)) as1 (append_key a)"
    and "append_key a \<in> H" and "ExpectedVersion a = NoVersionCheck \<or> ExpectedVersion a = cur"
  shows "batch b H key (as1 @ [a]) (appended own0 key r) (out @ [new_event key a cur gt])"
  using assms by (intro batch_next) (auto simp: row_for_def)

lemma step_bump:
  assumes A: "inside pm key as f rs (bumping key a as2 out cur gt)" and as: "as = as1 @ a # as2"
    and own: "opened s i (\<lambda>own. \<exists>own0 r. own = insert_row own0 r \<and> batch (base s) (holds s i) key as1 own0 out \<and>
      checked s i own0 as1 a cur \<and> row_for key a cur r (fst gt))"
    and mv: "moves (DoAppend key as f) rs = Inl req"
    and law: "sent req \<Longrightarrow> permitted jsonb i s req reply s'" and m: "mirrors ms (base s)"
  shows "follows ms pm s s' i (DoAppend key as f) (rs @ [reply])"
proof -
  note n = inside_next [OF A [unfolded bumping_def] asks_driver(1)]
  let ?req = "ExecStmt (Tx ()) sql_bump_stream
    [BigInt (cur + 1), Text (AppendEvent.AggregateType a), Text (AppendEvent.AggregateID a)]"
  from mv n(1) have "req = ?req" by simp
  with law have "permitted jsonb i s ?req reply s'" by (auto intro: sent.intros)
  then show ?thesis
  proof (cases rule: permitted_bump)
    case (refused e)
    with n(3) [of reply] m show ?thesis by (intro inside_refused) auto
  next
    case (bumped own' v)
    from own bumped(2) obtain own0 r where o: "own' = insert_row own0 r" "batch (base s) (holds s i) key as1 own0 out"
      "checked s i own0 as1 a cur" "row_for key a cur r (fst gt)" by blast
    have k: "(AppendEvent.AggregateType a, AppendEvent.AggregateID a) = append_key a" by (simp add: append_key_def)
    note b = becomes_kept [OF bumped(4)]
    have holds: "holds s' i = holds s i" using b o(3) k by (auto simp: checked_def)
    have I: "inside pm key as f (rs @ [reply]) (linking key a as2 out cur gt)" using n(2) [of reply "()"] bumped(1) by simp
    show ?thesis
    proof (cases "key = []")
      case True
      have "own'\<lparr>stream_versions := (stream_versions own')(append_key a \<mapsto> cur + 1)\<rparr> = appended own0 key r"
        using o(1,4) True by (simp add: appended_def insert_row_def row_for_def)
      moreover have "batch (base s) (holds s i) key (as1 @ [a]) (appended own0 key r) (out @ [new_event key a cur gt])"
        using o by (intro event_complete) (auto simp: checked_def)
      ultimately have "working s' i key as (todo key as2 (out @ [new_event key a cur gt]))"
        using b holds k by (intro at_event_Cons [OF as]) simp
      with I True show ?thesis by (intro inside_still [OF _ bumped(4) m]) (simp_all add: linking_def)
    next
      case False
      have "checked s' i own0 as1 a cur" using o(3) b holds by (auto simp: checked_def)
      with o b k holds have "working s' i key as (linking key a as2 out cur gt)"
        by (intro at_link [OF False as]) (auto simp: insert_row_def)
      with I show ?thesis by (intro inside_still [OF _ bumped(4) m])
    qed
  next
    case (not_bumped own')
    from own not_bumped(2,3) show ?thesis by (auto simp: checked_def merged_def insert_row_def append_key_def)
  qed
qed

lemma step_link:
  assumes A: "inside pm key as f rs (linking key a as2 out cur gt)" and "key \<noteq> []" and as: "as = as1 @ a # as2"
    and own: "opened s i (\<lambda>own. \<exists>own0 r.
      own = (insert_row own0 r)\<lparr>stream_versions := (stream_versions own0)(append_key a \<mapsto> cur + 1)\<rparr> \<and>
      batch (base s) (holds s i) key as1 own0 out \<and> checked s i own0 as1 a cur \<and> row_for key a cur r (fst gt))"
    and mv: "moves (DoAppend key as f) rs = Inl req"
    and law: "sent req \<Longrightarrow> permitted jsonb i s req reply s'" and m: "mirrors ms (base s)"
  shows "follows ms pm s s' i (DoAppend key as f) (rs @ [reply])"
proof -
  note n = inside_next [OF A [unfolded linking_def if_P [OF assms(2)]] asks_driver(1)]
  let ?req = "ExecStmt (Tx ()) sql_link_event [Text key, BigInt (fst gt)]"
  from mv n(1) have "req = ?req" by simp
  with law have "permitted jsonb i s ?req reply s'" by (auto intro: sent.intros)
  then show ?thesis
  proof (cases rule: permitted_link)
    case (refused e)
    with n(3) [of reply] m show ?thesis by (intro inside_refused) auto
  next
    case (linked own')
    from own linked(2) obtain own0 r where
      o: "own' = (insert_row own0 r)\<lparr>stream_versions := (stream_versions own0)(append_key a \<mapsto> cur + 1)\<rparr>"
      "batch (base s) (holds s i) key as1 own0 out" "checked s i own0 as1 a cur" "row_for key a cur r (fst gt)" by blast
    have "own'\<lparr>idempotency_key_events := idempotency_key_events own' @ [(key, fst gt)]\<rparr> = appended own0 key r"
      using o(1,4) assms(2) by (simp add: appended_def insert_row_def row_for_def)
    moreover have "batch (base s) (holds s i) key (as1 @ [a]) (appended own0 key r) (out @ [new_event key a cur gt])"
      using o by (intro event_complete) (auto simp: checked_def)
    ultimately have "working s' i key as (todo key as2 (out @ [new_event key a cur gt]))"
      using becomes_kept [OF linked(3)] by (intro at_event_Cons [OF as]) simp
    with n(2) [of reply "()"] linked(1) show ?thesis by (intro inside_still [OF _ linked(3) m]) simp_all
  qed
qed

lemma step_commit:
  assumes A: "inside pm key as f rs (todo key [] out)"
    and own: "opened s i (\<lambda>own. batch (base s) (holds s i) key as own out)" and mv: "moves (DoAppend key as f) rs = Inl req"
    and law: "sent req \<Longrightarrow> permitted jsonb i s req reply s'" and inv: "state_inv s" and m: "mirrors ms (base s)"
    and room: "length (events ms) + length as \<le> log_capacity"
  shows "follows ms pm s s' i (DoAppend key as f) (rs @ [reply])"
proof -
  note n = inside_next [OF A [unfolded todo_Nil] asks_driver(2)]
  from mv n(1) have "req = CommitTx" by simp
  with law have "permitted jsonb i s CommitTx reply s'" by (auto intro: sent.intros)
  have effect: "\<exists>pm' ms'. call_step memory_Store pm ms = (pm', ms', []) \<and> mirrors ms' (base s') \<and>
      twins pm' (f (Inr (out, False))) \<and> steady i s s'"
    if c: "others_kept i s s'" "wrote s i = Some own'" "base s' = merged (base s) own'" for own'
  proof -
    have B: "batch (base s) (holds s i) key as own' out" using own c(2) by simp
    have "twins pm (DoAppend key as f)" using A by (simp add: inside_def)
    from memory_fresh [OF m B state_invD(3,4) [OF inv c(2)] this room] obtain pm' ms' where
      "call_step memory_Store pm ms = (pm', ms', [])" "mirrors ms' (base s')" "twins pm' (f (Inr (out, False)))"
      unfolding c(3) .
    moreover have "steady i s s'" using B by (intro steady_commit [OF inv c(1,2) _ c(3)]) (simp add: batch_def)
    ultimately show ?thesis by blast
  qed
  from \<open>permitted jsonb i s CommitTx reply s'\<close> show ?thesis
  proof (cases rule: permitted_commit)
    case (refused e)
    with n(3) [of reply] m show ?thesis by (intro inside_refused) auto
  next
    case (in_doubt own' e)
    from effect [OF in_doubt(2-4)] inside_failing n(3) [of reply] in_doubt(1) show ?thesis
      by (force intro: follows_call)
  next
    case (committed own')
    have "inside pm key as f (rs @ [reply]) (\<lambda>d. (Inr (out, False), d))"
      using n(2) [of reply "()"] committed(1) by (simp add: sql_return_def [abs_def])
    with effect [OF committed(2-4)] show ?thesis by (blast intro: follows_call inside_settled)
  qed
qed

text \<open>All of \<open>Append\<close>.\<close>

lemma step_append:
  assumes "working s i key as m" and A: "inside pm key as f rs m" and mv: "moves (DoAppend key as f) rs = Inl req"
    and law: "sent req \<Longrightarrow> permitted jsonb i s req reply s'" and inv: "state_inv s" and m: "mirrors ms (base s)"
    and room: "length (events ms) + length as \<le> log_capacity" and keeps: "keeps_payloads jsonb"
  shows "follows ms pm s s' i (DoAppend key as f) (rs @ [reply])"
  using assms(1)
proof cases
  case at_check
  then show ?thesis using step_check [OF _ _ _ mv law m] A by blast
next
  case at_reread
  then show ?thesis using step_reread [OF _ _ _ _ mv law inv m] A by blast
next
  case at_reserve
  then show ?thesis using step_reserve [OF _ _ _ mv law m] A by blast
next
  case (at_event as1 as2 out)
  show ?thesis
  proof (cases as2)
    case Nil
    with at_event A show ?thesis by (intro step_commit [OF _ _ mv law inv m room]) simp_all
  next
    case (Cons a as3)
    with at_event A show ?thesis by (intro step_ensure [OF _ _ _ mv law m]) simp_all
  qed
next
  case (at_lock as1 a as2 out)
  with A show ?thesis by (intro step_lock [OF _ _ _ mv law inv m]) simp_all
next
  case (at_insert as1 a as2 out cur)
  with A show ?thesis by (intro step_insert [OF _ _ _ mv law m keeps]) simp_all
next
  case (at_bump as1 a as2 out cur gt)
  with A show ?thesis by (intro step_bump [OF _ _ _ mv law m]) simp_all
next
  case (at_link as1 a as2 cur out gt)
  with A show ?thesis by (intro step_link [OF _ _ _ _ mv law m]) simp_all
qed

end
