(* ===== verification/PgRefinement.thy ===== *)
theory PgRefinement imports PgSteps Delivery begin

text \<open>
  From statements to runs: every run of the handlers on Postgres, whatever the interleaving of their
  statements and whatever the database refuses, is mirrored by a run on the in-memory store.
\<close>

section \<open>Any call\<close>

lemma ended_moves:
  assumes "after (calling p) rs k" and "ends k p'"
  shows "moves p rs = Inl req \<Longrightarrow> req = RollbackTx \<and> after (calling p) (rs @ [reply]) (\<lambda>d. (p', d))"
    and "is_call p \<Longrightarrow> moves p rs = Inr (q, pub) \<Longrightarrow> q = p' \<and> pub = []"
proof -
  have now: "calling p (fed rs) = k (fed [])" by (rule after_now [OF assms(1)])
  have step: "after (calling p) (rs @ [reply]) (\<lambda>d. (p', d))" if "\<forall>r more. k (fed (r # more)) = (p', fed more)"
    using after_snoc [OF assms(1), of reply "\<lambda>d. (p', d)"] that by blast
  from assms(2) consider "k (fed []) = (p', fed [])"
    | x where "k (fed []) = (x, \<lparr>replies = [], waiting = Some RollbackTx\<rparr>)" "\<forall>r more. k (fed (r # more)) = (p', fed more)"
    unfolding ends_def by blast
  then show "moves p rs = Inl req \<Longrightarrow> req = RollbackTx \<and> after (calling p) (rs @ [reply]) (\<lambda>d. (p', d))"
    by cases (use now step in \<open>auto simp: moves_def fed_def\<close>)
  from assms(2) show "is_call p \<Longrightarrow> moves p rs = Inr (q, pub) \<Longrightarrow> q = p' \<and> pub = []"
    unfolding ends_def using now by (cases p) (auto simp: moves_def fed_def)
qed

lemma rolling_back:
  assumes "permitted jsonb i s RollbackTx reply s'"
  shows "others_kept i s s' \<and> base s' = base s"
  using assms by (cases rule: permitted_rollback) (auto simp: unmoved_def)

lemma handing_return [simp]: "handing f (sql_return x) = Pair (f (Inr x))"
  by (simp add: handing_def fun_eq_iff)

lemma failing_now:
  "is_call p \<Longrightarrow> after (calling p) rs (\<lambda>d. (Return (Inl err), d)) \<Longrightarrow> foreign err \<Longrightarrow> attuned s i pm p rs"
  by (rule failing [OF _ _ ends_now])

lemma settled_now:
  "is_call p \<Longrightarrow> after (calling p) rs (\<lambda>d. (p', d)) \<Longrightarrow> twins pm p' \<Longrightarrow> gives_up p' \<Longrightarrow> attuned s i pm p rs"
  by (rule settled [OF _ _ ends_now])

lemma start_append:
  assumes tw: "twins pm (DoAppend key as f)" and g: "gives_up (DoAppend key as f)" and mv: "moves (DoAppend key as f) [] = Inl req"
    and law: "sent req \<Longrightarrow> permitted jsonb i s req reply s'" and m: "mirrors ms (base s)"
  shows "follows ms pm s s' i (DoAppend key as f) [reply]"
proof -
  note a = after_Nil [of "calling (DoAppend key as f)", unfolded calling_eqs]
  from waits_moves [of "DoAppend key as f", unfolded calling_eqs, OF a waits_Append] mv have "req = BeginTx" by simp
  with law have "permitted jsonb i s BeginTx reply s'" by (auto intro: sent.intros)
  then show ?thesis
  proof (cases rule: permitted_begin)
    case (refused e)
    let ?err = "Errorf ''postgres store: begin tx'' (OtherError e)"
    have "after (calling (DoAppend key as f)) [reply] (\<lambda>d. (f (Inl ?err), d))"
      using waits_after [OF a waits_Append, of reply] refused(1) by (simp add: calling_eqs)
    then have "attuned s' i pm (DoAppend key as f) [reply]"
      using g by (intro failing_now [of _ _ ?err]) simp_all
    with refused(2) m show ?thesis by (intro follows_still) (auto simp: unmoved_def)
  next
    case begun
    note b = becomes_kept [OF begun(2)]
    have I: "inside pm key as f [reply] (pg_append_tx replay_driver () key as)"
      using waits_after [OF a waits_Append, of reply] begun(1) tw g by (simp add: inside_def calling_eqs)
    have "working s' i key as (pg_append_tx replay_driver () key as)"
    proof (cases "key = []")
      case True
      then have "opened s' i (\<lambda>own. batch (base s') (holds s' i) key [] own [])"
        using b batch_start [of "base s" "{}" key] by (simp add: reserved_def)
      then have "working s' i key as (todo key as [])" by (rule at_event [rotated]) simp
      with True show ?thesis by (simp add: append_tx_statements)
    next
      case False
      with b show ?thesis by (intro at_check) simp_all
    qed
    with I show ?thesis by (rule inside_still [OF _ begun(2) m])
  qed
qed

lemma start_load:
  assumes tw: "twins pm (DoLoadStream ty aid f)" and g: "gives_up (DoLoadStream ty aid f)"
    and mv: "moves (DoLoadStream ty aid f) [] = Inl req"
    and law: "sent req \<Longrightarrow> permitted jsonb i s req reply s'" and m: "mirrors ms (base s)"
  shows "follows ms pm s s' i (DoLoadStream ty aid f) [reply]"
proof -
  note a = after_Nil [of "calling (DoLoadStream ty aid f)", unfolded calling_eqs pg_LoadStream_def]
  note w = waits_only [OF asks_driver(4), where f = f]
  note here = calling_eqs pg_LoadStream_def
  from waits_moves [of "DoLoadStream ty aid f", unfolded here, OF a w] mv
  have "req = QueryStmt Pool sql_load_stream [Text ty, Text aid]" by simp
  with law have "permitted jsonb i s (QueryStmt Pool sql_load_stream [Text ty, Text aid]) reply s'" by (auto intro: sent.intros)
  moreover define r where "r = collected ''postgres store: scan event'' ''postgres store: load stream'' reply"
  have k: "after (calling (DoLoadStream ty aid f)) [reply] (\<lambda>d. (f r, d))"
    using waits_after [OF a w, of reply] by (simp add: here r_def)
  have err: "follows ms pm s s' i (DoLoadStream ty aid f) [reply]" if "r = Inl err" "foreign err" "unmoved i s s'" for err
  proof -
    have "attuned s' i pm (DoLoadStream ty aid f) [reply]"
      using k that(1,2) g by (intro failing_now [of _ _ err]) simp_all
    with that(3) m show ?thesis by (intro follows_still) (auto simp: unmoved_def)
  qed
  ultimately show ?thesis
  proof (cases rule: permitted_load)
    case (refused e)
    with err show ?thesis by (simp add: r_def)
  next
    case (broken rs e)
    with err collected_broken show ?thesis unfolding r_def by metis
  next
    case loaded
    have r: "r = Inr (stream_events (log_of (base s)) (ty, aid))" using loaded(1) stream_rows [OF m] by (simp add: r_def)
    let ?h = "stream_events (events ms) (ty, aid)"
    from tw obtain f' where pm: "pm = DoLoadStream ty aid f'" "\<And>h h'. alikes h h' \<Longrightarrow> twins (f' (Inr h)) (f (Inr h'))"
      by (rule twins_load) blast
    have "alikes ?h (stream_events (log_of (base s)) (ty, aid))" using m by (auto simp: mirrors_def intro: alikes_stream)
    then have "attuned s' i (f' (Inr ?h)) (DoLoadStream ty aid f) [reply]"
      using pm(2) g by (intro settled_now [OF _ k]) (simp_all add: r)
    moreover have "call_step memory_Store pm ms = (f' (Inr ?h), ms, [])"
      using m mem.load_stream by (simp add: pm(1) mirrors_def)
    ultimately show ?thesis using m loaded(2) by (intro follows_call steady_same) (auto simp: unmoved_def)
  qed
qed

text \<open>The answer of a lookup in memory.\<close>

lemma memory_lookup:
  assumes "mirrors ms b" and "twins pm (DoLookupDedupe key f)"
    and "es = (if key \<in> idempotency_keys b then filter (\<lambda>e. DedupeKey (Metadata e) = key) (log_of b) else [])"
  obtains pm' where "call_step memory_Store pm ms = (pm', ms, [])" and "twins pm' (f (Inr (es, key \<in> idempotency_keys b)))"
proof -
  from assms(2) obtain f' where pm: "pm = DoLookupDedupe key f'"
    "\<And>es es' found. alikes es es' \<Longrightarrow> twins (f' (Inr (es, found))) (f (Inr (es', found)))" by (rule twins_lookup) blast
  have ms: "mem_inv ms" "[] \<notin> idempotency_keys b" using assms(1) by (simp_all add: mirrors_def committed_wf_def)
  show thesis
  proof (cases "key \<in> idempotency_keys b")
    case True
    with ms have "key \<noteq> []" by auto
    with True that [of "f' (LookupDedupe memory_Store key ms)"] pm mem.lookup [OF ms(1), of key] mirrors_key [OF assms(1)]
      mirrors_seen [OF assms(1)] assms(3) show thesis by simp
  next
    case False
    with that [of "f' (LookupDedupe memory_Store key ms)"] pm mem.lookup [OF ms(1), of key] mirrors_no_key [OF assms(1)]
      assms(3) show thesis by simp
  qed
qed

lemma start_lookup:
  assumes tw: "twins pm (DoLookupDedupe key f)" and g: "gives_up (DoLookupDedupe key f)" and key: "key \<noteq> []"
    and mv: "moves (DoLookupDedupe key f) [] = Inl req"
    and law: "sent req \<Longrightarrow> permitted jsonb i s req reply s'" and m: "mirrors ms (base s)"
  shows "follows ms pm s s' i (DoLookupDedupe key f) [reply]"
proof -
  note here = calling_eqs pg_LookupDedupe_def if_not_P [OF key]
  note a = after_Nil [of "calling (DoLookupDedupe key f)", unfolded here]
  note w = waits_bind [OF asks_driver(3), where f = f]
  from waits_moves [of "DoLookupDedupe key f", unfolded here, OF a w] mv
  have "req = QueryRowStmt Pool sql_exists [Text key]" by simp
  with law have "permitted jsonb i s (QueryRowStmt Pool sql_exists [Text key]) reply s'" by (auto intro: sent.intros)
  then show ?thesis
  proof (cases rule: permitted_exists)
    case (refused e)
    let ?err = "Errorf ''postgres store: lookup dedupe'' (OtherError e)"
    have "after (calling (DoLookupDedupe key f)) [reply] (\<lambda>d. (f (Inl ?err), d))"
      using waits_after [OF a w, of reply] refused(1) by (simp add: here)
    then have "attuned s' i pm (DoLookupDedupe key f) [reply]"
      using g by (intro failing_now [of _ _ ?err]) simp_all
    with refused(2) m show ?thesis by (intro follows_still) (auto simp: unmoved_def)
  next
    case looked_up
    have kept: "others_kept i s s'" "base s' = base s" using looked_up(2) by (simp_all add: unmoved_def)
    show ?thesis
    proof (cases "key \<in> idempotency_keys (base s)")
      case True
      then have "after (calling (DoLookupDedupe key f)) [reply]
          (handing f (sql_bind (loadDedupeEvents replay_driver Pool key) (\<lambda>es. sql_return (es, True))))"
        using waits_after [OF a w, of reply] looked_up(1) by (simp add: here)
      with tw g key True kept have "attuned s' i pm (DoLookupDedupe key f) [reply]" by (intro looking_up) simp_all
      with kept m show ?thesis by (intro follows_still)
    next
      case False
      have k: "after (calling (DoLookupDedupe key f)) [reply] (\<lambda>d. (f (Inr ([], False)), d))"
        using waits_after [OF a w, of reply] looked_up(1) False by (simp add: here)
      from memory_lookup [OF m tw refl] False obtain pm' where
        "call_step memory_Store pm ms = (pm', ms, [])" "twins pm' (f (Inr ([], False)))" by auto
      moreover from this g have "attuned s' i pm' (DoLookupDedupe key f) [reply]"
        by (intro settled_now [OF _ k]) simp_all
      ultimately show ?thesis using kept m by (intro follows_call steady_same) simp_all
    qed
  qed
qed

lemma step_looking_up:
  assumes tw: "twins pm (DoLookupDedupe key f)" and g: "gives_up (DoLookupDedupe key f)" and key: "key \<noteq> []"
    and used: "key \<in> idempotency_keys (base s)"
    and a: "after (calling (DoLookupDedupe key f)) rs
      (handing f (sql_bind (loadDedupeEvents replay_driver Pool key) (\<lambda>es. sql_return (es, True))))"
    and mv: "moves (DoLookupDedupe key f) rs = Inl req" and law: "sent req \<Longrightarrow> permitted jsonb i s req reply s'"
    and inv: "state_inv s" and m: "mirrors ms (base s)"
  shows "follows ms pm s s' i (DoLookupDedupe key f) (rs @ [reply])"
proof -
  note w = waits_bind [OF asks_dedupe [of Pool key], where f = f]
  from waits_moves [OF a w] mv have "req = QueryStmt Pool sql_dedupe_events [Text key]" by simp
  with law have "permitted jsonb i s (QueryStmt Pool sql_dedupe_events [Text key]) reply s'" by (auto intro: sent.intros)
  moreover define r where "r = collected ''postgres store: scan dedupe event'' ''postgres store: query dedupe events'' reply"
  have err: "follows ms pm s s' i (DoLookupDedupe key f) (rs @ [reply])" if "r = Inl err" "foreign err" "unmoved i s s'" for err
  proof -
    have "after (calling (DoLookupDedupe key f)) (rs @ [reply]) (\<lambda>d. (f (Inl err), d))"
      using waits_after [OF a w, of reply] that(1) by (simp add: r_def)
    then have "attuned s' i pm (DoLookupDedupe key f) (rs @ [reply])"
      using that(2) g by (intro failing_now [of _ _ err]) simp_all
    with that(3) m show ?thesis by (intro follows_still) (auto simp: unmoved_def)
  qed
  ultimately show ?thesis
  proof (cases rule: permitted_events)
    case (refused e)
    with err show ?thesis by (simp add: r_def)
  next
    case (broken rs' e)
    with err collected_broken show ?thesis unfolding r_def by metis
  next
    case key_events
    let ?es = "filter (\<lambda>e. DedupeKey (Metadata e) = key) (log_of (base s))"
    have k: "after (calling (DoLookupDedupe key f)) (rs @ [reply]) (\<lambda>d. (f (Inr (?es, True)), d))"
      using waits_after [OF a w, of reply] key_events(1) key_rows [OF m state_invD(5) [OF inv] key]
      by simp
    from memory_lookup [OF m tw refl] used obtain pm' where
      "call_step memory_Store pm ms = (pm', ms, [])" "twins pm' (f (Inr (?es, True)))" by auto
    moreover from this g have "attuned s' i pm' (DoLookupDedupe key f) (rs @ [reply])"
      by (intro settled_now [OF _ k]) simp_all
    ultimately show ?thesis using key_events(2) m by (intro follows_call steady_same) (auto simp: unmoved_def)
  qed
qed

lemma step_confirming:
  assumes tw: "twins pm (f (Inr (es, True)))" and g: "gives_up (DoAppend key as f)"
    and a: "after (calling (DoAppend key as f)) rs
      (handing f (closing (sql_bind (wrapping ''postgres store: commit dedupe read'' (Commit replay_driver ()))
         (\<lambda>_. sql_return (es, True)))))"
    and own: "opened s i (\<lambda>own. own = no_tables)" and mv: "moves (DoAppend key as f) rs = Inl req"
    and law: "sent req \<Longrightarrow> permitted jsonb i s req reply s'" and m: "mirrors ms (base s)"
  shows "follows ms pm s s' i (DoAppend key as f) (rs @ [reply])"
proof -
  note w = waits_closing [OF asks_driver(2), where f = f]
  from waits_moves [OF a w] mv have "req = CommitTx" by simp
  with law have p: "permitted jsonb i s CommitTx reply s'" by (auto intro: sent.intros)
  then have kept: "others_kept i s s' \<and> base s' = base s"
    by (cases rule: permitted_commit) (use own in \<open>auto simp: unmoved_def\<close>)
  have "attuned s' i pm (DoAppend key as f) (rs @ [reply])"
  proof (cases reply)
    case Done
    then have "after (calling (DoAppend key as f)) (rs @ [reply]) (handing f (closing (\<lambda>d. (Inr (es, True), d))))"
      using waits_after [OF a w, of reply] by (simp add: sql_return_def [abs_def])
    from settled [OF _ this ends_closing tw] g show ?thesis by simp
  next
    case (Refused err)
    then have k: "after (calling (DoAppend key as f)) (rs @ [reply])
        (handing f (closing (\<lambda>d. (Inl (Errorf ''postgres store: commit dedupe read'' err), d))))"
      using waits_after [OF a w, of reply] by simp
    have e: "foreign err" using p Refused by (cases rule: permitted_commit) auto
    with g have "ends (handing f (closing (\<lambda>d. (Inl (Errorf ''postgres store: commit dedupe read'' err), d))))
        (Return (Inl (Errorf ''postgres store: commit dedupe read'' err)))"
      using ends_closing [of f "Inl (Errorf ''postgres store: commit dedupe read'' err)"] by simp
    from failing [OF _ k this] e show ?thesis by simp
  qed (use p in \<open>auto elim: permitted_commit\<close>)
  with kept m show ?thesis by (intro follows_still) simp_all
qed

text \<open>Any handler, at any statement.\<close>

lemma step_answer:
  assumes "attuned s i pm p rs" and mv: "moves p rs = Inl req"
    and answer: "permitted jsonb i s req reply s'" and inv: "state_inv s" and m: "mirrors ms (base s)"
    and room: "\<forall>key as g. pm = DoAppend key as g \<longrightarrow> length (events ms) + length as \<le> log_capacity"
    and keeps: "keeps_payloads jsonb"
  shows "follows ms pm s s' i p (rs @ [reply])"
proof -
  have law: "sent req \<Longrightarrow> permitted jsonb i s req reply s'" by (rule answer)
  from assms(1) show ?thesis
  proof cases
    case at_rest
    show ?thesis
    proof (cases p)
      case (DoAppend key as f)
      with at_rest mv have "twins pm (DoAppend key as f)" "gives_up (DoAppend key as f)" "moves (DoAppend key as f) [] = Inl req"
        by simp_all
      from start_append [OF this law m] DoAppend at_rest(1) show ?thesis by simp
    next
      case (DoLoadStream ty aid f)
      with at_rest mv have "twins pm (DoLoadStream ty aid f)" "gives_up (DoLoadStream ty aid f)" "moves (DoLoadStream ty aid f) [] = Inl req"
        by simp_all
      from start_load [OF this law m] DoLoadStream at_rest(1) show ?thesis by simp
    next
      case (DoLookupDedupe key f)
      have "key \<noteq> []" using mv at_rest(1) unfolding DoLookupDedupe by (auto simp: moves_def pg_LookupDedupe_def fed_def)
      moreover from DoLookupDedupe at_rest mv have "twins pm (DoLookupDedupe key f)" "gives_up (DoLookupDedupe key f)"
        "moves (DoLookupDedupe key f) [] = Inl req" by simp_all
      ultimately show ?thesis using start_lookup [OF _ _ _ _ law m] DoLookupDedupe at_rest(1) by simp
    qed (use at_rest(1) mv in \<open>simp_all add: moves_def fed_def\<close>)
  next
    case (appending key as f m')
    have "length (events ms) + length as \<le> log_capacity"
      using appending(2) room by (auto elim: twins_append)
    with appending show ?thesis
      using step_append [OF appending(5) _ _ law inv m _ keeps] mv by (simp add: inside_def)
  next
    case (looking_up key f)
    with mv show ?thesis by (simp add: step_looking_up [OF _ _ _ _ _ _ law inv m])
  next
    case (confirming f es key as)
    with mv show ?thesis by (simp add: step_confirming [OF _ _ _ _ _ law m])
  next
    case (settled k p')
    from ended_moves(1) [OF settled(2,3) mv] have r: "req = RollbackTx" "after (calling p) (rs @ [reply]) (\<lambda>d. (p', d))" by simp_all
    from rolling_back [OF law [unfolded r(1), OF sent.intros(3)]] have "others_kept i s s' \<and> base s' = base s" .
    with settled r(2) m show ?thesis by (intro follows_still settled_now) simp_all
  next
    case (failing k err)
    from ended_moves(1) [OF failing(2,3) mv] have r: "req = RollbackTx"
      "after (calling p) (rs @ [reply]) (\<lambda>d. (Return (Inl err), d))" by simp_all
    from rolling_back [OF law [unfolded r(1), OF sent.intros(3)]] have "others_kept i s s' \<and> base s' = base s" .
    with failing r(2) m show ?thesis by (intro follows_still failing_now) simp_all
  next
    case (failed err)
    with mv show ?thesis by (simp add: moves_def fed_def)
  qed
qed

section \<open>Between two calls\<close>

lemma waits_sent:
  "asks m req rd \<Longrightarrow> sent req \<Longrightarrow> \<exists>req nk. waits (handing f (closing (sql_bind m g))) req nk \<and> sent req"
  using waits_closing by blast

lemma working_waits:
  assumes "working s i key as m"
  shows "\<exists>req nk. waits (handing f (closing m)) req nk \<and> sent req"
  using assms
proof cases
  case at_check
  show ?thesis unfolding at_check(1) append_tx_statements if_P [OF at_check(2)]
    by (rule waits_sent [OF asks_driver(3) sent.intros(4)])
next
  case at_reread
  show ?thesis unfolding at_reread(1) rereading_def by (rule waits_sent [OF asks_dedupe sent.intros(11)])
next
  case at_reserve
  show ?thesis unfolding at_reserve(1) reserving_def by (rule waits_sent [OF asks_driver(1) sent.intros(5)])
next
  case (at_event as1 as2 out)
  show ?thesis
  proof (cases as2)
    case Nil
    show ?thesis unfolding at_event(1) Nil todo_Nil by (rule waits_sent [OF asks_driver(2) sent.intros(2)])
  next
    case (Cons a as3)
    show ?thesis unfolding at_event(1) Cons todo_Cons by (rule waits_sent [OF asks_driver(1) sent.intros(6)])
  qed
next
  case (at_lock as1 a as2 out)
  show ?thesis unfolding at_lock(1) locking_def by (rule waits_sent [OF asks_driver(3) sent.intros(7)])
next
  case (at_insert as1 a as2 out cur)
  have n: "(if key \<noteq> [] then Text key else Null) = nullable (if key = [] then None else Some key)" by (simp add: nullable_def)
  show ?thesis unfolding at_insert(1) inserting_def n by (rule waits_sent [OF asks_driver(3) sent.intros(8)])
next
  case (at_bump as1 a as2 out cur gt)
  show ?thesis unfolding at_bump(1) bumping_def by (rule waits_sent [OF asks_driver(1) sent.intros(9)])
next
  case (at_link as1 a as2 cur out gt)
  show ?thesis unfolding at_link(1) linking_def if_P [OF at_link(2)] by (rule waits_sent [OF asks_driver(1) sent.intros(10)])
qed

text \<open>
  In a call the handler waits for a statement of the store, or is about to end the call; only a lookup
  of the empty key ends at once.
\<close>

lemma attuned_call:
  assumes "attuned s i pm p rs" and "is_call p"
  obtains (waiting) k req nk where "after (calling p) rs k" "waits k req nk" "sent req"
  | (ending) k p' where "after (calling p) rs k" "ends k p'" "attuned s i pm p' []"
  | (no_key) f where "p = DoLookupDedupe [] f" "twins pm p" "gives_up p" "rs = []"
  using assms(1)
proof cases
  case at_rest
  show thesis
  proof (cases p)
    case (DoAppend key as f)
    from waiting [unfolded DoAppend calling_eqs at_rest(1), OF after_Nil waits_Append sent.intros(1)] show thesis .
  next
    case (DoLoadStream ty aid f)
    from waiting [unfolded DoLoadStream calling_eqs pg_LoadStream_def at_rest(1),
      OF after_Nil waits_only [OF asks_driver(4)] sent.intros(13)] show thesis .
  next
    case (DoLookupDedupe key f)
    show thesis
    proof (cases "key = []")
      case True
      with no_key DoLookupDedupe at_rest show thesis by simp
    next
      case False
      from waiting [unfolded DoLookupDedupe calling_eqs pg_LookupDedupe_def if_not_P [OF False] at_rest(1),
        OF after_Nil waits_bind [OF asks_driver(3)] sent.intros(12)] show thesis .
    qed
  qed (use assms(2) in auto)
next
  case (appending key as f m')
  from working_waits [OF appending(5), of f] waiting [of "handing f (closing m')"] appending(1,4) show thesis by blast
next
  case (looking_up key f)
  from waiting [OF looking_up(6) [folded looking_up(1)] waits_bind [OF asks_dedupe] sent.intros(11)] show thesis .
next
  case (confirming f es key as)
  from waiting [OF confirming(4) [folded confirming(1)] waits_closing [OF asks_driver(2)] sent.intros(2)] show thesis .
next
  case (settled k p')
  with ending at_rest show thesis by blast
next
  case (failing k err)
  with ending failed show thesis by blast
qed (use assms(2) in auto)

lemma attuned_sent:
  assumes "attuned s i pm p rs" and mv: "moves p rs = Inl req"
  shows "sent req"
proof -
  have "is_call p" using mv by (cases p) (simp_all add: moves_def fed_def)
  with assms(1) show ?thesis
  proof (cases rule: attuned_call)
    case (waiting k req' nk)
    with waits_moves mv show ?thesis by fastforce
  next
    case (ending k p')
    with ended_moves(1) [OF ending(1,2) mv] sent.intros(3) show ?thesis by simp
  next
    case (no_key f)
    with mv show ?thesis by (simp add: moves_def pg_LookupDedupe_def fed_def)
  qed
qed

text \<open>A handler that does not wait for the database has ended its call, or publishes, or is done.\<close>

lemma step_move:
  assumes "attuned s i pm p rs" and mv: "moves p rs = Inr (p', pub)" and m: "mirrors ms (base s)"
  shows "\<exists>pm' ms' pub'. (pm' = pm \<and> ms' = ms \<and> pub' = [] \<or> call_step memory_Store pm ms = (pm', ms', pub')) \<and>
    mirrors ms' (base s) \<and> attuned s i pm' p' [] \<and> list_all2 alikes pub' pub"
proof -
  have still: ?thesis if "attuned s i pm p' []" "pub = []" using that m by blast
  show ?thesis
  proof (cases "is_call p")
    case True
    from assms(1) True show ?thesis
    proof (cases rule: attuned_call)
      case (waiting k req nk)
      with waits_moves [OF waiting(1,2)] mv show ?thesis by simp
    next
      case (ending k q)
      with ended_moves(2) [OF ending(1,2) True mv] show ?thesis by (intro still) simp_all
    next
      case (no_key f)
      then have p': "p' = f (Inr ([], False))" "pub = []" using mv by (auto simp: moves_def pg_LookupDedupe_def fed_def)
      have "[] \<notin> idempotency_keys (base s)" using m by (simp add: mirrors_def committed_wf_def)
      with memory_lookup [OF m no_key(2) [unfolded no_key(1)] refl] obtain pm' where
        pm: "call_step memory_Store pm ms = (pm', ms, [])" "twins pm' (f (Inr ([], False)))" by auto
      have "attuned s i pm' p' []" using pm(2) p'(1) no_key(1,3) by (auto intro: at_rest)
      with pm(1) p'(2) m show ?thesis by blast
    qed
  next
    case False
    from assms(1) show ?thesis
    proof cases
      case at_rest
      show ?thesis
      proof (cases p)
        case (DoPublish es q)
        then have p': "p' = q" "pub = [es]" using mv at_rest(1) by (auto simp: moves_def fed_def)
        from at_rest(2) obtain es' q' where pm: "pm = DoPublish es' q'" "alikes es' es" "twins q' q"
          unfolding DoPublish by (rule twins_publish) blast
        have "attuned s i q' p' []" using pm(3) p'(1) at_rest(3) DoPublish by (auto intro: attuned.at_rest)
        moreover have "call_step memory_Store pm ms = (q', ms, [es'])" by (simp add: pm(1))
        ultimately show ?thesis using pm(2) p'(2) m by blast
      next
        case (Return r)
        with mv at_rest(1) assms(1) show ?thesis by (intro still) (auto simp: moves_def fed_def)
      next
        case Panic
        with mv at_rest(1) assms(1) show ?thesis by (intro still) (auto simp: moves_def fed_def)
      qed (use False in simp_all)
    next
      case (failed err)
      with mv show ?thesis by (intro still) (auto simp: moves_def fed_def intro: attuned.failed)
    qed (use False in auto)
  qed
qed

section \<open>Runs\<close>

definition related :: "'w server \<Rightarrow> mem_store sys \<Rightarrow> 'w pg_sys \<Rightarrow> bool" where
  "related srv y c \<longleftrightarrow>
     mirrors (store y) (base (observed srv (world c))) \<and> state_inv (observed srv (world c)) \<and>
     length (threads y) = length (sessions c) \<and>
     (\<forall>i<length (sessions c). fst (threads y ! i) = fst (sessions c ! i) \<and>
        attuned (observed srv (world c)) i (snd (threads y ! i)) (fst (snd (sessions c ! i))) (snd (snd (sessions c ! i)))) \<and>
     list_all2 alikes (published y) (pg_published c)"

lemma related_start:
  assumes "unused srv w0"
  shows "related srv \<lparr>store = mem_New clock, threads = [], published = []\<rparr> \<lparr>world = w0, sessions = [], pg_published = []\<rparr>"
proof -
  have "mirrors (mem_New clock) no_tables"
    using mem_inv_New by (auto simp: mirrors_def mem_New_def no_tables_def log_of_def committed_wf_def links_of_def increasing_def fun_eq_iff)
  then show ?thesis using assms by (simp add: related_def unused_def state_inv_def no_tables_def)
qed

text \<open>The other handlers, after a steady step of handler \<open>i\<close>.\<close>

lemma related_update:
  assumes "related srv y c" and "i < length (sessions c)" and "sessions c ! i = (q, p, rs)"
    and "steady i (observed srv (world c)) (observed srv w')" and "state_inv (observed srv w')"
    and "mirrors ms' (base (observed srv w'))" and "attuned (observed srv w') i pm' p' rs'"
    and "list_all2 alikes pub' pub"
  shows "related srv (y\<lparr>store := ms', threads := (threads y)[i := (q, pm')], published := published y @ pub'\<rparr>)
    (c\<lparr>world := w', sessions := (sessions c)[i := (q, p', rs')], pg_published := pg_published c @ pub\<rparr>)"
  using assms attuned_steady [OF _ assms(4)]
  by (auto simp: related_def nth_list_update list_all2_appendI)

text \<open>The memory after the call its handler made, or none.\<close>

lemma call_or_same:
  assumes "i < length (threads y)" and "threads y ! i = (q, pm)"
    and "pm' = pm \<and> ms' = store y \<and> pub = [] \<or> call_step S pm (store y) = (pm', ms', pub)"
  shows "y\<lparr>store := ms', threads := (threads y)[i := (q, pm')], published := published y @ pub\<rparr> = y \<or>
    sys_step S sv y (y\<lparr>store := ms', threads := (threads y)[i := (q, pm')], published := published y @ pub\<rparr>)"
  using assms(3)
proof
  assume "pm' = pm \<and> ms' = store y \<and> pub = []"
  moreover have "(threads y)[i := (q, pm)] = threads y" by (metis assms(2) list_update_id)
  ultimately show ?thesis by simp
next
  assume "call_step S pm (store y) = (pm', ms', pub)"
  from call [OF assms(1,2) this] show ?thesis by (rule disjI2)
qed

lemma related_step:
  assumes R: "related srv y c" and "pg_step srv sv c c'" and laws: "obeys srv jsonb" and keeps: "keeps_payloads jsonb"
    and y: "sys_inv events dedupe mem_inv n y" and room: "2 * Suc n \<le> log_capacity"
  shows "\<exists>y'. (y' = y \<or> sys_step memory_Store sv y y') \<and> related srv y' c'"
  using assms(2)
proof cases
  case (pg_arrive q p)
  have "handler sv (fst q) (snd q) p" using command_handler [of sv "fst q" "snd q" p] pg_arrive(2) by simp
  with pg_arrive R have "related srv (y\<lparr>threads := threads y @ [(q, p)]\<rparr>) c'"
    by (auto simp: related_def nth_append intro!: at_rest twins_handler gives_up_handler less_antisym)
  with pg_arrive(2) show ?thesis by (blast intro: arrive)
next
  case (pg_answer i q p rs req reply w')
  let ?s = "observed srv (world c)"
  let ?pm = "snd (threads y ! i)"
  have i: "i < length (threads y)" "threads y ! i = (q, ?pm)" "attuned ?s i ?pm p rs" "state_inv ?s"
    "mirrors (store y) (base ?s)" using R pg_answer(2,3) by (auto simp: related_def prod_eq_iff)
  have law: "permitted jsonb i ?s req reply (observed srv w')"
    using laws pg_answer(5) attuned_sent [OF i(3) pg_answer(4)] by (simp add: obeys_def)
  have "safe q (events (store y)) ?pm" "length (events (store y)) \<le> 2 * n"
    using y i(1,2) nth_mem by (fastforce simp: sys_inv_def)+
  then have "\<forall>key as g. ?pm = DoAppend key as g \<longrightarrow> length (events (store y)) + length as \<le> log_capacity"
    using room by auto
  from step_answer [OF i(3) pg_answer(4) law i(4,5) this keeps] obtain pm' ms' where
    f: "steady i ?s (observed srv w')" "pm' = ?pm \<and> ms' = store y \<or> call_step memory_Store ?pm (store y) = (pm', ms', [])"
      "mirrors ms' (base (observed srv w'))" "attuned (observed srv w') i pm' p (rs @ [reply])"
    unfolding follows_def by blast
  have inv: "state_inv (observed srv w')" 
    by (rule permitted_inv [OF law i(4)])
  let ?y = "y\<lparr>store := ms', threads := (threads y)[i := (q, pm')], published := published y @ []\<rparr>"
  have "related srv ?y c'"
    using related_update [OF R pg_answer(2,3) f(1) inv f(3,4), of "[]" "[]"] pg_answer(1) by simp
  moreover have "?y = y \<or> sys_step memory_Store sv y ?y"
    using call_or_same [OF i(1,2), of pm' ms' "[]"] f(2) by blast
  ultimately show ?thesis by blast
next
  case (pg_move i q p rs p' pub)
  let ?s = "observed srv (world c)"
  let ?pm = "snd (threads y ! i)"
  have i: "i < length (threads y)" "threads y ! i = (q, ?pm)" "attuned ?s i ?pm p rs" "state_inv ?s"
    "mirrors (store y) (base ?s)" using R pg_move(2,3) by (auto simp: related_def prod_eq_iff)
  from step_move [OF i(3) pg_move(4) i(5)] obtain pm' ms' pub' where
    f: "pm' = ?pm \<and> ms' = store y \<and> pub' = [] \<or> call_step memory_Store ?pm (store y) = (pm', ms', pub')"
      "mirrors ms' (base ?s)" "attuned ?s i pm' p' []" "list_all2 alikes pub' pub" by blast
  let ?y = "y\<lparr>store := ms', threads := (threads y)[i := (q, pm')], published := published y @ pub'\<rparr>"
  have "steady i ?s ?s" by (rule steady_same) (auto simp: others_kept_def)
  from related_update [OF R pg_move(2,3) this i(4) f(2-4)] have "related srv ?y c'"
    unfolding pg_move(1) by simp
  moreover have "?y = y \<or> sys_step memory_Store sv y ?y"
    by (rule call_or_same [OF i(1,2) f(1)])
  ultimately show ?thesis by blast
qed

lemma pg_run_related:
  assumes "pg_reaches srv sv w0 n c" and "obeys srv jsonb" and "keeps_payloads jsonb" and "unused srv w0"
    and "2 * n \<le> log_capacity"
  shows "\<exists>m y. m \<le> n \<and> reaches memory_Store sv (mem_New clock) m y \<and> related srv y c"
  using assms
proof (induction rule: pg_reaches.induct)
  case pg_start
  show ?case
    by (rule exI [of _ 0], rule exI [of _ "\<lparr>store = mem_New clock, threads = [], published = []\<rparr>"])
       (simp add: related_start [OF pg_start(3)] start)
next
  case (pg_further n c c')
  have "2 * n \<le> log_capacity" using pg_further.prems(4) by simp
  from pg_further.IH [OF pg_further.prems(1-3) this] obtain m y where
    y: "m \<le> n" "reaches memory_Store sv (mem_New clock) m y" "related srv y c" by blast
  have room: "2 * Suc m \<le> log_capacity" using y(1) pg_further.prems(4) by simp
  have "2 * m \<le> log_capacity" using room by simp
  then have "sys_inv events dedupe mem_inv m y" by (rule reaches_mem_inv [OF y(2)])
  from related_step [OF y(3) pg_further.hyps(2) pg_further.prems(1,2) this room] obtain y' where
    z: "y' = y \<or> sys_step memory_Store sv y y'" "related srv y' c'" by blast
  from z(1) show ?case
  proof
    assume "y' = y"
    with y(1,2) z(2) show ?case by (intro exI [of _ m] exI [of _ y]) simp
  next
    assume "sys_step memory_Store sv y y'"
    from further [OF y(2) this] y(1) z(2) show ?case by (intro exI [of _ "Suc m"] exI [of _ y']) simp
  qed
qed

text \<open>A handler that has answered, and its twin.\<close>

lemma attuned_answer:
  assumes "attuned s i pm (Return r) rs"
  shows "pm = Return r \<or> (\<exists>err. r = Inl err \<and> foreign err)"
  using assms by cases (auto elim: twins.cases)

lemma attuned_panic: "attuned s i pm Panic rs \<Longrightarrow> pm = Panic"
  by (erule attuned.cases) (auto elim: twins.cases)

end
