(* ===== verification/Mvcc.thy ===== *)
theory Mvcc imports PgRefinement "HOL-Library.AList" begin

text \<open>
  A small database with any number of open transactions that executes the statements of the event
  store under row locks.  It shows that the hypothesis \<open>obeys\<close> can be met, and plays the schedules of
  the witnesses.
\<close>

section \<open>The database\<close>

record mvcc =
  tabs :: event_tables
  txs :: "(nat \<times> event_tables \<times> stream_key list) list"    \<comment> \<open>open transactions: rows written, streams locked\<close>
  numbers :: nat                                               \<comment> \<open>numbers drawn from the sequence\<close>

definition empty_mvcc :: mvcc where
  "empty_mvcc = \<lparr>tabs = no_tables, txs = [], numbers = 0\<rparr>"

definition blocked :: "mvcc \<Rightarrow> nat \<Rightarrow> stream_key \<Rightarrow> bool" where
  "blocked w i k \<longleftrightarrow> list_ex (\<lambda>(j, t, ks). j \<noteq> i \<and> k \<in> set ks) (txs w)"

definition key_taken :: "mvcc \<Rightarrow> nat \<Rightarrow> string \<Rightarrow> bool" where
  "key_taken w i key \<longleftrightarrow> list_ex (\<lambda>(j, t, ks). j \<noteq> i \<and> key \<in> idempotency_keys t) (txs w)"

definition above :: "mvcc \<Rightarrow> int64 \<Rightarrow> bool" where
  "above w g \<longleftrightarrow> 0 < sint g \<and>
     list_all (\<lambda>t. list_all (\<lambda>r. sint (global_seq r) < sint g) (event_rows t)) (tabs w # map (fst \<circ> snd) (txs w))"

definition tx_set :: "nat \<Rightarrow> event_tables \<Rightarrow> stream_key list \<Rightarrow> mvcc \<Rightarrow> mvcc" where
  "tx_set i t ks w = w\<lparr>txs := AList.update i (t, ks) (txs w)\<rparr>"

definition tx_end :: "nat \<Rightarrow> mvcc \<Rightarrow> mvcc" where
  "tx_end i w = w\<lparr>txs := AList.delete i (txs w)\<rparr>"

definition refuse :: "string \<Rightarrow> nat \<Rightarrow> mvcc \<Rightarrow> (sql_reply \<times> mvcc) option" where
  "refuse m i w = Some (Refused (OtherError m), tx_end i w)"

text \<open>A statement in the open transaction of handler \<open>i\<close>; \<open>None\<close>: it waits.\<close>

definition tx_stmt :: "mvcc \<Rightarrow> nat \<Rightarrow> event_tables \<Rightarrow> stream_key list \<Rightarrow> bool \<Rightarrow> sql_value list \<Rightarrow> (sql_reply \<times> mvcc) option" where
  "tx_stmt w i own ks writing args =
     (let seen = merged (tabs w) own in
      case args of
        [Text key] \<Rightarrow>
          if \<not> writing then Some (OneRow [Boolean (key \<in> idempotency_keys seen)], w)
          else if key \<in> idempotency_keys seen then refuse ''duplicate key'' i w
          else if key_taken w i key then None
          else Some (Done, tx_set i (own\<lparr>idempotency_keys := insert key (idempotency_keys own)\<rparr>) ks w)
      | [Text ty, Text aid] \<Rightarrow>
          if writing then
            if stream_versions seen (ty, aid) \<noteq> None then Some (Done, w)
            else if blocked w i (ty, aid) then None
            else Some (Done, tx_set i (own\<lparr>stream_versions := (stream_versions own)((ty, aid) \<mapsto> 0)\<rparr>) ((ty, aid) # ks) w)
          else
            (case stream_versions seen (ty, aid) of
               None \<Rightarrow> refuse ''no rows in result set'' i w
             | Some v \<Rightarrow>
                 if blocked w i (ty, aid) then None
                 else Some (OneRow [BigInt v], tx_set i own ((ty, aid) # ks) w))
      | [Text ty, Text aid, BigInt v, Text et, Jsonb p, key] \<Rightarrow>
          let g = word_of_nat (Suc (numbers w)) in
          if above w g then
            Some (OneRow [BigInt g, TimestampTz 0],
              tx_set i (insert_row own
                \<lparr>global_seq = g, aggregate_type = ty, aggregate_id = aid, row_version = v, event_type = et,
                 row_payload = jsonb_form p, dedupe_key = (case key of Text k \<Rightarrow> Some k | _ \<Rightarrow> None),
                 correlation_id = None, created_at = 0\<rparr>) ks (w\<lparr>numbers := Suc (numbers w)\<rparr>))
          else refuse ''nextval: reached maximum value of sequence'' i w
      | [BigInt v, Text ty, Text aid] \<Rightarrow>
          if stream_versions seen (ty, aid) = None then Some (Done, w)
          else if blocked w i (ty, aid) then None
          else Some (Done, tx_set i (own\<lparr>stream_versions := (stream_versions own)((ty, aid) \<mapsto> v)\<rparr>) ((ty, aid) # ks) w)
      | [Text key, BigInt g] \<Rightarrow>
          Some (Done, tx_set i (own\<lparr>idempotency_key_events := idempotency_key_events own @ [(key, g)]\<rparr>) ks w)
      | _ \<Rightarrow> refuse ''syntax error'' i w)"

definition in_open_tx ::
  "mvcc \<Rightarrow> nat \<Rightarrow> (event_tables \<Rightarrow> stream_key list \<Rightarrow> (sql_reply \<times> mvcc) option) \<Rightarrow> (sql_reply \<times> mvcc) option" where
  "in_open_tx w i f = (case map_of (txs w) i of None \<Rightarrow> refuse ''tx is closed'' i w | Some (own, ks) \<Rightarrow> f own ks)"

definition served :: "mvcc \<Rightarrow> nat \<Rightarrow> sql_request \<Rightarrow> (sql_reply \<times> mvcc) option" where
  "served w i req =
     (case req of
        BeginTx \<Rightarrow> Some (Done, tx_set i no_tables [] w)
      | CommitTx \<Rightarrow> in_open_tx w i (\<lambda>own ks. Some (Done, (tx_end i w)\<lparr>tabs := merged (tabs w) own\<rparr>))
      | RollbackTx \<Rightarrow> Some (Done, tx_end i w)
      | ExecStmt (Tx _) stmt args \<Rightarrow> in_open_tx w i (\<lambda>own ks. tx_stmt w i own ks True args)
      | QueryRowStmt (Tx _) stmt args \<Rightarrow> in_open_tx w i (\<lambda>own ks. tx_stmt w i own ks False args)
      | QueryStmt (Tx _) stmt [Text key] \<Rightarrow>
          in_open_tx w i (\<lambda>own ks. Some (Rows (map event_columns (by_seq (joined_rows (merged (tabs w) own) key))) None, w))
      | QueryRowStmt Pool stmt [Text key] \<Rightarrow> Some (OneRow [Boolean (key \<in> idempotency_keys (tabs w))], w)
      | QueryStmt Pool stmt [Text key] \<Rightarrow> Some (Rows (map event_columns (by_seq (joined_rows (tabs w) key))) None, w)
      | QueryStmt Pool stmt [Text ty, Text aid] \<Rightarrow>
          Some (Rows (map event_columns (by_version (rows_of_stream (tabs w) (ty, aid)))) None, w)
      | _ \<Rightarrow> refuse ''syntax error'' i w)"

text \<open>A statement that waits may be cancelled: a deadlock was found, or a time-out has passed.\<close>

definition cancelled :: "mvcc \<Rightarrow> nat \<Rightarrow> sql_request \<Rightarrow> (sql_reply \<times> mvcc) option" where
  "cancelled w i req = (if served w i req = None then refuse ''deadlock detected'' i w else None)"

definition mvcc_state :: "mvcc \<Rightarrow> pg_state" where
  "mvcc_state w =
     \<lparr>base = tabs w, wrote = (\<lambda>i. map_option fst (map_of (txs w) i)),
      holds = (\<lambda>i. case map_of (txs w) i of None \<Rightarrow> {} | Some (t, ks) \<Rightarrow> set ks)\<rparr>"

definition mvcc_server :: "mvcc server" where
  "mvcc_server =
     \<lparr>serve = (\<lambda>w i req reply w'. served w i req = Some (reply, w') \<or> cancelled w i req = Some (reply, w')),
      observed = mvcc_state\<rparr>"

section \<open>It obeys\<close>

lemma mvcc_state_simps [simp]:
  "base (mvcc_state w) = tabs w" "wrote (mvcc_state w) i = map_option fst (map_of (txs w) i)"
  "holds (mvcc_state w) i = (case map_of (txs w) i of None \<Rightarrow> {} | Some (t, ks) \<Rightarrow> set ks)"
  by (simp_all add: mvcc_state_def)

lemma tx_set_becomes:
  "tabs w' = tabs w \<Longrightarrow> txs w' = AList.update i (own, ks) (txs w) \<Longrightarrow> becomes i (mvcc_state w) own (set ks) (mvcc_state w')"
  by (auto simp: becomes_def others_kept_def update_conv')

lemma tx_end_kept: "tabs w' = tabs w \<Longrightarrow> txs w' = AList.delete i (txs w) \<Longrightarrow> unmoved i (mvcc_state w) (mvcc_state w')"
  by (auto simp: unmoved_def others_kept_def delete_conv')

lemma same_unmoved: "unmoved i (mvcc_state w) (mvcc_state w)"
  by (auto simp: unmoved_def others_kept_def)

lemma refuse_permitted: "refuse m i w = Some (reply, w') \<Longrightarrow> permitted jsonb i (mvcc_state w) req reply (mvcc_state w')"
  by (auto simp: refuse_def tx_end_def intro!: refused tx_end_kept)

lemma not_blocked:
  "\<not> blocked w i k \<Longrightarrow> txs w' = AList.update i v (txs w) \<Longrightarrow> unlocked i (mvcc_state w') k"
  by (auto simp: unlocked_def blocked_def list_ex_iff update_conv' dest!: map_of_SomeD split: option.splits)

lemma not_taken:
  "\<not> key_taken w i key \<Longrightarrow> txs w' = AList.update i v (txs w) \<Longrightarrow> j \<noteq> i \<Longrightarrow> wrote (mvcc_state w') j = Some t \<Longrightarrow>
   key \<notin> idempotency_keys t"
  by (auto simp: key_taken_def list_ex_iff update_conv' dest!: map_of_SomeD)

lemma in_open_tx_permitted:
  assumes "in_open_tx w i f = Some (reply, w')"
    and "\<And>own ks. map_of (txs w) i = Some (own, ks) \<Longrightarrow> f own ks = Some (reply, w') \<Longrightarrow>
      permitted jsonb i (mvcc_state w) req reply (mvcc_state w')"
  shows "permitted jsonb i (mvcc_state w) req reply (mvcc_state w')"
  using assms refuse_permitted by (auto simp: in_open_tx_def split: option.splits)

lemma same_becomes: "map_of (txs w) i = Some (own, ks) \<Longrightarrow> becomes i (mvcc_state w) own (holds (mvcc_state w) i) (mvcc_state w)"
  by (auto simp: becomes_def others_kept_def)

lemma above_fresh:
  assumes "above w g"
  shows "0 < sint g" and "r \<in> set (event_rows (tabs w)) \<Longrightarrow> sint (global_seq r) < sint g"
    and "map_of (txs w) j = Some (t, ks) \<Longrightarrow> r \<in> set (event_rows t) \<Longrightarrow> sint (global_seq r) < sint g"
  using assms by (fastforce simp: above_def list_all_iff dest: map_of_SomeD)+

lemma served_insert:
  assumes "map_of (txs w) i = Some (own, ks)"
    and "tx_stmt w i own ks False [Text ty, Text aid, BigInt v, Text et, Jsonb p, nullable dk] = Some (reply, w')"
  shows "permitted jsonb_form i (mvcc_state w)
    (QueryRowStmt (Tx ()) sql_insert_event [Text ty, Text aid, BigInt v, Text et, Jsonb p, nullable dk]) reply (mvcc_state w')"
proof -
  define g where "g = (word_of_nat (Suc (numbers w)) :: int64)"
  have key: "(case nullable dk of Text k \<Rightarrow> Some k | _ \<Rightarrow> None) = dk" by (simp add: nullable_def split: option.splits)
  show ?thesis
  proof (cases "above w g")
    case True
    let ?own = "insert_row own \<lparr>global_seq = g, aggregate_type = ty, aggregate_id = aid, row_version = v, event_type = et,
                 row_payload = jsonb_form p, dedupe_key = dk, correlation_id = None, created_at = 0\<rparr>"
    have r: "reply = OneRow [BigInt g, TimestampTz 0]" "w' = tx_set i ?own ks (w\<lparr>numbers := Suc (numbers w)\<rparr>)"
      using assms(2) True key by (simp_all add: tx_stmt_def Let_def g_def)
    then have b: "becomes i (mvcc_state w) ?own (holds (mvcc_state w) i) (mvcc_state w')"
      using assms(1) tx_set_becomes [of w' w i ?own ks] by (simp add: tx_set_def)
    note fresh = above_fresh [OF True]
    show ?thesis unfolding r(1)
    proof (rule event_inserted [where own = own and jsonb = jsonb_form])
      show "\<forall>j t. j \<noteq> i \<longrightarrow> wrote (mvcc_state w') j = Some t \<longrightarrow> g \<notin> seqs t"
        using fresh(3) r(2) by (fastforce simp: tx_set_def update_conv' seqs_def)
    qed (use assms(1) fresh b in \<open>auto simp: seqs_def\<close>)
  next
    case False
    with assms(2) have "refuse ''nextval: reached maximum value of sequence'' i w = Some (reply, w')"
      by (simp add: tx_stmt_def Let_def g_def)
    then show ?thesis by (rule refuse_permitted)
  qed
qed

lemma served_permitted:
  assumes "sent req" and "served w i req = Some (reply, w')"
  shows "permitted jsonb_form i (mvcc_state w) req reply (mvcc_state w')"
  using assms(1)
proof cases
  case 1
  with assms(2) tx_set_becomes [of "tx_set i no_tables [] w" w i no_tables "[]"] show ?thesis
    by (auto simp: served_def tx_set_def intro: begun)
next
  case 2
  from assms(2) have "in_open_tx w i (\<lambda>own ks. Some (Done, (tx_end i w)\<lparr>tabs := merged (tabs w) own\<rparr>)) = Some (reply, w')"
    unfolding 2 by (simp add: served_def)
  then show ?thesis unfolding 2
    by (rule in_open_tx_permitted) (auto simp: tx_end_def others_kept_def delete_conv' intro!: committed)
next
  case 3
  with assms(2) show ?thesis
    by (auto simp: served_def tx_end_def others_kept_def delete_conv' intro!: rolled_back)
next
  case (4 key)
  from assms(2) have "in_open_tx w i (\<lambda>own ks. tx_stmt w i own ks False [Text key]) = Some (reply, w')"
    unfolding 4 by (simp add: served_def)
  then show ?thesis unfolding 4
  proof (rule in_open_tx_permitted)
    fix own ks assume own: "map_of (txs w) i = Some (own, ks)" and "tx_stmt w i own ks False [Text key] = Some (reply, w')"
    then show "permitted jsonb_form i (mvcc_state w) (QueryRowStmt (Tx ()) sql_exists_for_update [Text key]) reply (mvcc_state w')"
      using key_checked [of "mvcc_state w" i own "mvcc_state w"] same_becomes [OF own] by (auto simp: tx_stmt_def Let_def)
  qed
next
  case (5 key)
  from assms(2) have "in_open_tx w i (\<lambda>own ks. tx_stmt w i own ks True [Text key]) = Some (reply, w')"
    unfolding 5 by (simp add: served_def)
  then show ?thesis unfolding 5
  proof (rule in_open_tx_permitted)
    fix own ks assume own: "map_of (txs w) i = Some (own, ks)" and r: "tx_stmt w i own ks True [Text key] = Some (reply, w')"
    let ?own = "own\<lparr>idempotency_keys := insert key (idempotency_keys own)\<rparr>"
    show "permitted jsonb_form i (mvcc_state w) (ExecStmt (Tx ()) sql_reserve [Text key]) reply (mvcc_state w')"
    proof (cases "key \<in> idempotency_keys (merged (tabs w) own)")
      case True
      with r show ?thesis by (intro refuse_permitted) (simp add: tx_stmt_def Let_def)
    next
      case False
      with r have w': "reply = Done" "\<not> key_taken w i key" "w' = tx_set i ?own ks w"
        by (simp_all add: tx_stmt_def Let_def split: if_splits)
      then have "becomes i (mvcc_state w) ?own (holds (mvcc_state w) i) (mvcc_state w')"
        using own tx_set_becomes [of w' w i ?own ks] by (simp add: tx_set_def)
      moreover have "\<forall>j t. j \<noteq> i \<longrightarrow> wrote (mvcc_state w') j = Some t \<longrightarrow> key \<notin> idempotency_keys t"
        using not_taken [OF w'(2), of w' "(?own, ks)"] w'(3) by (simp add: tx_set_def)
      ultimately show ?thesis unfolding w'(1) using own False by (intro key_reserved [where own = own]) simp_all
    qed
  qed
next
  case (6 ty aid)
  from assms(2) have "in_open_tx w i (\<lambda>own ks. tx_stmt w i own ks True [Text ty, Text aid]) = Some (reply, w')"
    unfolding 6 by (simp add: served_def)
  then show ?thesis unfolding 6
  proof (rule in_open_tx_permitted)
    fix own ks assume own: "map_of (txs w) i = Some (own, ks)" and r: "tx_stmt w i own ks True [Text ty, Text aid] = Some (reply, w')"
    let ?own = "own\<lparr>stream_versions := (stream_versions own)((ty, aid) \<mapsto> 0)\<rparr>"
    show "permitted jsonb_form i (mvcc_state w) (ExecStmt (Tx ()) sql_ensure_stream [Text ty, Text aid]) reply (mvcc_state w')"
    proof (cases "stream_versions (merged (tabs w) own) (ty, aid)")
      case None
      with r have w': "reply = Done" "\<not> blocked w i (ty, aid)" "w' = tx_set i ?own ((ty, aid) # ks) w"
        by (simp_all add: tx_stmt_def Let_def split: if_splits)
      then have "becomes i (mvcc_state w) ?own (insert (ty, aid) (holds (mvcc_state w) i)) (mvcc_state w')"
        using own tx_set_becomes [of w' w i ?own "(ty, aid) # ks"] by (simp add: tx_set_def)
      with own None w' not_blocked [OF w'(2)] show ?thesis
        by (auto simp: tx_set_def intro!: stream_ensured [where own = own])
    next
      case (Some v)
      with r have "reply = Done" "w' = w" by (simp_all add: tx_stmt_def Let_def)
      with own Some same_becomes [OF own] show ?thesis by (auto intro!: stream_known [where own = own])
    qed
  qed
next
  case (7 ty aid)
  from assms(2) have "in_open_tx w i (\<lambda>own ks. tx_stmt w i own ks False [Text ty, Text aid]) = Some (reply, w')"
    unfolding 7 by (simp add: served_def)
  then show ?thesis unfolding 7
  proof (rule in_open_tx_permitted)
    fix own ks assume own: "map_of (txs w) i = Some (own, ks)" and r: "tx_stmt w i own ks False [Text ty, Text aid] = Some (reply, w')"
    show "permitted jsonb_form i (mvcc_state w) (QueryRowStmt (Tx ()) sql_lock_stream [Text ty, Text aid]) reply (mvcc_state w')"
    proof (cases "stream_versions (merged (tabs w) own) (ty, aid)")
      case None
      with r show ?thesis by (intro refuse_permitted) (simp add: tx_stmt_def Let_def)
    next
      case (Some v)
      with r have w': "reply = OneRow [BigInt v]" "\<not> blocked w i (ty, aid)" "w' = tx_set i own ((ty, aid) # ks) w"
        by (simp_all add: tx_stmt_def Let_def split: if_splits)
      then have "becomes i (mvcc_state w) own (insert (ty, aid) (holds (mvcc_state w) i)) (mvcc_state w')"
        using own tx_set_becomes [of w' w i own "(ty, aid) # ks"] by (simp add: tx_set_def)
      with own Some w' not_blocked [OF w'(2)] show ?thesis
        by (auto simp: tx_set_def intro!: stream_locked [where own = own])
    qed
  qed
next
  case (8 ty aid v et p dk)
  from assms(2) have "in_open_tx w i (\<lambda>own ks. tx_stmt w i own ks False
      [Text ty, Text aid, BigInt v, Text et, Jsonb p, nullable dk]) = Some (reply, w')"
    unfolding 8 by (simp add: served_def)
  then show ?thesis unfolding 8 by (rule in_open_tx_permitted) (rule served_insert)
next
  case (9 v ty aid)
  from assms(2) have "in_open_tx w i (\<lambda>own ks. tx_stmt w i own ks True [BigInt v, Text ty, Text aid]) = Some (reply, w')"
    unfolding 9 by (simp add: served_def)
  then show ?thesis unfolding 9
  proof (rule in_open_tx_permitted)
    fix own ks assume own: "map_of (txs w) i = Some (own, ks)" and r: "tx_stmt w i own ks True [BigInt v, Text ty, Text aid] = Some (reply, w')"
    let ?own = "own\<lparr>stream_versions := (stream_versions own)((ty, aid) \<mapsto> v)\<rparr>"
    show "permitted jsonb_form i (mvcc_state w) (ExecStmt (Tx ()) sql_bump_stream [BigInt v, Text ty, Text aid]) reply (mvcc_state w')"
    proof (cases "stream_versions (merged (tabs w) own) (ty, aid)")
      case None
      with r have "reply = Done" "w' = w" by (simp_all add: tx_stmt_def Let_def)
      with own None same_becomes [OF own] show ?thesis by (auto intro!: stream_not_bumped [where own = own])
    next
      case (Some n)
      with r have w': "reply = Done" "\<not> blocked w i (ty, aid)" "w' = tx_set i ?own ((ty, aid) # ks) w"
        by (simp_all add: tx_stmt_def Let_def split: if_splits)
      then have "becomes i (mvcc_state w) ?own (insert (ty, aid) (holds (mvcc_state w) i)) (mvcc_state w')"
        using own tx_set_becomes [of w' w i ?own "(ty, aid) # ks"] by (simp add: tx_set_def)
      with own Some w' not_blocked [OF w'(2)] show ?thesis
        by (auto simp: tx_set_def intro!: stream_bumped [where own = own])
    qed
  qed
next
  case (10 key g)
  from assms(2) have "in_open_tx w i (\<lambda>own ks. tx_stmt w i own ks True [Text key, BigInt g]) = Some (reply, w')"
    unfolding 10 by (simp add: served_def)
  then show ?thesis unfolding 10
  proof (rule in_open_tx_permitted)
    fix own ks assume own: "map_of (txs w) i = Some (own, ks)" and r: "tx_stmt w i own ks True [Text key, BigInt g] = Some (reply, w')"
    let ?own = "own\<lparr>idempotency_key_events := idempotency_key_events own @ [(key, g)]\<rparr>"
    have w': "reply = Done" "w' = tx_set i ?own ks w" using r by (simp_all add: tx_stmt_def Let_def)
    then have "becomes i (mvcc_state w) ?own (holds (mvcc_state w) i) (mvcc_state w')"
      using own tx_set_becomes [of w' w i ?own ks] by (simp add: tx_set_def)
    with own w'(1) show "permitted jsonb_form i (mvcc_state w) (ExecStmt (Tx ()) sql_link_event [Text key, BigInt g]) reply (mvcc_state w')"
      by (auto intro!: event_linked [where own = own])
  qed
next
  case (11 q key)
  show ?thesis
  proof (cases q)
    case Pool
    with assms(2) show ?thesis unfolding 11 using key_events_looked_up [OF same_unmoved] by (auto simp: served_def)
  next
    case (Tx u)
    with assms(2) have "in_open_tx w i (\<lambda>own ks. Some (Rows (map event_columns (by_seq (joined_rows (merged (tabs w) own) key))) None, w))
        = Some (reply, w')" unfolding 11 by (simp add: served_def)
    then show ?thesis unfolding 11 Tx
    proof (rule in_open_tx_permitted)
      fix own ks assume own: "map_of (txs w) i = Some (own, ks)"
        and r: "Some (Rows (map event_columns (by_seq (joined_rows (merged (tabs w) own) key))) None, w) = Some (reply, w')"
      from key_events [where jsonb = jsonb_form, of "mvcc_state w" i own "mvcc_state w" key] own same_becomes [OF own] r
      show "permitted jsonb_form i (mvcc_state w) (QueryStmt (Tx u) sql_dedupe_events [Text key]) reply (mvcc_state w')" by auto
    qed
  qed
next
  case (12 key)
  with assms(2) show ?thesis using key_looked_up [OF same_unmoved] by (auto simp: served_def)
next
  case (13 ty aid)
  with assms(2) show ?thesis using stream_loaded [OF same_unmoved] by (auto simp: served_def)
qed

lemma mvcc_obeys: "obeys mvcc_server jsonb_form"
  unfolding obeys_def
proof (intro allI impI)
  fix w i req reply w' assume "sent req" "serve mvcc_server w i req reply w'"
  then show "permitted jsonb_form i (observed mvcc_server w) req reply (observed mvcc_server w')"
    using served_permitted refuse_permitted by (auto simp: mvcc_server_def cancelled_def split: if_splits)
qed

lemma mvcc_unused: "unused mvcc_server empty_mvcc"
  by (simp add: unused_def mvcc_server_def empty_mvcc_def)

end
