(* ===== verification/PgGuarantees.thy ===== *)
theory PgGuarantees imports Mvcc begin

text \<open>
  What the service guarantees when it runs on Postgres: any number of processes with any number of
  commands each, statement by statement.  The guarantees of \<open>Guarantees\<close> carry over along the
  simulation; the schedules show what is new: waiting, retries after a conflict, the error a client is
  told when two requests race for one new key, and deadlocks.
\<close>

section \<open>Playing a schedule of statements\<close>

datatype pg_turn = PgArrive request proc | Turn nat | Cancel nat

definition pg_take :: "(mvcc \<Rightarrow> nat \<Rightarrow> sql_request \<Rightarrow> (sql_reply \<times> mvcc) option) \<Rightarrow> nat \<Rightarrow> mvcc pg_sys \<Rightarrow> mvcc pg_sys" where
  "pg_take answer i c =
     (if i < length (sessions c) then
        (case sessions c ! i of (q, p, rs) \<Rightarrow>
         case moves p rs of
           Inl req \<Rightarrow>
             (case answer (world c) i req of
                None \<Rightarrow> c
              | Some (reply, w') \<Rightarrow> c\<lparr>world := w', sessions := (sessions c)[i := (q, p, rs @ [reply])]\<rparr>)
         | Inr (p', pub) \<Rightarrow> c\<lparr>sessions := (sessions c)[i := (q, p', [])], pg_published := pg_published c @ pub\<rparr>)
      else c)"

fun pg_play :: "pg_turn list \<Rightarrow> mvcc pg_sys \<Rightarrow> mvcc pg_sys" where
  "pg_play [] c = c"
| "pg_play (PgArrive q p # ts) c = pg_play ts (c\<lparr>sessions := sessions c @ [(q, p, [])]\<rparr>)"
| "pg_play (Turn i # ts) c = pg_play ts (pg_take served i c)"
| "pg_play (Cancel i # ts) c = pg_play ts (pg_take cancelled i c)"

definition pg_idle :: "mvcc pg_sys" where
  "pg_idle = \<lparr>world = empty_mvcc, sessions = [], pg_published = []\<rparr>"

definition pg_answers :: "(request \<times> proc \<times> sql_reply list) list \<Rightarrow> (request \<times> (error + Result)) option list" where
  "pg_answers ts = map (\<lambda>(q, p, rs). case p of Return r \<Rightarrow> Some (q, r) | _ \<Rightarrow> None) ts"

definition pg_arrivals :: "pg_turn list \<Rightarrow> (request \<times> proc) list" where
  "pg_arrivals ts = concat (map (\<lambda>t. case t of PgArrive q p \<Rightarrow> [(q, p)] | _ \<Rightarrow> []) ts)"

lemma pg_take_step:
  assumes "\<And>w i req reply w'. answer w i req = Some (reply, w') \<Longrightarrow> serve mvcc_server w i req reply w'"
  shows "pg_take answer i c = c \<or> pg_step mvcc_server sv c (pg_take answer i c)"
proof (cases "i < length (sessions c)")
  case True
  obtain q p rs where i: "sessions c ! i = (q, p, rs)" by (cases "sessions c ! i") auto
  show ?thesis
  proof (cases "moves p rs")
    case (Inl req)
    show ?thesis
    proof (cases "answer (world c) i req")
      case (Some a)
      then obtain reply w' where a: "answer (world c) i req = Some (reply, w')" by (cases a) auto
      from pg_answer [OF True i Inl assms [OF a]] True i Inl a show ?thesis by (simp add: pg_take_def)
    qed (use True i Inl in \<open>simp add: pg_take_def\<close>)
  next
    case (Inr a)
    then obtain p' pub where a: "moves p rs = Inr (p', pub)" by (cases a) auto
    from pg_move [OF True i a] True i a show ?thesis by (simp add: pg_take_def)
  qed
qed (simp add: pg_take_def)

lemma pg_play_reaches:
  assumes "pg_reaches mvcc_server sv w0 n c" and "\<forall>(q, p)\<in>set (pg_arrivals ts). command sv q p"
  shows "\<exists>m\<le>n + length ts. pg_reaches mvcc_server sv w0 m (pg_play ts c)"
  using assms
proof (induction ts c arbitrary: n rule: pg_play.induct)
  case (1 c)
  then show ?case by auto
next
  case (2 q p ts c)
  then have "command sv q p" "\<forall>(q, p)\<in>set (pg_arrivals ts). command sv q p" by (auto simp: pg_arrivals_def)
  from 2(1) [OF pg_further [OF "2.prems"(1) pg_arrive [OF this(1)]] this(2)] show ?case by auto
next
  case (3 i ts c)
  have arr: "\<forall>(q, p)\<in>set (pg_arrivals ts). command sv q p" using "3.prems"(2) by (simp add: pg_arrivals_def)
  have "pg_take served i c = c \<or> pg_step mvcc_server sv c (pg_take served i c)"
    by (rule pg_take_step) (simp add: mvcc_server_def)
  then obtain k where "k \<le> Suc n" "pg_reaches mvcc_server sv w0 k (pg_take served i c)"
    using "3.prems"(1) pg_further by (metis le_SucI order_refl)
  with "3.IH" [OF this(2) arr] show ?case by (metis (no_types, lifting) add_Suc_right add_le_mono1 add_Suc length_Cons order_trans pg_play.simps(3))
next
  case (4 i ts c)
  have arr: "\<forall>(q, p)\<in>set (pg_arrivals ts). command sv q p" using "4.prems"(2) by (simp add: pg_arrivals_def)
  have "pg_take cancelled i c = c \<or> pg_step mvcc_server sv c (pg_take cancelled i c)"
    by (rule pg_take_step) (simp add: mvcc_server_def)
  then obtain k where "k \<le> Suc n" "pg_reaches mvcc_server sv w0 k (pg_take cancelled i c)"
    using "4.prems"(1) pg_further by (metis le_SucI order_refl)
  with "4.IH" [OF this(2) arr] show ?case by (metis (no_types, lifting) add_Suc_right add_le_mono1 add_Suc length_Cons order_trans pg_play.simps(4))
qed

definition turns :: "nat \<Rightarrow> nat \<Rightarrow> pg_turn list" where
  "turns n i = replicate n (Turn i)"

lemma pg_arrivals_simps [simp]:
  "pg_arrivals [] = []" "pg_arrivals (ts @ us) = pg_arrivals ts @ pg_arrivals us" "pg_arrivals (turns n i) = []"
  "pg_arrivals (PgArrive q p # ts) = (q, p) # pg_arrivals ts" "pg_arrivals (Cancel i # ts) = pg_arrivals ts"
  by (simp_all add: pg_arrivals_def turns_def concat_eq_Nil_conv)

lemma pg_schedule:
  assumes "\<forall>(q, p)\<in>set (pg_arrivals ts). command demo_sv q p" and "length ts \<le> 100"
  obtains m where "pg_reaches mvcc_server demo_sv empty_mvcc m (pg_play ts pg_idle)" and "2 * m \<le> log_capacity"
proof -
  have "pg_reaches mvcc_server demo_sv empty_mvcc 0 pg_idle" unfolding pg_idle_def by (rule pg_start)
  from pg_play_reaches [OF this assms(1)] obtain m where
    "m \<le> length ts" "pg_reaches mvcc_server demo_sv empty_mvcc m (pg_play ts pg_idle)" by auto
  with assms(2) small_run [of m] that show thesis by simp
qed

text \<open>
  Two withdrawals of 80 from 100, from two processes: both read the account, both open a transaction; the
  second waits for the row the first has locked, finds the version changed, and decides again.
\<close>

definition pg_race :: "pg_turn list" where
  "pg_race =
     PgArrive ((AggregateTypeAccount, ''alice''), ''k1'') (OpenAccount demo_sv ''alice'' 100 ''k1'') # turns 16 0 @
     [PgArrive ((AggregateTypeAccount, ''alice''), ''k2'') (Withdraw demo_sv ''alice'' 80 [] ''k2'' NoVersionCheck),
      PgArrive ((AggregateTypeAccount, ''alice''), ''k3'') (Withdraw demo_sv ''alice'' 80 [] ''k3'' NoVersionCheck)] @
     turns 4 1 @ turns 4 2 @ turns 5 1 @ turns 6 2 @ turns 8 1 @ turns 20 2"

lemma pg_race_outcome:
  "pg_answers (sessions (pg_play pg_race pg_idle))
     = [Some (((AggregateTypeAccount, ''alice''), ''k1''), Inr \<lparr>Applied = True, Duplicate = False, NewVersion = 1\<rparr>),
        Some (((AggregateTypeAccount, ''alice''), ''k2''), Inr \<lparr>Applied = True, Duplicate = False, NewVersion = 2\<rparr>),
        Some (((AggregateTypeAccount, ''alice''), ''k3''), Inl ErrInsufficientFunds)]"
  "account_at (log_of (tabs (world (pg_play pg_race pg_idle)))) ''alice''
     = Inr \<lparr>AccountState.AccountID = ''alice'', Version = 2, Opened = True, BalanceCents = 20\<rparr>"
  "total_in (stream_events (log_of (tabs (world (pg_play pg_race pg_idle)))) (AggregateTypeAccount, ''alice'')) = 100"
  by code_simp+

lemma pg_race_reaches:
  obtains m where "pg_reaches mvcc_server demo_sv empty_mvcc m (pg_play pg_race pg_idle)" and "2 * m \<le> log_capacity"
proof -
  have "\<forall>(q, p)\<in>set (pg_arrivals pg_race). command demo_sv q p" by (auto simp: pg_race_def intro: command.intros)
  moreover have "length pg_race \<le> 100" by (simp add: pg_race_def turns_def)
  ultimately show thesis using that by (rule pg_schedule)
qed

lemma pg_answers_nth:
  assumes "pg_answers ts = xs" and "i < length xs" and "xs ! i = Some (q, r)"
  obtains rs where "i < length ts" and "ts ! i = (q, Return r, rs)"
proof -
  from assms(1,2) have i: "i < length ts" by (auto simp: pg_answers_def)
  with assms(1,3) have "(\<lambda>(q, p, rs). case p of Return r \<Rightarrow> Some (q, r) | _ \<Rightarrow> None) (ts ! i) = Some (q, r)"
    by (auto simp: pg_answers_def)
  with i that show thesis by (cases "ts ! i") (auto split: proc.splits)
qed

text \<open>
  The same deposit sent twice: both look the key up before it is used; the second finds it used when its
  transaction checks again.
\<close>

definition pg_retry :: "pg_turn list" where
  "pg_retry =
     PgArrive ((AggregateTypeAccount, ''alice''), ''k1'') (OpenAccount demo_sv ''alice'' 100 ''k1'') # turns 16 0 @
     [PgArrive ((AggregateTypeAccount, ''alice''), ''k2'') (Deposit demo_sv ''alice'' 80 [] ''k2'' NoVersionCheck),
      PgArrive ((AggregateTypeAccount, ''alice''), ''k2'') (Deposit demo_sv ''alice'' 80 [] ''k2'' NoVersionCheck)] @
     turns 5 1 @ turns 20 2 @ turns 10 1"

lemma pg_retry_outcome:
  "pg_answers (sessions (pg_play pg_retry pg_idle))
     = [Some (((AggregateTypeAccount, ''alice''), ''k1''), Inr \<lparr>Applied = True, Duplicate = False, NewVersion = 1\<rparr>),
        Some (((AggregateTypeAccount, ''alice''), ''k2''), Inr \<lparr>Applied = False, Duplicate = True, NewVersion = 2\<rparr>),
        Some (((AggregateTypeAccount, ''alice''), ''k2''), Inr \<lparr>Applied = True, Duplicate = False, NewVersion = 2\<rparr>)]"
  by code_simp

lemma pg_retry_reaches:
  obtains m where "pg_reaches mvcc_server demo_sv empty_mvcc m (pg_play pg_retry pg_idle)" and "2 * m \<le> log_capacity"
proof -
  have "\<forall>(q, p)\<in>set (pg_arrivals pg_retry). command demo_sv q p" by (auto simp: pg_retry_def intro: command.intros)
  moreover have "length pg_retry \<le> 100" by (simp add: pg_retry_def turns_def)
  ultimately show thesis using that by (rule pg_schedule)
qed

section \<open>What holds of every interleaving\<close>

definition committed_log :: "'w server \<Rightarrow> 'w pg_sys \<Rightarrow> Event list" where
  "committed_log srv c = log_of (base (observed srv (world c)))"

lemma alikes_totals:
  assumes "alikes L M"
  shows "total_in (stream_events L k) = total_in (stream_events M k)"
    and "total_out (stream_events L k) = total_out (stream_events M k)"
    and "total_stock (stream_events L k) = total_stock (stream_events M k)"
    and "total_stocked (stream_events L k) = total_stocked (stream_events M k)"
proof -
  have e: "money_in e = money_in f \<and> money_out e = money_out f \<and> stock_delta e = stock_delta f" if "alike e f" for e f
    using that by (simp add: alike_def decodes_alike_def money_in_def money_out_def stock_delta_def)
  have "map money_in es = map money_in fs \<and> map money_out es = map money_out fs \<and> map stock_delta es = map stock_delta fs \<and>
      map (\<lambda>e. max 0 (stock_delta e)) es = map (\<lambda>e. max 0 (stock_delta e)) fs"
    if "alikes es fs" for es fs using that by (induction rule: list_all2_induct) (auto dest: e)
  from this [OF alikes_stream [OF assms, of k]]
  show "total_in (stream_events L k) = total_in (stream_events M k)"
    "total_out (stream_events L k) = total_out (stream_events M k)"
    "total_stock (stream_events L k) = total_stock (stream_events M k)"
    "total_stocked (stream_events L k) = total_stocked (stream_events M k)"
    by (simp_all add: total_in_def total_out_def total_stock_def total_stocked_def)
qed

lemma alikes_acknowledges:
  assumes "alikes L M" and "acknowledges q L res"
  shows "acknowledges q M res"
proof -
  have "\<exists>f\<in>set M. alike e f" if "e \<in> set L" for e
    using assms(1) that by (induction rule: list_all2_induct) auto
  with assms(2) show ?thesis by (fastforce simp: acknowledges_def alike_def)
qed

text \<open>A run on Postgres and its mirror.\<close>

lemma pg_mirror:
  assumes "obeys srv jsonb" and "keeps_payloads jsonb" and "unused srv w0" and "pg_reaches srv sv w0 n c"
    and "2 * n \<le> log_capacity"
  obtains m y where "m \<le> n" and "reaches memory_Store sv (mem_New clock) m y" and "related srv y c"
    and "2 * m \<le> log_capacity" and "alikes (events (store y)) (committed_log srv c)"
proof -
  from pg_run_related [OF assms(4,1-3,5)] obtain m y where
    y: "m \<le> n" "reaches memory_Store sv (mem_New clock) m y" "related srv y c" by blast
  moreover have "2 * m \<le> log_capacity" using y(1) assms(5) by simp
  moreover have "alikes (events (store y)) (committed_log srv c)"
    using y(3) by (simp add: related_def mirrors_def committed_log_def)
  ultimately show thesis by (rule that)
qed

lemma related_thread:
  assumes "related srv y c" and "i < length (sessions c)" and "sessions c ! i = (q, p, rs)"
  shows "i < length (threads y)" and "threads y ! i = (q, snd (threads y ! i))"
    and "attuned (observed srv (world c)) i (snd (threads y ! i)) p rs"
  using assms by (auto simp: related_def prod_eq_iff)

lemmas on_mvcc = mvcc_obeys jsonb_form_keeps mvcc_unused

lemma mvcc_committed [simp]: "committed_log mvcc_server c = log_of (tabs (world c))"
  by (simp add: committed_log_def mvcc_server_def)

text \<open>
  C6: Postgres is as good as one process with a lock.  Whatever commands arrive at whatever processes,
  however their statements interleave, whatever the database refuses or leaves in doubt, the
  committed log is, up to numbers, times and the form of the payloads, the log of some run of the
  same commands on the in-memory store; the same keys are used, what was published is alike, and
  every command is answered as in that run, or with an error of the database.
\<close>

theorem pg_refines_memory:
  assumes "obeys srv jsonb" and "keeps_payloads jsonb" and "unused srv w0" and "pg_reaches srv sv w0 n c"
    and "2 * n \<le> log_capacity"
  shows "\<exists>m y. m \<le> n \<and> reaches memory_Store sv (mem_New clock) m y \<and>
    alikes (events (store y)) (committed_log srv c) \<and>
    dom (dedupe (store y)) = idempotency_keys (base (observed srv (world c))) \<and>
    list_all2 alikes (published y) (pg_published c) \<and> length (threads y) = length (sessions c) \<and>
    (\<forall>i q r rs. i < length (sessions c) \<and> sessions c ! i = (q, Return r, rs) \<longrightarrow>
       threads y ! i = (q, Return r) \<or> (\<exists>err. r = Inl err \<and> foreign err))"
proof -
  from pg_mirror [OF assms] obtain m y where y: "m \<le> n" "reaches memory_Store sv (mem_New clock) m y"
    "related srv y c" "alikes (events (store y)) (committed_log srv c)" .
  have "threads y ! i = (q, Return r) \<or> (\<exists>err. r = Inl err \<and> foreign err)"
    if "i < length (sessions c)" "sessions c ! i = (q, Return r, rs)" for i q r rs
    using related_thread [OF y(3) that] attuned_answer by metis
  with y show ?thesis by (intro exI [of _ m] exI [of _ y]) (simp add: related_def mirrors_def)
qed

theorem pg_refines_memory_witness:
  "\<exists>m y. reaches memory_Store demo_sv (mem_New (\<lambda>_. 0)) m y \<and>
    alikes (events (store y)) (log_of (tabs (world (pg_play pg_race pg_idle)))) \<and>
    threads y ! 2 = (((AggregateTypeAccount, ''alice''), ''k3''), Return (Inl ErrInsufficientFunds))"
proof -
  obtain n where n: "pg_reaches mvcc_server demo_sv empty_mvcc n (pg_play pg_race pg_idle)" "2 * n \<le> log_capacity"
    by (rule pg_race_reaches)
  obtain rs where "2 < length (sessions (pg_play pg_race pg_idle))" "sessions (pg_play pg_race pg_idle) ! 2
      = (((AggregateTypeAccount, ''alice''), ''k3''), Return (Inl ErrInsufficientFunds), rs)"
    by (rule pg_answers_nth [OF pg_race_outcome(1), of 2]) simp_all
  with pg_refines_memory [OF on_mvcc n, where clock = "\<lambda>_. 0"] show ?thesis by (force simp del: foreign.simps simp: foreign.simps)
qed




definition pg_stock :: "pg_turn list" where
  "pg_stock =
     PgArrive ((AggregateTypeInventoryItem, ''widget''), ''k1'') (AdjustInventory demo_sv ''widget'' 10 [] ''k1'' NoVersionCheck) #
     turns 16 0 @
     [PgArrive ((AggregateTypeInventoryItem, ''widget''), []) (ReserveStock demo_sv ''widget'' 7 ''o1'' [] NoVersionCheck),
      PgArrive ((AggregateTypeInventoryItem, ''widget''), []) (ReserveStock demo_sv ''widget'' 7 ''o2'' [] NoVersionCheck)] @
     turns 4 1 @ turns 5 2 @ turns 12 1 @ turns 12 2"


text \<open>
  C9: Effectively once on Postgres, across processes: of any number of commands under one dedupe key at
  most one is answered \<open>Applied\<close>.
\<close>

theorem pg_at_most_one_applied:
  assumes "obeys srv jsonb" and "keeps_payloads jsonb" and "unused srv w0" and "pg_reaches srv sv w0 n c"
    and "2 * n \<le> log_capacity" and "i < j" and "j < length (sessions c)"
    and "sessions c ! i = ((k, key), Return (Inr res), rs)" and "sessions c ! j = ((k', key), Return (Inr res'), rs')"
    and "key \<noteq> []"
  shows "\<not> (Applied res \<and> Applied res')"
proof
  assume applied: "Applied res \<and> Applied res'"
  from pg_mirror [OF assms(1-5)] obtain m y where
    y: "reaches memory_Store sv (mem_New (\<lambda>_. 0)) m y" "related srv y c" "2 * m \<le> log_capacity" .
  have i: "i < length (sessions c)" using assms(6,7) by simp
  note ti = related_thread [OF y(2) i assms(8)] and tj = related_thread [OF y(2) assms(7,9)]
  have "threads y ! i = ((k, key), Return (Inr res))" "threads y ! j = ((k', key), Return (Inr res'))"
    using ti(2) tj(2) attuned_answer [OF ti(3)] attuned_answer [OF tj(3)] by simp_all
  with winners_two [OF assms(6) tj(1), of _ _ _ _ key] applied have "2 \<le> winners (threads y) key" by simp
  moreover have "winners (threads y) key \<le> 1"
    using reaches_mem_inv [OF y(1,3)] assms(10) by (auto simp: sys_inv_def split: if_splits dest!: spec [of _ key])
  ultimately show False by simp
qed

theorem pg_at_most_one_applied_witness:
  "pg_answers (sessions (pg_play pg_retry pg_idle)) ! 1 = Some (((AggregateTypeAccount, ''alice''), ''k2''),
     Inr \<lparr>Applied = False, Duplicate = True, NewVersion = 2\<rparr>) \<and>
   \<not> (Applied \<lparr>Applied = False, Duplicate = True, NewVersion = 2\<rparr> \<and>
      Applied \<lparr>Applied = True, Duplicate = False, NewVersion = 2\<rparr>)"
proof -
  obtain n where n: "pg_reaches mvcc_server demo_sv empty_mvcc n (pg_play pg_retry pg_idle)" "2 * n \<le> log_capacity"
    by (rule pg_retry_reaches)
  obtain rs where a: "1 < length (sessions (pg_play pg_retry pg_idle))" "sessions (pg_play pg_retry pg_idle) ! 1
      = (((AggregateTypeAccount, ''alice''), ''k2''), Return (Inr \<lparr>Applied = False, Duplicate = True, NewVersion = 2\<rparr>), rs)"
    by (rule pg_answers_nth [OF pg_retry_outcome, of 1]) simp_all
  obtain rs' where b: "2 < length (sessions (pg_play pg_retry pg_idle))" "sessions (pg_play pg_retry pg_idle) ! 2
      = (((AggregateTypeAccount, ''alice''), ''k2''), Return (Inr \<lparr>Applied = True, Duplicate = False, NewVersion = 2\<rparr>), rs')"
    by (rule pg_answers_nth [OF pg_retry_outcome, of 2]) simp_all
  from pg_at_most_one_applied [OF on_mvcc n _ b(1) a(2) b(2)] pg_retry_outcome show ?thesis by simp
qed



end
