(* ===== verification/PgHazards.thy ===== *)
theory PgHazards imports PgGuarantees GrpcServer begin

text \<open>
  Where Postgres shows its seams: two requests that race for a new dedupe key, two transfers that lock
  the same accounts in opposite orders, and a commit that overtakes a smaller sequence number.
\<close>

section \<open>What a refused statement costs\<close>

text \<open>The command will be answered this error: it rolls back, and does not try again.\<close>

definition doomed :: "proc \<Rightarrow> sql_reply list \<Rightarrow> error \<Rightarrow> bool" where
  "doomed p rs err \<longleftrightarrow> moves p rs = Inl RollbackTx \<and>
     (\<forall>ack. moves p (rs @ [ack]) = Inr (Return (Inl err), []))"

lemma refused_doomed:
  assumes "inside pm key as f rs (\<lambda>d. (Inl err, d))" and "foreign err"
  shows "doomed (DoAppend key as f) rs err"
proof -
  let ?k = "handing f (closing (\<lambda>d. (Inl err :: error + Event list \<times> bool, d)))"
  have k: "after (calling (DoAppend key as f)) rs ?k" using assms(1) by (simp add: inside_def)
  have f: "f (Inl err) = Return (Inl err)" using assms by (simp add: inside_def)
  have w: "waits ?k RollbackTx (\<lambda>_ d. (Return (Inl err), d))"
    using f by (auto simp: waits_def handing_def closing_def replay_driver_def ask_def fed_def)
  have "moves (DoAppend key as f) (rs @ [ack]) = Inr (Return (Inl err), [])" for ack
    using after_now [OF waits_after [OF k w, of ack]] by (simp add: moves_def fed_def)
  with waits_moves [OF k w] show ?thesis by (simp add: doomed_def)
qed

text \<open>Who waits for the reservation of a key, and for the lock of a stream.\<close>

definition elsewhere :: "sql_request \<Rightarrow> bool" where
  "elsewhere req \<longleftrightarrow> (\<forall>key. req \<noteq> ExecStmt (Tx ()) sql_reserve [Text key]) \<and>
     (\<forall>ty aid. req \<noteq> QueryRowStmt (Tx ()) sql_lock_stream [Text ty, Text aid])"

lemma working_request:
  assumes "working s i key as m" and I: "inside pm key as f rs m"
  obtains (reserve) "moves (DoAppend key as f) rs = Inl (ExecStmt (Tx ()) sql_reserve [Text key])" "m = reserving key as"
  | (lock) a as2 out where "moves (DoAppend key as f) rs = Inl (QueryRowStmt (Tx ()) sql_lock_stream
        [Text (AppendEvent.AggregateType a), Text (AppendEvent.AggregateID a)])" "m = locking key a as2 out"
  | (other) req where "moves (DoAppend key as f) rs = Inl req" "elsewhere req"
  using assms(1)
proof cases
  case at_check
  from other [OF inside_next(1) [OF I [unfolded at_check(1) append_tx_statements if_P [OF at_check(2)]] asks_driver(3)]]
  show thesis by (simp add: elsewhere_def)
next
  case at_reread
  from other [OF inside_next(1) [OF I [unfolded at_reread(1) rereading_def] asks_dedupe]] show thesis by (simp add: elsewhere_def)
next
  case at_reserve
  from reserve [OF inside_next(1) [OF I [unfolded at_reserve(1) reserving_def] asks_driver(1)]] at_reserve(1) show thesis .
next
  case (at_event as1 as2 out)
  show thesis
  proof (cases as2)
    case Nil
    from other [OF inside_next(1) [OF I [unfolded at_event(1) Nil todo_Nil] asks_driver(2)]] show thesis by (simp add: elsewhere_def)
  next
    case (Cons a as3)
    from other [OF inside_next(1) [OF I [unfolded at_event(1) Cons todo_Cons] asks_driver(1)]] show thesis by (simp add: elsewhere_def)
  qed
next
  case (at_lock as1 a as2 out)
  from lock [OF inside_next(1) [OF I [unfolded at_lock(1) locking_def] asks_driver(3)] at_lock(1)] show thesis .
next
  case (at_insert as1 a as2 out cur)
  from other [OF inside_next(1) [OF I [unfolded at_insert(1) inserting_def] asks_driver(3)]] show thesis by (simp add: elsewhere_def)
next
  case (at_bump as1 a as2 out cur gt)
  from other [OF inside_next(1) [OF I [unfolded at_bump(1) bumping_def] asks_driver(1)]] show thesis by (simp add: elsewhere_def)
next
  case (at_link as1 a as2 cur out gt)
  from other [OF inside_next(1) [OF I [unfolded at_link(1) linking_def if_P [OF at_link(2)]] asks_driver(1)]] show thesis
    by (simp add: elsewhere_def)
qed

lemma attuned_request:
  assumes "attuned s i pm p rs" and mv: "moves p rs = Inl req" and "\<not> elsewhere req"
  obtains key as f m where "p = DoAppend key as f" and "inside pm key as f rs m" and "working s i key as m"
  using assms(1)
proof cases
  case at_rest
  have "elsewhere req"
  proof (cases p)
    case (DoAppend key as f)
    from waits_moves [of "DoAppend key as f" "[]", unfolded calling_eqs, OF after_Nil waits_Append] mv DoAppend at_rest(1)
    show ?thesis by (auto simp: elsewhere_def)
  next
    case (DoLoadStream ty aid f)
    from waits_moves [of "DoLoadStream ty aid f" "[]", unfolded calling_eqs pg_LoadStream_def,
        OF after_Nil waits_only [OF asks_driver(4)]] mv DoLoadStream at_rest(1)
    show ?thesis by (auto simp: elsewhere_def)
  next
    case (DoLookupDedupe key f)
    have "key \<noteq> []" using mv at_rest(1) unfolding DoLookupDedupe by (auto simp: moves_def pg_LookupDedupe_def fed_def)
    from waits_moves [of "DoLookupDedupe key f" "[]", unfolded calling_eqs pg_LookupDedupe_def if_not_P [OF this],
        OF after_Nil waits_bind [OF asks_driver(3)]] mv DoLookupDedupe at_rest(1)
    show ?thesis by (auto simp: elsewhere_def)
  qed (use mv at_rest(1) in \<open>simp_all add: moves_def fed_def\<close>)
  with assms(3) show thesis by blast
next
  case (appending key as f m)
  with that show thesis by (simp add: inside_def)
next
  case (looking_up key f)
  from waits_moves [OF looking_up(6) waits_bind [OF asks_dedupe]] mv looking_up(1) assms(3) show thesis
    by (auto simp: elsewhere_def)
next
  case (confirming f es key as)
  from waits_moves [OF confirming(4) waits_closing [OF asks_driver(2)]] mv confirming(1) assms(3) show thesis
    by (auto simp: elsewhere_def)
next
  case (settled k p')
  from ended_moves(1) [OF settled(2,3) mv] assms(3) show thesis by (auto simp: elsewhere_def)
next
  case (failing k err)
  from ended_moves(1) [OF failing(2,3) mv] assms(3) show thesis by (auto simp: elsewhere_def)
next
  case (failed err)
  with mv show thesis by (simp add: moves_def fed_def)
qed

text \<open>A refused reservation, and a refused lock.\<close>

lemma reserve_refused:
  assumes "attuned s i pm p rs" and mv: "moves p rs = Inl (ExecStmt (Tx ()) sql_reserve [Text k])"
  shows "doomed p (rs @ [Refused (OtherError e)]) (Errorf ''postgres store: reserve dedupe key'' (OtherError e))"
proof -
  have "\<not> elsewhere (ExecStmt (Tx ()) sql_reserve [Text k])" by (simp add: elsewhere_def)
  from attuned_request [OF assms this] obtain key as f m where
    p: "p = DoAppend key as f" "inside pm key as f rs m" "working s i key as m" .
  from working_request [OF p(3,2)] mv p(1) have "m = reserving key as"
    by cases (auto simp: elsewhere_def)
  with p inside_next(3) [OF p(2) [unfolded this reserving_def] asks_driver(1), of "Refused (OtherError e)"]
  show ?thesis by (auto intro: refused_doomed)
qed

lemma lock_refused:
  assumes "attuned s i pm p rs" and mv: "moves p rs = Inl (QueryRowStmt (Tx ()) sql_lock_stream [Text ty, Text aid])"
  shows "doomed p (rs @ [Refused (OtherError e)]) (Errorf ''postgres store: lock stream row'' (OtherError e))"
proof -
  have "\<not> elsewhere (QueryRowStmt (Tx ()) sql_lock_stream [Text ty, Text aid])" by (simp add: elsewhere_def)
  from attuned_request [OF assms this] obtain key as f m where
    p: "p = DoAppend key as f" "inside pm key as f rs m" "working s i key as m" .
  from working_request [OF p(3,2)] mv p(1) obtain a as2 out where "m = locking key a as2 out"
    by cases (auto simp: elsewhere_def)
  with p inside_next(3) [OF p(2) [unfolded this locking_def] asks_driver(3), of "Refused (OtherError e)"]
  show ?thesis by (auto intro: refused_doomed)
qed

text \<open>The statement a session has sent and waits for.\<close>

definition pg_pending :: "'w pg_sys \<Rightarrow> nat \<Rightarrow> sql_request option" where
  "pg_pending c i =
     (case sessions c ! i of (q, p, rs) \<Rightarrow> (case moves p rs of Inl req \<Rightarrow> Some req | Inr _ \<Rightarrow> None))"

lemma pg_pending:
  assumes "pg_pending c i = Some req" and "sessions c ! i = (q, p, rs)"
  shows "moves p rs = Inl req"
  using assms by (simp add: pg_pending_def split: sum.splits)

section \<open>Two requests under one new key\<close>

text \<open>
  C35: The loser of a race for a new dedupe key is told an error.  A command that has found its key unused
  and comes to reserve it after another request's commit is refused by the unique constraint, rolls
  back and answers an error that is no version conflict: it is not retried, and the client is told
  \<open>Internal\<close> where the in-memory store answers the first request's result as a duplicate.
\<close>

theorem new_key_race_fails:
  assumes "obeys srv jsonb" and "keeps_payloads jsonb" and "unused srv w0" and "pg_reaches srv sv w0 n c"
    and "2 * n \<le> log_capacity" and "i < length (sessions c)" and "sessions c ! i = (q, p, rs)"
    and mv: "moves p rs = Inl (ExecStmt (Tx ()) sql_reserve [Text key])"
    and used: "key \<in> idempotency_keys (base (observed srv (world c)))"
    and s: "serve srv (world c) i (ExecStmt (Tx ()) sql_reserve [Text key]) reply w'"
  shows "\<exists>e. reply = Refused (OtherError e) \<and>
    doomed p (rs @ [reply]) (Errorf ''postgres store: reserve dedupe key'' (OtherError e)) \<and>
    status_code (mapError (Errorf ''postgres store: reserve dedupe key'' (OtherError e))) = Internal"
proof -
  from pg_mirror [OF assms(1-5)] obtain m y where y: "related srv y c" .
  note t = related_thread [OF y assms(6,7)]
  have "permitted jsonb i (observed srv (world c)) (ExecStmt (Tx ()) sql_reserve [Text key]) reply (observed srv w')"
    using assms(1) s sent.intros(5) by (simp add: obeys_def)
  then obtain e where "reply = Refused (OtherError e)"
    by (cases rule: permitted_reserve) (use used in \<open>auto simp: merged_def\<close>)
  with reserve_refused [OF t(3) mv] show ?thesis by (auto simp: mapError_def)
qed

definition new_key_race :: "pg_turn list" where
  "new_key_race =
     PgArrive ((AggregateTypeAccount, ''alice''), ''k1'') (OpenAccount demo_sv ''alice'' 100 ''k1'') # turns 16 0 @
     [PgArrive ((AggregateTypeAccount, ''alice''), ''k2'') (Deposit demo_sv ''alice'' 80 [] ''k2'' NoVersionCheck),
      PgArrive ((AggregateTypeAccount, ''alice''), ''k2'') (Deposit demo_sv ''alice'' 80 [] ''k2'' NoVersionCheck)] @
     turns 6 1 @ turns 30 2"

lemma new_key_race_state:
  "pg_pending (pg_play new_key_race pg_idle) 1 = Some (ExecStmt (Tx ()) sql_reserve [Text ''k2''])"
  "idempotency_keys (tabs (world (pg_play new_key_race pg_idle))) = {''k1'', ''k2''}"
  "map_option fst (served (world (pg_play new_key_race pg_idle)) 1 (ExecStmt (Tx ()) sql_reserve [Text ''k2'']))
     = Some (Refused (OtherError ''duplicate key''))"
  "length (sessions (pg_play new_key_race pg_idle)) = 3"
  by code_simp+

theorem new_key_race_fails_witness:
  "\<exists>q p rs. sessions (pg_play new_key_race pg_idle) ! 1 = (q, p, rs) \<and>
    doomed p (rs @ [Refused (OtherError ''duplicate key'')])
      (Errorf ''postgres store: reserve dedupe key'' (OtherError ''duplicate key''))"
proof -
  have "\<forall>(q, p)\<in>set (pg_arrivals new_key_race). command demo_sv q p" by (auto simp: new_key_race_def intro: command.intros)
  moreover have "length new_key_race \<le> 100" by (simp add: new_key_race_def turns_def)
  ultimately obtain n where
    n: "pg_reaches mvcc_server demo_sv empty_mvcc n (pg_play new_key_race pg_idle)" "2 * n \<le> log_capacity"
    by (rule pg_schedule)
  obtain q p rs where t: "sessions (pg_play new_key_race pg_idle) ! 1 = (q, p, rs)"
    by (cases "sessions (pg_play new_key_race pg_idle) ! 1") auto
  obtain w' where w': "served (world (pg_play new_key_race pg_idle)) 1 (ExecStmt (Tx ()) sql_reserve [Text ''k2''])
      = Some (Refused (OtherError ''duplicate key''), w')"
    using new_key_race_state(3) by auto
  have "serve mvcc_server (world (pg_play new_key_race pg_idle)) 1 (ExecStmt (Tx ()) sql_reserve [Text ''k2''])
      (Refused (OtherError ''duplicate key'')) w'"
    using w' by (simp add: mvcc_server_def)
  moreover have "1 < length (sessions (pg_play new_key_race pg_idle))" by (simp add: new_key_race_state)
  moreover have "''k2'' \<in> idempotency_keys (base (observed mvcc_server (world (pg_play new_key_race pg_idle))))"
    by (simp add: mvcc_server_def mvcc_state_def new_key_race_state)
  ultimately show ?thesis
    using new_key_race_fails [OF on_mvcc n _ t pg_pending [OF new_key_race_state(1) t]] t by auto
qed

section \<open>Two commands that wait for each other\<close>

definition awaits_lock :: "'w pg_sys \<Rightarrow> nat \<Rightarrow> stream_key \<Rightarrow> bool" where
  "awaits_lock c i k \<longleftrightarrow> i < length (sessions c) \<and> (case sessions c ! i of (q, p, rs) \<Rightarrow>
     moves p rs = Inl (QueryRowStmt (Tx ()) sql_lock_stream [Text (fst k), Text (snd k)]))"

text \<open>Each of two open transactions waits for a row the other has locked.\<close>

definition deadlocked :: "'w server \<Rightarrow> 'w pg_sys \<Rightarrow> nat \<Rightarrow> stream_key \<Rightarrow> nat \<Rightarrow> stream_key \<Rightarrow> bool" where
  "deadlocked srv c i k j k' \<longleftrightarrow> i \<noteq> j \<and> awaits_lock c i k \<and> awaits_lock c j k' \<and>
     wrote (observed srv (world c)) i \<noteq> None \<and> wrote (observed srv (world c)) j \<noteq> None \<and>
     k \<in> holds (observed srv (world c)) j \<and> k' \<in> holds (observed srv (world c)) i"

text \<open>
  C36: Commands that lock each other's streams cost one of them.  \<open>Append\<close> locks the streams of a batch in
  the order of the batch, so two transfers between the same accounts in opposite directions can each
  hold the row the other waits for.  Then the first answer either is a refusal, after which that
  command ends with \<open>Internal\<close> and no retry, or the database has ended the other transaction, and
  whatever that is answered next is such a refusal.
\<close>

theorem lock_cycle_costs_a_command:
  assumes "obeys srv jsonb" and "keeps_payloads jsonb" and "unused srv w0" and "pg_reaches srv sv w0 n c"
    and "2 * n \<le> log_capacity" and d: "deadlocked srv c i k j k'"
    and s: "serve srv (world c) i (QueryRowStmt (Tx ()) sql_lock_stream [Text (fst k), Text (snd k)]) reply w'"
  shows "(\<exists>e. reply = Refused (OtherError e) \<and> doomed (fst (snd (sessions c ! i))) (snd (snd (sessions c ! i)) @ [reply])
        (Errorf ''postgres store: lock stream row'' (OtherError e))) \<or>
    (\<forall>reply' w''. serve srv w' j (QueryRowStmt (Tx ()) sql_lock_stream [Text (fst k'), Text (snd k')]) reply' w'' \<longrightarrow>
       (\<exists>e. reply' = Refused (OtherError e) \<and> doomed (fst (snd (sessions c ! j))) (snd (snd (sessions c ! j)) @ [reply'])
          (Errorf ''postgres store: lock stream row'' (OtherError e))))"
proof -
  from pg_mirror [OF assms(1-5)] obtain m y where y: "related srv y c" .
  have i: "awaits_lock c i k" and j: "awaits_lock c j k'" and ij: "j \<noteq> i" and held: "k \<in> holds (observed srv (world c)) j"
    using d by (auto simp: deadlocked_def)
  obtain q p rs where x: "i < length (sessions c)" "sessions c ! i = (q, p, rs)"
    "moves p rs = Inl (QueryRowStmt (Tx ()) sql_lock_stream [Text (fst k), Text (snd k)])"
    using i by (auto simp: awaits_lock_def split: prod.splits)
  obtain q' p' rs' where z: "j < length (sessions c)" "sessions c ! j = (q', p', rs')"
    "moves p' rs' = Inl (QueryRowStmt (Tx ()) sql_lock_stream [Text (fst k'), Text (snd k')])"
    using j by (auto simp: awaits_lock_def split: prod.splits)
  note tx = related_thread(3) [OF y x(1,2)] and tz = related_thread(3) [OF y z(1,2)]
  have law: "serve srv w a (QueryRowStmt (Tx ()) sql_lock_stream [Text ty, Text aid]) r v \<Longrightarrow>
      permitted jsonb a (observed srv w) (QueryRowStmt (Tx ()) sql_lock_stream [Text ty, Text aid]) r (observed srv v)" for w a ty aid r v
    using assms(1) sent.intros(7) by (simp add: obeys_def)
  from law [OF s] show ?thesis
  proof (cases rule: permitted_lock)
    case (refused e)
    with lock_refused [OF tx x(3)] x(2) show ?thesis by auto
  next
    case (locked own v)
    have "wrote (observed srv w') j = None"
    proof (rule ccontr)
      assume alive: "wrote (observed srv w') j \<noteq> None"
      then obtain t where t: "wrote (observed srv w') j = Some t" by blast
      have "others_kept i (observed srv (world c)) (observed srv w')" using locked(5) by (simp add: becomes_def)
      from kept_session [OF this ij t] held locked(4) t ij show False
        by (auto simp: unlocked_def)
    qed
    then have "\<exists>e. reply' = Refused (OtherError e)"
      if "serve srv w' j (QueryRowStmt (Tx ()) sql_lock_stream [Text (fst k'), Text (snd k')]) reply' w''" for reply' w''
      using \<open>wrote (observed srv w') j = None\<close> by (auto intro: permitted_lock [OF law [OF that]])
    with lock_refused [OF tz z(3)] z(2) show ?thesis by (metis fst_conv snd_conv)
  qed
qed

text \<open>Alice pays Bob 10 while Bob pays Alice 20.\<close>

definition opposite_transfers :: "pg_turn list" where
  "opposite_transfers =
     PgArrive ((AggregateTypeAccount, ''alice''), ''k1'') (OpenAccount demo_sv ''alice'' 100 ''k1'') # turns 16 0 @
     PgArrive ((AggregateTypeAccount, ''bob''), ''k2'') (OpenAccount demo_sv ''bob'' 100 ''k2'') # turns 16 1 @
     [PgArrive ((AggregateTypeAccount, ''alice''), ''k3'') (Transfer demo_sv ''alice'' ''bob'' 10 ''k3''),
      PgArrive ((AggregateTypeAccount, ''bob''), ''k4'') (Transfer demo_sv ''bob'' ''alice'' 20 ''k4'')] @
     turns 14 2 @ turns 18 3 @ turns 6 2"

text \<open>
  What two sessions wait for, the rows they have locked, what the first is told when it is cancelled, and
  the number of sessions.
\<close>

definition lock_graph :: "mvcc pg_sys \<Rightarrow> nat \<Rightarrow> nat \<Rightarrow>
    (sql_request option \<times> stream_key list option) \<times> (sql_request option \<times> stream_key list option) \<times>
    sql_reply option \<times> nat" where
  "lock_graph c i j =
     ((pg_pending c i, map_option snd (map_of (txs (world c)) i)),
      (pg_pending c j, map_option snd (map_of (txs (world c)) j)),
      Option.bind (pg_pending c i) (\<lambda>req. map_option fst (cancelled (world c) i req)), length (sessions c))"

lemma opposite_transfers_state:
  "lock_graph (pg_play opposite_transfers pg_idle) 2 3
     = ((Some (QueryRowStmt (Tx ()) sql_lock_stream [Text AggregateTypeAccount, Text ''bob'']),
         Some [(AggregateTypeAccount, ''alice''), (AggregateTypeAccount, ''alice'')]),
        (Some (QueryRowStmt (Tx ()) sql_lock_stream [Text AggregateTypeAccount, Text ''alice'']),
         Some [(AggregateTypeAccount, ''bob''), (AggregateTypeAccount, ''bob'')]),
        Some (Refused (OtherError ''deadlock detected'')), 4)"
  by code_simp

theorem lock_cycle_costs_a_command_witness:
  "deadlocked mvcc_server (pg_play opposite_transfers pg_idle) 2 (AggregateTypeAccount, ''bob'') 3 (AggregateTypeAccount, ''alice'') \<and>
   (\<exists>w'. cancelled (world (pg_play opposite_transfers pg_idle)) 2
        (QueryRowStmt (Tx ()) sql_lock_stream [Text AggregateTypeAccount, Text ''bob''])
        = Some (Refused (OtherError ''deadlock detected''), w') \<and>
      ((\<exists>e. Refused (OtherError ''deadlock detected'') = Refused (OtherError e) \<and>
         doomed (fst (snd (sessions (pg_play opposite_transfers pg_idle) ! 2)))
          (snd (snd (sessions (pg_play opposite_transfers pg_idle) ! 2)) @ [Refused (OtherError ''deadlock detected'')])
          (Errorf ''postgres store: lock stream row'' (OtherError e))) \<or>
       (\<forall>reply' w''. serve mvcc_server w' 3 (QueryRowStmt (Tx ()) sql_lock_stream [Text AggregateTypeAccount, Text ''alice'']) reply' w'' \<longrightarrow>
         (\<exists>e. reply' = Refused (OtherError e) \<and>
            doomed (fst (snd (sessions (pg_play opposite_transfers pg_idle) ! 3)))
              (snd (snd (sessions (pg_play opposite_transfers pg_idle) ! 3)) @ [reply'])
              (Errorf ''postgres store: lock stream row'' (OtherError e))))))"
proof -
  let ?c = "pg_play opposite_transfers pg_idle"
  have "\<forall>(q, p)\<in>set (pg_arrivals opposite_transfers). command demo_sv q p"
    by (auto simp: opposite_transfers_def intro: command.intros)
  moreover have "length opposite_transfers \<le> 100" by (simp add: opposite_transfers_def turns_def)
  ultimately obtain n where n: "pg_reaches mvcc_server demo_sv empty_mvcc n ?c" "2 * n \<le> log_capacity"
    by (rule pg_schedule)
  have "awaits_lock ?c 2 (AggregateTypeAccount, ''bob'')" "awaits_lock ?c 3 (AggregateTypeAccount, ''alice'')"
    using opposite_transfers_state by (auto simp: lock_graph_def awaits_lock_def dest: pg_pending)
  then have d: "deadlocked mvcc_server ?c 2 (AggregateTypeAccount, ''bob'') 3 (AggregateTypeAccount, ''alice'')"
    using opposite_transfers_state by (auto simp: lock_graph_def deadlocked_def mvcc_server_def mvcc_state_def)
  obtain w' where w': "cancelled (world ?c) 2 (QueryRowStmt (Tx ()) sql_lock_stream [Text AggregateTypeAccount, Text ''bob''])
      = Some (Refused (OtherError ''deadlock detected''), w')"
    using opposite_transfers_state by (auto simp: lock_graph_def)
  then have s: "serve mvcc_server (world ?c) 2
      (QueryRowStmt (Tx ()) sql_lock_stream [Text (fst (AggregateTypeAccount, ''bob'')), Text (snd (AggregateTypeAccount, ''bob''))])
      (Refused (OtherError ''deadlock detected'')) w'"
    by (simp add: mvcc_server_def)
  from d w' lock_cycle_costs_a_command [OF on_mvcc n d s] show ?thesis
    unfolding fst_conv snd_conv by blast
qed

section \<open>A commit that is overtaken\<close>

text \<open>
  Two accounts are opened from two processes.  Alice's event draws the number 1, Bob's the number 2 and
  is committed first; a catch-up runs; Alice's transaction commits; a second catch-up runs.
\<close>

definition before_commit :: "pg_turn list" where
  "before_commit =
     PgArrive ((AggregateTypeAccount, ''alice''), ''k1'') (OpenAccount demo_sv ''alice'' 100 ''k1'') # turns 10 0 @
     PgArrive ((AggregateTypeAccount, ''bob''), ''k2'') (OpenAccount demo_sv ''bob'' 50 ''k2'') # turns 16 1"

definition committed_db :: "mvcc pg_sys \<Rightarrow> event_tables table_db" where
  "committed_db c = \<lparr>work = tabs (world c), saved = None, drawn = numbers (world c)\<rparr>"

definition pg_catch_up :: "mvcc pg_sys \<Rightarrow> rm_store \<Rightarrow> rm_store option" where
  "pg_catch_up c s =
     map_option (\<lambda>(_, _, s'). s') (CatchUp balances background (postgres_Store log_driver) (committed_db c) catchUpBatchSize s)"

definition after_commit :: "pg_turn list" where
  "after_commit = before_commit @ turns 6 0"

definition twice_caught_up :: "rm_store option" where
  "twice_caught_up =
     Option.bind (pg_catch_up (pg_play before_commit pg_idle) rm_New) (pg_catch_up (pg_play after_commit pg_idle))"


end
