(* ===== verification/Typing.thy ===== *)
theory Typing imports PgGuarantees begin

text \<open>
  The types of the events: which event types an aggregate has, and which struct the payload of each
  holds.  Payloads are opaque to the stores, so nothing but the commands keeps them well typed.
\<close>

section \<open>Domain events\<close>

text \<open>An event as the domain sees it: one constructor for each event type of \<open>events.go\<close>.\<close>

datatype domain_event =
    Opened_event AccountOpened
  | Deposited_event FundsDeposited
  | Withdrawn_event FundsWithdrawn
  | Adjusted_event InventoryAdjusted
  | Reserved_event StockReserved
  | Released_event StockReleased

definition decoded :: "Event \<Rightarrow> domain_event option" where
  "decoded e =
     (if Event.AggregateType e = AggregateTypeAccount then
        if Event.EventType e = EventAccountOpened then
          (case unmarshal_AccountOpened (Event.Payload e) of Inl err \<Rightarrow> None | Inr ev \<Rightarrow> Some (Opened_event ev))
        else if Event.EventType e = EventFundsDeposited then
          (case unmarshal_FundsDeposited (Event.Payload e) of Inl err \<Rightarrow> None | Inr ev \<Rightarrow> Some (Deposited_event ev))
        else if Event.EventType e = EventFundsWithdrawn then
          (case unmarshal_FundsWithdrawn (Event.Payload e) of Inl err \<Rightarrow> None | Inr ev \<Rightarrow> Some (Withdrawn_event ev))
        else None
      else if Event.AggregateType e = AggregateTypeInventoryItem then
        if Event.EventType e = EventInventoryAdjusted then
          (case unmarshal_InventoryAdjusted (Event.Payload e) of Inl err \<Rightarrow> None | Inr ev \<Rightarrow> Some (Adjusted_event ev))
        else if Event.EventType e = EventStockReserved then
          (case unmarshal_StockReserved (Event.Payload e) of Inl err \<Rightarrow> None | Inr ev \<Rightarrow> Some (Reserved_event ev))
        else if Event.EventType e = EventStockReleased then
          (case unmarshal_StockReleased (Event.Payload e) of Inl err \<Rightarrow> None | Inr ev \<Rightarrow> Some (Released_event ev))
        else None
      else None)"

text \<open>The struct names the aggregate of the stream it is in, and its amounts are in range.\<close>

fun proper :: "string \<Rightarrow> domain_event \<Rightarrow> bool" where
  "proper i (Opened_event ev) \<longleftrightarrow> AccountOpened.AccountID ev = i \<and> 0 \<le>s InitialBalanceCents ev"
| "proper i (Deposited_event ev) \<longleftrightarrow> FundsDeposited.AccountID ev = i \<and> 0 <s FundsDeposited.AmountCents ev"
| "proper i (Withdrawn_event ev) \<longleftrightarrow> FundsWithdrawn.AccountID ev = i \<and> 0 <s FundsWithdrawn.AmountCents ev"
| "proper i (Adjusted_event ev) \<longleftrightarrow> InventoryAdjusted.ItemID ev = i \<and> DeltaQuantity ev \<noteq> 0"
| "proper i (Reserved_event ev) \<longleftrightarrow> StockReserved.ItemID ev = i \<and> 0 <s StockReserved.Quantity ev"
| "proper i (Released_event ev) \<longleftrightarrow> StockReleased.ItemID ev = i \<and> 0 <s StockReleased.Quantity ev"

definition well_typed :: "Event \<Rightarrow> bool" where
  "well_typed e \<longleftrightarrow> (case decoded e of None \<Rightarrow> False | Some d \<Rightarrow> proper (Event.AggregateID e) d)"

section \<open>Decisions produce well-typed events, and well-typed events are consumed\<close>

lemma not_sle: "\<not> (a :: int64) \<le>s b \<longleftrightarrow> b <s a" "\<not> (a :: int64) <s b \<longleftrightarrow> b \<le>s a"
  by (auto simp: word_sle_eq word_sless_alt)

lemma account_decision_typed:
  assumes "account_decides (Event.AggregateID e) h (Event.EventType e) (Event.Payload e)"
    and "Event.AggregateType e = AggregateTypeAccount"
  shows "well_typed e"
  using assms by (elim account_decidesE)
    (auto simp: well_typed_def decoded_def DecideOpenAccount_def DecideDeposit_def DecideWithdraw_def not_sle
      dest: FoldAccount_id split: if_splits)

lemma inventory_decision_typed:
  assumes "inventory_decides (Event.AggregateID e) h (Event.EventType e) (Event.Payload e)"
    and "Event.AggregateType e = AggregateTypeInventoryItem"
  shows "well_typed e"
  using assms by (elim inventory_decidesE)
    (auto simp: well_typed_def decoded_def DecideAdjustInventory_def DecideReserveStock_def DecideReleaseStock_def not_sle
      split: if_splits)

lemma legal_log_typed: "legal_log L \<Longrightarrow> \<forall>e\<in>set L. well_typed e"
  by (induction rule: legal_log.induct)
    (auto simp: event_allowed_def decides_def event_key_def intro: account_decision_typed inventory_decision_typed
      split: if_splits)

lemma alike_typed:
  assumes "alike e f"
  shows "well_typed e \<longleftrightarrow> well_typed f"
proof -
  have "decoded e = decoded f" "Event.AggregateID e = Event.AggregateID f"
    using assms unfolding alike_def decodes_alike_def event_key_def decoded_def by (simp_all only: prod.inject)
  then show ?thesis by (simp only: well_typed_def)
qed

text \<open>No consumer of a well-typed event fails on it: neither the fold of its aggregate nor its applier.\<close>

lemma well_typed_account:
  assumes "well_typed e" and "Event.AggregateType e = AggregateTypeAccount"
  shows "\<exists>st'. account_step st e = Inr st'" and "\<exists>v'. account_view_step e v = Inr v'"
  using assms by (auto simp: well_typed_def decoded_def account_step_def account_view_step_def Let_def
      split: if_splits sum.splits)

lemma well_typed_inventory:
  assumes "well_typed e" and "Event.AggregateType e = AggregateTypeInventoryItem"
  shows "\<exists>st'. inventory_step st e = Inr st'" and "\<exists>v'. inventory_view_step e v = Inr v'"
  using assms by (auto simp: well_typed_def decoded_def inventory_step_def inventory_view_step_def Let_def
      split: if_splits sum.splits)

lemma well_typed_aggregate:
  "well_typed e \<Longrightarrow> Event.AggregateType e = AggregateTypeAccount \<or> Event.AggregateType e = AggregateTypeInventoryItem"
  by (auto simp: well_typed_def decoded_def split: if_splits)

text \<open>
  C11: Well-typed events do not go wrong.  Every event that commands have committed on Postgres is of one of
  the two aggregate types and of one of the event types of that aggregate, its payload decodes to the
  struct of its event type, the struct names the aggregate of the stream, and its amounts are in
  range; and whatever the state of the aggregate and the view, neither the fold nor the applier of
  the aggregate fails on the event.
\<close>

theorem committed_events_well_typed:
  assumes "obeys srv jsonb" and "keeps_payloads jsonb" and "unused srv w0" and "pg_reaches srv sv w0 n c"
    and "2 * n \<le> log_capacity" and "e \<in> set (committed_log srv c)"
  shows "well_typed e \<and>
    (Event.AggregateType e = AggregateTypeAccount \<and>
       (\<forall>st v. \<exists>st' v'. account_step st e = Inr st' \<and> account_view_step e v = Inr v') \<or>
     Event.AggregateType e = AggregateTypeInventoryItem \<and>
       (\<forall>st v. \<exists>st' v'. inventory_step st e = Inr st' \<and> inventory_view_step e v = Inr v'))"
proof -
  from pg_mirror [OF assms(1-5)] obtain m y where
    y: "reaches memory_Store sv (mem_New (\<lambda>_. 0)) m y" "2 * m \<le> log_capacity"
      "alikes (events (store y)) (committed_log srv c)" .
  have "legal_log (events (store y))" using reaches_mem_inv [OF y(1,2)] by (simp add: sys_inv_def)
  moreover from y(3) assms(6) obtain e0 where "e0 \<in> set (events (store y))" "alike e0 e"
    by (metis in_set_conv_nth list_all2_conv_all_nth)
  ultimately have "well_typed e" using legal_log_typed alike_typed by blast
  then show ?thesis
    using well_typed_aggregate [of e] well_typed_account [of e] well_typed_inventory [of e] by meson
qed

theorem committed_events_well_typed_witness:
  "map decoded (log_of (tabs (world (pg_play pg_race pg_idle)))) =
     [Some (Opened_event \<lparr>AccountOpened.AccountID = ''alice'', InitialBalanceCents = 100\<rparr>),
      Some (Withdrawn_event \<lparr>FundsWithdrawn.AccountID = ''alice'', AmountCents = 80, Reason = []\<rparr>)] \<and>
   well_typed (last (log_of (tabs (world (pg_play pg_race pg_idle)))))"
proof -
  let ?L = "log_of (tabs (world (pg_play pg_race pg_idle)))"
  obtain n where n: "pg_reaches mvcc_server demo_sv empty_mvcc n (pg_play pg_race pg_idle)" "2 * n \<le> log_capacity"
    by (rule pg_race_reaches)
  have d: "map decoded ?L =
     [Some (Opened_event \<lparr>AccountOpened.AccountID = ''alice'', InitialBalanceCents = 100\<rparr>),
      Some (Withdrawn_event \<lparr>FundsWithdrawn.AccountID = ''alice'', AmountCents = 80, Reason = []\<rparr>)]" by code_simp
  then have "?L \<noteq> []" by auto
  then have "last ?L \<in> set (committed_log mvcc_server (pg_play pg_race pg_idle))" by simp
  from committed_events_well_typed [OF on_mvcc n this] d show ?thesis by simp
qed

end
