(* ===== verification/Spec2Isabelle.thy ===== *)
theory Spec2Isabelle imports Progress Process Metrics Polling PgHazards Typing begin

text \<open>
  StreamLedger: an event-sourced ledger for account balances and inventory, with a command
  side that appends events to a log under optimistic concurrency control and a query side that
  folds the log into materialised views.  This is the root of its verification library.

  \<^bold>\<open>The program and its model\<close>

  \<^item> \<open>Prelude\<close>: Go's \<open>int64\<close> as a 64-bit word read as two's complement (so \<open>+\<close> and \<open>-\<close> wrap
    around), Go's map lookup.
  \<^item> \<open>Errors\<close>: the sentinel errors of \<open>internal/ledger/errors.go\<close> and
    \<open>internal/eventstore/eventstore.go\<close>, wrapped errors and \<open>errors.Is\<close>.  A Go result
    \<open>(T, error)\<close> is a value of type \<open>error + T\<close>.
  \<^item> \<open>Json\<close>, \<open>Events\<close>: what \<open>encoding/json\<close> does with the payload structs of
    \<open>internal/ledger/events.go\<close>, on JSON values; every payload decodes to the struct it was
    encoded from.
  \<^item> \<open>EventStore\<close>: \<open>internal/eventstore/eventstore.go\<close>.  The \<open>Store\<close> interface is a record of
    operations; what its comments promise are three locales over the log and the table of dedupe
    keys a store holds: \<open>event_log\<close> (the reads), \<open>durable_store\<close> (a store that may refuse texts and
    batches and gives payloads back in a form of its own) and \<open>event_store\<close> (the contract in full,
    a sublocale of \<open>durable_store\<close>).
  \<^item> \<open>MemoryStore\<close>: \<open>internal/eventstore/memory/store.go\<close>.  Each method holds the mutex
    throughout, so it is one function of the state; the invariant relates the counters, version
    and dedupe maps to the log, and the interpretation \<open>mem\<close> proves the contract.
  \<^item> \<open>Account\<close>, \<open>Inventory\<close>: the folds of \<open>internal/ledger/state.go\<close> and the decisions of
    \<open>internal/ledger/decide.go\<close>; the histories the decisions allow, and what every such history
    guarantees of the folded state.
  \<^item> \<open>Service\<close>: the handlers of \<open>internal/ledger/service.go\<close>.  A handler is a goroutine that
    calls the store and the publisher several times while others act in between, so it is the
    tree of its calls (\<open>proc\<close>): each call with what follows on every answer.  Its retry loops
    are recursive functions that terminate on the attempts left.
  \<^item> \<open>Service_Run\<close>, \<open>Handlers\<close>, \<open>Commands\<close>: one handler running alone.  The six handlers that
    write one stream are instances of one loop with different decisions.
  \<^item> \<open>Concurrency\<close>, \<open>Transfers\<close>, \<open>System\<close>, \<open>Guarantees\<close>: any number of handlers interleaved.
    \<open>safe\<close> is what a handler keeps of the protocol whatever the others do; \<open>sys_step\<close> is the
    step relation, \<open>reaches\<close> counts steps, \<open>sys_inv\<close> is the invariant, proved for every store
    with the contract.  \<open>play\<close> executes a given schedule.
  \<^item> \<open>ReadModel\<close>: the views and the \<open>ReadModelStore\<close> interface of
    \<open>internal/projections/projections.go\<close> (locale \<open>read_model\<close>) and its in-memory implementation
    with its one mutex, \<open>internal/projections/memory/store.go\<close> (interpretation \<open>rm\<close>).
  \<^item> \<open>Projector\<close>: appliers, \<open>ApplyEvent\<close>, \<open>CatchUp\<close>, \<open>Lag\<close> and \<open>Checkpoint\<close> of
    \<open>internal/projections\<close>.  Metrics are the list of what was reported.
  \<^item> \<open>Projection\<close>, \<open>Projectors\<close>: the contract of a projection (locale \<open>projection\<close>, extended
    with an event store to \<open>follower\<close>), interpreted on both projectors of the program (\<open>bal\<close>,
    \<open>stk\<close>): a view is the fold of the events the projector has seen.
  \<^item> \<open>Bus\<close>, \<open>Delivery\<close>: the in-memory bus and the duplicating publisher of \<open>internal/bus\<close>, and
    the wiring of \<open>cmd/streamledger/main.go\<close>; the views stay in step with the log.
  \<^item> \<open>GrpcServer\<close>: validation, error codes, commands and queries of
    \<open>internal/grpcserver/server.go\<close>.  \<open>Answers\<close>: the errors a client can see.  \<open>Progress\<close>: what a
    version conflict says about the others.
  \<^item> \<open>Sql\<close>, \<open>PgStore\<close>, \<open>PgReadModels\<close>: \<open>internal/eventstore/postgres/store.go\<close> and
    \<open>internal/projections/postgres/store.go\<close>, call by call, with the text of every statement, over
    a record of driver calls.  \<open>PgLog\<close>: the tables of \<open>schema/0001_events.sql\<close>, what the statements
    mean on them, and the contract \<open>durable_store\<close>; the contract \<open>read_model\<close> is proved in
    \<open>PgReadModels\<close>, so the projectors are the ones proved for any read model.  \<open>TableDb\<close>: a database
    of tables that executes the statements, for the witnesses.  \<open>Postgres\<close>: both stores together,
    and failures in the middle.  \<open>Backends\<close>: commands cannot tell Postgres from memory.
  \<^item> \<open>PgSessions\<close>: the Postgres store statement by statement.  Any number of processes run commands; a
    session is a handler and the replies it has had from the database so far, and running the very
    functions of \<open>PgStore\<close> on a driver that replays those replies gives the next statement
    (\<open>moves\<close>).  \<open>pg_step\<close> answers one statement of one session.  What a reply may be and do is
    the relation \<open>permitted\<close>, under row locks and read committed: it says what every statement sees,
    when it must wait, and that anything may be refused or left in doubt.
  \<^item> \<open>PgStatements\<close>, \<open>PgCommitted\<close>, \<open>PgBatch\<close>, \<open>PgSimulation\<close>, \<open>PgSteps\<close>, \<open>PgRefinement\<close>: the
    simulation.  The statements of \<open>Append\<close> in order; an invariant of the tables under \<open>permitted\<close>;
    what a transaction has written so far, and that its commit is the commit of one batch in memory;
    \<open>attuned\<close> relates a session to a handler of the in-memory system, \<open>related\<close> the systems.
  \<^item> \<open>Mvcc\<close>: a database with open transactions and row locks that obeys the laws.  \<open>PgGuarantees\<close>: the
    refinement and the guarantees on Postgres, with schedules played on that database.
    \<open>PgHazards\<close>: where Postgres differs from memory.
  \<^item> \<open>Typing\<close>: the types of events and payloads.
  \<^item> \<open>NatsBus\<close>: wire format, options, \<open>Publish\<close> and \<open>Subscribe\<close> of \<open>internal/bus/natsbus/bus.go\<close>.
  \<^item> \<open>Metrics\<close>: \<open>internal/metrics/metrics.go\<close>.
  \<^item> \<open>Polling\<close>: the goroutine behind each projector, with the deliveries between its ticks.
  \<^item> \<open>Process\<close>: flags, storage, bus and the life of the process in \<open>cmd/streamledger/main.go\<close>, with
    everything it opens and closes, what it waits for and how it shuts down.

  \<^bold>\<open>Parameters and hypotheses\<close>

  Code outside the repository is a parameter.  For Postgres it is the driver; \<open>event_store_sql\<close> and
  \<open>read_model_sql\<close> say what each statement does to the tables, and \<open>tx_laws\<close> that transactions begin
  from what is committed and end as a whole, for one session at a time; \<open>tx_isolated\<close> says less and
  allows every statement to fail.  For many sessions it is a server that \<open>obeys\<close> the laws
  \<open>permitted\<close>, on payloads that \<open>keeps_payloads\<close> holds of, started on empty tables (\<open>unused\<close>).  Texts and times may be refused (\<open>text_ok\<close>, \<open>ok_id\<close>, \<open>ok_time\<close>: NUL
  bytes, times out of range), times are rounded (\<open>stamp\<close>) and payloads come back in another form
  (\<open>jsonb\<close>; \<open>keeps_payloads\<close>: those the program writes decode to the same).  For NATS it is the
  client; \<open>jetstream_stores\<close> is the duplicate window, \<open>codec_ok\<close> the round trip of bytes and times
  through JSON.  Every hypothesis is met by the concrete parameters of a witness.

  \<^bold>\<open>What is shown\<close>

  The command side: in every state that any interleaving of commands without an explicit
  expected version reaches, each event was accepted by a decision on exactly the events of its
  stream before it; so no balance is overdrawn and no stock over-committed, a dedupe key is
  applied at most once, and what was acknowledged is in the log.  Each command alone does what
  its decision says on every branch, a transfer is all or nothing, an error leaves no trace,
  and a retry is answered as a duplicate.  Every command ends, after a bounded number of calls.
  A command gives up with a version conflict only if its streams grew at every attempt, and no
  client sees an internal error.  On Postgres a command answers and leaves behind what it does in
  memory; and however the statements of any number of processes interleave, whatever is refused or
  left in doubt, what is committed, published and answered is that of a run in memory, up to errors
  of the database.  So the guarantees carry over.  Every committed event is well typed, and no fold or
  applier fails on it.
  The read side: deliveries in any order and number fold each event at most once; a catch-up
  makes the views the folds of the log; as long as events are published in the order of the log
  the views are in step without it, and polling makes up for messages that are lost as long as none
  overtakes one that is missing.  The same holds on Postgres, where an application that fails
  half-way leaves no trace.  What is published on NATS is what is consumed.  The process closes
  what it opens, whatever fails, and after a signal it stops serving first.

  It is also shown where this ends: commands pinned to an explicit version can overdraw an
  account, deposits can exceed an \<open>int64\<close>, the largest retry budget wraps around, an event that
  is delivered late is lost to the views for good, and on NATS the two projectors take each
  other's events.  On Postgres two requests that race for a new dedupe key cost the second an internal
  error, transfers in opposite directions can deadlock, and an event that is committed after one with
  a larger number was read is never applied.

  \<^bold>\<open>Bounds\<close>

  Balances and stock are bounded by what was ever put in, which must be below \<open>2^63\<close>.  Global
  sequence numbers are \<open>int64\<close>: a run has at most \<open>log_capacity / 2\<close> steps, about \<open>2^62\<close>, since a
  step appends at most two events; a lone command needs room for its calls.  No loop uses fuel: the retry
  loops terminate on the attempts left, and \<open>CatchUp\<close>, which has no bound in the code, is a
  partial function that is proved to return.

  \<^bold>\<open>What is not modelled\<close>

  Several projectors at once on the Postgres read models: their laws are those of one session.  Pools
  beyond the connections they hand out, the NATS server beyond its duplicate window and its choice of a
  subscriber, the generated protobuf code, and of \<open>main.go\<close> the insides of the listener and the two
  servers: what happens while the process serves is an argument.  Byte-level JSON: payloads are
  JSON values.  Contexts carry no cancellation.
\<close>

end
